(* ===== verification/Prelude.thy ===== *)
theory Prelude
  imports Main "HOL-Library.Word"
begin

text \<open>
  Shared vocabulary of the development: bytes and C strings inside character
  arrays.  A \<^verbatim>\<open>char buf[n]\<close> of the source is a byte list of length \<open>n\<close>; its
  contents before the first write are whatever list the caller passes.  A C string
  is the part of an array in front of its first NUL.  Library functions that walk
  to the NUL (\<^verbatim>\<open>strlen\<close>, \<^verbatim>\<open>strcmp\<close>, \<^verbatim>\<open>strpbrk\<close>, \<^verbatim>\<open>strchr\<close>) give \<open>None\<close>
  when the array holds no NUL, because the C function then reads past its end.
\<close>

unbundle bit_operations_syntax

named_theorems cstring "facts about C strings in byte arrays"
named_theorems split_cases "splitting rules for the branches of translated code"

type_synonym byte = "8 word"

text \<open>The bytes of a string literal, without its terminating NUL.\<close>

definition bytes :: "string \<Rightarrow> byte list" where
  "bytes s = map of_char s"

abbreviation LF :: byte where "LF \<equiv> 10"
abbreviation CR :: byte where "CR \<equiv> 13"

text \<open>The C string at the start of an array, and whether there is one.\<close>

definition cstr :: "byte list \<Rightarrow> byte list" where
  "cstr b = takeWhile (\<lambda>x. x \<noteq> 0) b"

definition terminated :: "byte list \<Rightarrow> bool" where
  "terminated b \<longleftrightarrow> 0 \<in> set b"

fun strlen_c :: "byte list \<Rightarrow> nat option" where
  "strlen_c [] = None"
| "strlen_c (x # xs) = (if x = 0 then Some 0 else map_option Suc (strlen_c xs))"

text \<open>\<^verbatim>\<open>strcmp(b, lit) == 0\<close> for a literal.\<close>

definition streq :: "byte list \<Rightarrow> byte list \<Rightarrow> bool" where
  "streq b lit \<longleftrightarrow> cstr b = lit"

text \<open>
  \<^verbatim>\<open>strpbrk(b, accept)\<close>: the index of the first byte of the C string that is one
  of \<open>accept\<close>, the inner \<open>None\<close> being the NULL pointer.
\<close>

fun strpbrk_c :: "byte list \<Rightarrow> byte list \<Rightarrow> nat option option" where
  "strpbrk_c [] acc = None"
| "strpbrk_c (x # xs) acc =
     (if x \<in> set acc \<and> x \<noteq> 0 then Some (Some 0)
      else if x = 0 then Some None
      else map_option (map_option Suc) (strpbrk_c xs acc))"

text \<open>Bytes stored over the start of an array, as \<^verbatim>\<open>recv\<close> and \<^verbatim>\<open>read\<close> do.\<close>

definition overlay :: "byte list \<Rightarrow> byte list \<Rightarrow> byte list" where
  "overlay b xs = xs @ drop (length xs) b"

text \<open>\<^verbatim>\<open>memmove(b + dst, b + src, n)\<close> inside one array.\<close>

definition memmove :: "byte list \<Rightarrow> nat \<Rightarrow> nat \<Rightarrow> nat \<Rightarrow> byte list" where
  "memmove b dst src n = take dst b @ take n (drop src b) @ drop (dst + n) b"

lemma length_overlay [simp]: "length xs \<le> length b \<Longrightarrow> length (overlay b xs) = length b"
  by (simp add: overlay_def)

lemma cstr_Nil [simp]: "cstr [] = []"
  by (simp add: cstr_def)

lemma cstr_Cons [simp]: "cstr (x # xs) = (if x = 0 then [] else x # cstr xs)"
  by (simp add: cstr_def)

lemma cstr_no_nul [simp, cstring]: "0 \<notin> set (cstr b)"
  by (induction b) auto

lemma cstr_append: "cstr (xs @ ys) = (if 0 \<in> set xs then cstr xs else xs @ cstr ys)"
  by (induction xs) auto

lemma cstr_id: "0 \<notin> set b \<Longrightarrow> cstr b = b"
  by (induction b) auto

lemma cstr_terminated_append [simp]: "0 \<notin> set xs \<Longrightarrow> cstr (xs @ 0 # ys) = xs"
  by (simp add: cstr_append)

lemma length_cstr_le: "length (cstr b) \<le> length b"
  by (simp add: cstr_def length_takeWhile_le)

lemma length_cstr_less: "terminated b \<Longrightarrow> length (cstr b) < length b"
  by (induction b) (auto simp: terminated_def)

lemma set_cstr_subset: "set (cstr b) \<subseteq> set b"
  by (induction b) auto

lemma strlen_c_eq [cstring]:
  "strlen_c b = (if terminated b then Some (length (cstr b)) else None)"
  by (induction b) (auto simp: terminated_def)

lemma terminated_split:
  assumes "terminated b"
  obtains ys where "b = cstr b @ 0 # ys"
proof -
  from assms have "\<exists>ys. b = cstr b @ 0 # ys"
    by (induction b) (auto simp: terminated_def)
  with that show ?thesis by blast
qed

lemma terminated_append [simp]: "terminated (xs @ ys) \<longleftrightarrow> terminated xs \<or> terminated ys"
  by (auto simp: terminated_def)

lemma terminated_Cons [simp]: "terminated (x # xs) \<longleftrightarrow> x = 0 \<or> terminated xs"
  by (auto simp: terminated_def)

lemma terminated_Nil [simp]: "\<not> terminated []"
  by (simp add: terminated_def)

lemma terminated_update [simp]: "i < length b \<Longrightarrow> terminated (b[i := 0])"
  by (simp add: terminated_def set_update_memI)

lemma nth_length_cstr: "terminated b \<Longrightarrow> b ! length (cstr b) = 0"
  by (induction b) (auto simp: terminated_def)

lemma nth_cstr_nz: "i < length (cstr b) \<Longrightarrow> b ! i \<noteq> 0"
proof (induction b arbitrary: i)
  case (Cons x xs)
  then show ?case by (cases i) (auto split: if_splits)
qed simp

text \<open>What \<^verbatim>\<open>strpbrk\<close> followed by \<^verbatim>\<open>*ptr = 0\<close> leaves: the string up to the first hit.\<close>

lemma strpbrk_c_None [cstring]:
  "terminated b \<Longrightarrow> strpbrk_c b acc = Some None \<longleftrightarrow> (\<forall>x \<in> set (cstr b). x \<notin> set acc)"
  by (induction b) (auto simp: terminated_def)

lemma strpbrk_c_total [cstring]: "terminated b \<Longrightarrow> strpbrk_c b acc \<noteq> None"
  by (induction b) (auto simp: terminated_def)

lemma strpbrk_c_Some:
  "strpbrk_c b acc = Some (Some i) \<Longrightarrow>
   i < length b \<and> cstr (b[i := 0]) = takeWhile (\<lambda>x. x \<notin> set acc) (cstr b)"
proof (induction b arbitrary: i)
  case (Cons x xs)
  show ?case
  proof (cases "x \<in> set acc \<or> x = 0")
    case True
    with Cons.prems show ?thesis by (auto split: if_splits)
  next
    case False
    with Cons.prems obtain j where "strpbrk_c xs acc = Some (Some j)" "i = Suc j"
      by auto
    with Cons.IH False show ?thesis by auto
  qed
qed simp

lemma takeWhile_all: "(\<forall>x \<in> set xs. P x) \<Longrightarrow> takeWhile P xs = xs"
  by (simp add: takeWhile_eq_all_conv)

lemma cstr_update_at:
  "i \<le> length (cstr b) \<Longrightarrow> i < length b \<Longrightarrow> cstr (b[i := 0]) = take i (cstr b)"
proof (induction b arbitrary: i)
  case (Cons x xs)
  then show ?case by (cases i) (auto split: if_splits)
qed simp

end
