(* ===== verification/CProg.thy ===== *)
theory CProg
  imports Prelude
begin

text \<open>
  C functions that talk to their environment.  A value of type
  \<open>('c, 'r, 'a) prog\<close> is a decision tree: it returns, exits the process, reaches
  undefined behaviour, runs out of the fuel of a loop (\<open>Spin\<close>), or makes a library or
  system call \<open>'c\<close> and goes on with whatever response \<open>'r\<close> the environment gives.
  The environment is never modelled by a definition of its own: every theorem ranges
  over all response sequences, restricted where needed by hypotheses that state
  documented behaviour.
\<close>

datatype fault =
    OutOfBounds        \<comment> \<open>access outside the bounds of an array\<close>
  | UninitPointer      \<comment> \<open>use of a pointer variable that was never assigned\<close>
  | NullPointer        \<comment> \<open>dereference of NULL\<close>
  | BadFree            \<comment> \<open>\<^verbatim>\<open>free\<close> of something \<^verbatim>\<open>malloc\<close> did not return\<close>
  | AssertFailed       \<comment> \<open>a failing \<^verbatim>\<open>assert\<close>\<close>
  | Overflowed         \<comment> \<open>signed overflow or division by zero\<close>
  | UseAfterFree       \<comment> \<open>a pointer into a block that was freed is followed\<close>

datatype ('c, 'r, 'a) prog =
    Ret 'a
  | Exit int
  | Fault fault
  | Spin
  | Sys 'c "'r \<Rightarrow> ('c, 'r, 'a) prog"

datatype ('c, 'a) outcome =
    Value 'a
  | Exited int
  | Undefined fault
  | Running
  | Blocked 'c

text \<open>A call whose response is ignored.\<close>

definition call :: "'c \<Rightarrow> ('c, 'r, 'a) prog \<Rightarrow> ('c, 'r, 'a) prog" where
  "call c p = Sys c (\<lambda>_. p)"

text \<open>Sequencing: the continuation gets the value the first part returns.\<close>

primrec andthen :: "('c, 'r, 'a) prog \<Rightarrow> ('a \<Rightarrow> ('c, 'r, 'b) prog) \<Rightarrow> ('c, 'r, 'b) prog" where
  "andthen (Ret a) k = k a"
| "andthen (Exit n) k = Exit n"
| "andthen (Fault f) k = Fault f"
| "andthen Spin k = Spin"
| "andthen (Sys c h) k = Sys c (\<lambda>r. andthen (h r) k)"

text \<open>
  Running against a list of responses; \<open>Blocked\<close> when the list is too short.  The
  trace pairs each call with the response it got.
\<close>

primrec run :: "('c, 'r, 'a) prog \<Rightarrow> 'r list \<Rightarrow> ('c, 'a) outcome \<times> ('c \<times> 'r) list" where
  "run (Ret a) rs = (Value a, [])"
| "run (Exit n) rs = (Exited n, [])"
| "run (Fault f) rs = (Undefined f, [])"
| "run Spin rs = (Running, [])"
| "run (Sys c k) rs =
     (case rs of
        [] \<Rightarrow> (Blocked c, [])
      | r # rs' \<Rightarrow> (let (out, t) = run (k r) rs' in (out, (c, r) # t)))"

text \<open>The same as a relation: all complete behaviours, over all environments.\<close>

inductive exec :: "('c, 'r, 'a) prog \<Rightarrow> ('c, 'a) outcome \<Rightarrow> ('c \<times> 'r) list \<Rightarrow> bool" where
  exec_Ret: "exec (Ret a) (Value a) []"
| exec_Exit: "exec (Exit n) (Exited n) []"
| exec_Fault: "exec (Fault f) (Undefined f) []"
| exec_Spin: "exec Spin Running []"
| exec_Sys: "exec (k r) out t \<Longrightarrow> exec (Sys c k) out ((c, r) # t)"

inductive_simps exec_Ret_iff [simp]: "exec (Ret a) out t"
inductive_simps exec_Exit_iff [simp]: "exec (Exit n) out t"
inductive_simps exec_Fault_iff [simp]: "exec (Fault f) out t"
inductive_simps exec_Spin_iff [simp]: "exec Spin out t"
inductive_simps exec_Sys_iff [simp]: "exec (Sys c k) out t"
inductive_simps exec_Sys_Nil: "exec (Sys c k) out []"

lemma exec_call [simp]: "exec (call c p) out t \<longleftrightarrow> (\<exists>r t'. t = (c, r) # t' \<and> exec p out t')"
  by (simp add: call_def)

lemma andthen_call [simp]: "andthen (call c p) k = call c (andthen p k)"
  by (simp add: call_def)

lemma run_call [simp]:
  "run (call c p) rs = (case rs of [] \<Rightarrow> (Blocked c, [])
     | r # rs' \<Rightarrow> (let (out, t) = run p rs' in (out, (c, r) # t)))"
  by (simp add: call_def)

lemma run_exec: "run p rs = (out, t) \<Longrightarrow> \<forall>c. out \<noteq> Blocked c \<Longrightarrow> exec p out t"
proof (induction p arbitrary: rs t)
  case (Sys c k)
  from Sys.prems obtain r rs' where rs: "rs = r # rs'"
    by (cases rs) auto
  with Sys.prems obtain t' where "run (k r) rs' = (out, t')" and "t = (c, r) # t'"
    by (auto split: prod.splits)
  with Sys.IH [of "k r" rs' t'] Sys.prems(2) show ?case by auto
qed auto

lemma exec_run: "exec p out t \<Longrightarrow> run p (map snd t) = (out, t)"
  by (induction rule: exec.induct) simp_all

lemma exec_not_blocked: "exec p out t \<Longrightarrow> out \<noteq> Blocked c"
  by (induction rule: exec.induct) simp_all

theorem exec_iff_run:
  "exec p out t \<longleftrightarrow> run p (map snd t) = (out, t) \<and> (\<forall>c. out \<noteq> Blocked c)"
  using exec_run exec_not_blocked run_exec by metis

text \<open>
  Every program of this type returns once the environment has answered enough of its
  calls: there is no infinite path in a tree.
\<close>

theorem run_completes: "\<exists>n. \<forall>c. fst (run p (map f [0..<n])) \<noteq> Blocked c"
proof (induction p arbitrary: f)
  case (Sys c k)
  have "\<exists>n. \<forall>c'. fst (run (k (f 0)) (map (\<lambda>i. f (Suc i)) [0..<n])) \<noteq> Blocked c'"
    using Sys.IH [of "k (f 0)" "\<lambda>i. f (Suc i)"] by auto
  then obtain n where n: "\<forall>c'. fst (run (k (f 0)) (map (\<lambda>i. f (Suc i)) [0..<n])) \<noteq> Blocked c'"
    by blast
  have "map f [0..<Suc n] = f 0 # map (\<lambda>i. f (Suc i)) [0..<n]"
    by (simp add: upt_conv_Cons map_Suc_upt [symmetric] comp_def del: upt_Suc map_Suc_upt)
  with n have "\<forall>c'. fst (run (Sys c k) (map f [0..<Suc n])) \<noteq> Blocked c'"
    by (auto simp del: upt_Suc split: prod.splits)
  then show ?case by blast
qed auto

lemma exec_total: "\<exists>out t. exec p out t"
  by (induction p) (auto, blast)

lemma andthen_assoc: "andthen (andthen p f) g = andthen p (\<lambda>x. andthen (f x) g)"
  by (induction p) auto

text \<open>Executions of a sequence split at the point where the first part returns.\<close>

lemma exec_andthen:
  "exec (andthen p k) out t \<longleftrightarrow>
     (\<exists>a t1 t2. exec p (Value a) t1 \<and> exec (k a) out t2 \<and> t = t1 @ t2)
   \<or> (\<exists>n. exec p (Exited n) t \<and> out = Exited n)
   \<or> (\<exists>f. exec p (Undefined f) t \<and> out = Undefined f)
   \<or> (exec p Running t \<and> out = Running)"
proof (induction p arbitrary: t)
  case (Sys c h)
  have IH: "exec (andthen (h r) k) out t' \<longleftrightarrow>
     (\<exists>a t1 t2. exec (h r) (Value a) t1 \<and> exec (k a) out t2 \<and> t' = t1 @ t2)
   \<or> (\<exists>n. exec (h r) (Exited n) t' \<and> out = Exited n)
   \<or> (\<exists>f. exec (h r) (Undefined f) t' \<and> out = Undefined f)
   \<or> (exec (h r) Running t' \<and> out = Running)" for r t'
    using Sys.IH by blast
  show ?case by (auto simp: IH) (metis append_Cons)+
qed auto

lemma exec_deterministic:
  "exec p out t \<Longrightarrow> exec p out' t' \<Longrightarrow> map snd t = map snd t' \<Longrightarrow> out = out' \<and> t = t'"
  by (metis exec_run prod.inject)

text \<open>Array stores and loads that check the bounds of the array.\<close>

definition store :: "byte list \<Rightarrow> nat \<Rightarrow> byte \<Rightarrow> (byte list \<Rightarrow> ('c, 'r, 'a) prog) \<Rightarrow> ('c, 'r, 'a) prog" where
  "store b i v k = (if i < length b then k (b[i := v]) else Fault OutOfBounds)"

definition need :: "'b option \<Rightarrow> fault \<Rightarrow> ('b \<Rightarrow> ('c, 'r, 'a) prog) \<Rightarrow> ('c, 'r, 'a) prog" where
  "need x f k = (case x of None \<Rightarrow> Fault f | Some y \<Rightarrow> k y)"

lemma need_simps [simp]: "need None f k = Fault f" "need (Some y) f k = k y"
  by (simp_all add: need_def)

lemma store_in [simp]: "i < length b \<Longrightarrow> store b i v k = k (b[i := v])"
  by (simp add: store_def)

lemma store_out [simp]: "length b \<le> i \<Longrightarrow> store b i v k = Fault OutOfBounds"
  by (simp add: store_def)

subsection \<open>Monitors\<close>

text \<open>
  A monitor watches the calls of a program: its state \<open>h\<close> changes with each call and
  response (\<open>m_st\<close>), a call may be forbidden in a state (\<open>m_ok\<close>), and the environment keeps
  to documented responses (\<open>m_env\<close>).  \<open>safe\<close> walks a program under a monitor: every call is
  allowed, and the postcondition holds of every outcome and final monitor state.
\<close>

record ('h, 'c, 'r) monitor =
  m_ok :: "'h \<Rightarrow> 'c \<Rightarrow> bool"
  m_env :: "'h \<Rightarrow> 'c \<Rightarrow> 'r \<Rightarrow> bool"
  m_st :: "'h \<Rightarrow> 'c \<Rightarrow> 'r \<Rightarrow> 'h"

primrec safe ::
  "('h, 'c, 'r) monitor \<Rightarrow> ('c, 'r, 'a) prog \<Rightarrow> 'h \<Rightarrow> (('c, 'a) outcome \<Rightarrow> 'h \<Rightarrow> bool) \<Rightarrow> bool"
where
  "safe M (Ret a) h Q = Q (Value a) h"
| "safe M (Exit n) h Q = Q (Exited n) h"
| "safe M (Fault f) h Q = Q (Undefined f) h"
| "safe M Spin h Q = Q Running h"
| "safe M (Sys c k) h Q =
     (m_ok M h c \<and> (\<forall>r. m_env M h c r \<longrightarrow> safe M (k r) (m_st M h c r) Q))"

fun end_state :: "('h, 'c, 'r) monitor \<Rightarrow> 'h \<Rightarrow> ('c \<times> 'r) list \<Rightarrow> 'h" where
  "end_state M h [] = h"
| "end_state M h ((c, r) # t) = end_state M (m_st M h c r) t"

fun allowed :: "('h, 'c, 'r) monitor \<Rightarrow> 'h \<Rightarrow> ('c \<times> 'r) list \<Rightarrow> bool" where
  "allowed M h [] = True"
| "allowed M h ((c, r) # t) = (m_ok M h c \<and> allowed M (m_st M h c r) t)"

fun honest :: "('h, 'c, 'r) monitor \<Rightarrow> 'h \<Rightarrow> ('c \<times> 'r) list \<Rightarrow> bool" where
  "honest M h [] = True"
| "honest M h ((c, r) # t) = (m_env M h c r \<and> honest M (m_st M h c r) t)"

theorem safe_exec:
  assumes "exec p out t" and "safe M p h Q" and "honest M h t"
  shows "allowed M h t" and "Q out (end_state M h t)"
  using assms by (induction arbitrary: h) auto

lemma safe_mono:
  "safe M p h Q \<Longrightarrow> (\<And>out h'. Q out h' \<Longrightarrow> Q' out h') \<Longrightarrow> safe M p h Q'"
  by (induction p arbitrary: h) auto

lemma safe_conj: "safe M p h (\<lambda>out h'. P out h' \<and> Q out h') \<longleftrightarrow> safe M p h P \<and> safe M p h Q"
  by (induction p arbitrary: h) auto

lemma safe_if [simp]:
  "safe M (if b then p else q) h Q \<longleftrightarrow> (b \<longrightarrow> safe M p h Q) \<and> (\<not> b \<longrightarrow> safe M q h Q)"
  by simp

lemma safe_call [simp]: "safe M (call c p) h Q \<longleftrightarrow>
    m_ok M h c \<and> (\<forall>r. m_env M h c r \<longrightarrow> safe M p (m_st M h c r) Q)"
  by (simp add: call_def)

lemma safe_need [simp]: "safe M (need x f k) h Q \<longleftrightarrow>
    (x = None \<longrightarrow> Q (Undefined f) h) \<and> (\<forall>y. x = Some y \<longrightarrow> safe M (k y) h Q)"
  by (cases x) auto

lemma safe_store [simp]: "safe M (store b i v k) h Q \<longleftrightarrow>
    (i < length b \<longrightarrow> safe M (k (b[i := v])) h Q) \<and>
    (length b \<le> i \<longrightarrow> Q (Undefined OutOfBounds) h)"
  by (auto simp: store_def)

text \<open>Sequencing: the first part must establish what the second part needs.\<close>

lemma safe_andthen:
  "safe M p h R \<Longrightarrow>
   (\<And>a h'. R (Value a) h' \<Longrightarrow> safe M (k a) h' Q) \<Longrightarrow>
   (\<And>n h'. R (Exited n) h' \<Longrightarrow> Q (Exited n) h') \<Longrightarrow>
   (\<And>f h'. R (Undefined f) h' \<Longrightarrow> Q (Undefined f) h') \<Longrightarrow>
   (\<And>h'. R Running h' \<Longrightarrow> Q Running h') \<Longrightarrow>
   safe M (andthen p k) h Q"
  by (induction p arbitrary: h) auto

text \<open>A monitor with no opinion gives plain reachability: what every run's outcome satisfies.\<close>

lemma safe_iff_exec:
  assumes ok: "\<And>h c. m_ok M h c"
  shows "safe M p h Q \<longleftrightarrow>
    (\<forall>out t. exec p out t \<longrightarrow> honest M h t \<longrightarrow> Q out (end_state M h t))"
proof (induction p arbitrary: h)
  case (Sys c k)
  have IH: "safe M (k r) h' Q \<longleftrightarrow>
      (\<forall>out t. exec (k r) out t \<longrightarrow> honest M h' t \<longrightarrow> Q out (end_state M h' t))" for r h'
    using Sys.IH by blast
  show ?case
  proof
    assume L: "safe M (Sys c k) h Q"
    show "\<forall>out t. exec (Sys c k) out t \<longrightarrow> honest M h t \<longrightarrow> Q out (end_state M h t)"
      using L IH by auto
  next
    assume R: "\<forall>out t. exec (Sys c k) out t \<longrightarrow> honest M h t \<longrightarrow> Q out (end_state M h t)"
    have "safe M (k r) (m_st M h c r) Q" if "m_env M h c r" for r
      unfolding IH
    proof (intro allI impI)
      fix out t assume "exec (k r) out t" "honest M (m_st M h c r) t"
      with R [rule_format, of out "(c, r) # t"] that
      show "Q out (end_state M (m_st M h c r) t)" by simp
    qed
    then show "safe M (Sys c k) h Q" by (simp add: ok)
  qed
qed auto

text \<open>The monitor that sees and forbids nothing: \<open>safe\<close> is then about the outcome alone.\<close>

definition anything :: "(unit, 'c, 'r) monitor" where
  "anything = \<lparr>m_ok = \<lambda>_ _. True, m_env = \<lambda>_ _ _. True, m_st = \<lambda>_ _ _. ()\<rparr>"

lemma anything_simps [simp]: "m_ok anything h c" "m_env anything h c r" "m_st anything h c r = ()"
  by (simp_all add: anything_def)

lemma honest_anything: "honest anything h t"
  by (induction t) auto

lemma outcome_exec: "safe anything p () (\<lambda>out _. Q out) \<Longrightarrow> exec p out t \<Longrightarrow> Q out"
  by (rule safe_exec(2) [OF _ _ honest_anything])

text \<open>
  The folds of a monitor over a trace, for any notion of state: how they distribute over
  a trace made of two parts, and how an invariant of single permitted steps carries over
  to a trace.
\<close>

locale monitoring =
  fixes step :: "'h \<Rightarrow> 'c \<Rightarrow> 'r \<Rightarrow> 'h"
    and fold_st :: "'h \<Rightarrow> ('c \<times> 'r) list \<Rightarrow> 'h"
    and good :: "'h \<Rightarrow> 'c \<Rightarrow> 'r \<Rightarrow> bool"
    and all_good :: "'h \<Rightarrow> ('c \<times> 'r) list \<Rightarrow> bool"
  assumes fold_Nil: "fold_st h [] = h"
    and fold_Cons: "fold_st h ((c, r) # t) = fold_st (step h c r) t"
    and all_Nil: "all_good h []"
    and all_Cons: "all_good h ((c, r) # t) \<longleftrightarrow> good h c r \<and> all_good (step h c r) t"
begin

lemma fold_append: "fold_st h (t1 @ t2) = fold_st (fold_st h t1) t2"
  by (induction t1 arbitrary: h) (auto simp: fold_Nil fold_Cons)

lemma all_append: "all_good h (t1 @ t2) \<longleftrightarrow> all_good h t1 \<and> all_good (fold_st h t1) t2"
  by (induction t1 arbitrary: h) (auto simp: fold_Nil fold_Cons all_Nil all_Cons)

lemma all_prefix: "all_good h (t1 @ t2) \<Longrightarrow> all_good h t1"
  by (simp add: all_append)

lemma fold_invariant:
  assumes "\<And>h c r. I h \<Longrightarrow> good h c r \<Longrightarrow> I (step h c r)" and "I h" and "all_good h t"
  shows "I (fold_st h t)"
  using assms(2,3) by (induction t arbitrary: h) (auto simp: fold_Nil fold_Cons all_Cons assms(1))

end

interpretation allowing: monitoring "m_st M" "end_state M" "\<lambda>h c r. m_ok M h c" "allowed M" for M
  by unfold_locales auto

interpretation honouring: monitoring "m_st M" "end_state M" "m_env M" "honest M" for M
  by unfold_locales auto

lemmas end_state_append = allowing.fold_append
lemmas allowed_append = allowing.all_append
lemmas honest_append = honouring.all_append

end
