(* ===== verification/Mystrlcat.thy ===== *)
theory Mystrlcat
  imports Prelude
begin

text \<open>
  \<^verbatim>\<open>mystrlcat\<close> (\<^verbatim>\<open>src/daemon/src/mystrlcat.c\<close>, and verbatim in nine other files):
  append a C string to the one in a fixed-sz array, truncating.  Pointers are indexes
  into the arrays; each of the four loops is a function, \<open>None\<close> when it leaves an
  array.  The locale \<open>bounded_cat\<close> is what the message handlers rely on.
\<close>

subsection \<open>The four loops and the function\<close>

text \<open>\<^verbatim>\<open>for (pd = dst, lest = sz; *pd != 0 && lest != 0; pd++, lest--);\<close>\<close>

fun scan_end :: "byte list \<Rightarrow> nat \<Rightarrow> nat \<Rightarrow> (nat \<times> nat) option" where
  "scan_end dst pd lest =
     (if pd < length dst
      then if dst ! pd \<noteq> 0 \<and> lest \<noteq> 0 then scan_end dst (Suc pd) (lest - 1) else Some (pd, lest)
      else None)"

declare scan_end.simps [simp del]

text \<open>\<^verbatim>\<open>for (ps = src; *ps != 0 && pd < pde; pd++, ps++) *pd = *ps;\<close>\<close>

function copy_loop ::
  "byte list \<Rightarrow> byte list \<Rightarrow> nat \<Rightarrow> nat \<Rightarrow> nat \<Rightarrow> (byte list \<times> nat \<times> nat) option" where
  "copy_loop dst src pd ps pde =
     (if ps < length src
      then if src ! ps \<noteq> 0 \<and> pd < pde
           then if pd < length dst
                then copy_loop (dst[pd := src ! ps]) src (Suc pd) (Suc ps) pde
                else None
           else Some (dst, pd, ps)
      else None)"
  by pat_completeness auto
termination
  by (relation "measure (\<lambda>(dst, src, pd, ps, pde). pde - pd)") auto

declare copy_loop.simps [simp del]

text \<open>\<^verbatim>\<open>for (; pd <= pde; pd++) *pd = 0;\<close>\<close>

function zero_loop :: "byte list \<Rightarrow> nat \<Rightarrow> nat \<Rightarrow> byte list option" where
  "zero_loop dst pd pde =
     (if pd \<le> pde
      then if pd < length dst then zero_loop (dst[pd := 0]) (Suc pd) pde else None
      else Some dst)"
  by pat_completeness auto
termination
  by (relation "measure (\<lambda>(dst, pd, pde). Suc pde - pd)") auto

declare zero_loop.simps [simp del]

text \<open>\<^verbatim>\<open>while (*ps++);\<close>\<close>

function skip_loop :: "byte list \<Rightarrow> nat \<Rightarrow> nat option" where
  "skip_loop src ps =
     (if ps < length src then if src ! ps \<noteq> 0 then skip_loop src (Suc ps) else Some (Suc ps)
      else None)"
  by pat_completeness auto
termination
  by (relation "measure (\<lambda>(src, ps). length src - ps)") auto

declare skip_loop.simps [simp del]

definition mystrlcat :: "byte list \<Rightarrow> byte list \<Rightarrow> nat \<Rightarrow> (byte list \<times> nat) option" where
  "mystrlcat dst src sz =
     (case scan_end dst 0 sz of
        None \<Rightarrow> None
      | Some (pd, lest) \<Rightarrow>
          (let dlen = pd in
           if sz - dlen = 0 then map_option (\<lambda>n. (dst, dlen + n)) (strlen_c src)
           else
             (let pde = sz - 1 in
              case copy_loop dst src pd 0 pde of
                None \<Rightarrow> None
              | Some (dst1, pd1, ps) \<Rightarrow>
                  (case zero_loop dst1 pd1 pde of
                     None \<Rightarrow> None
                   | Some dst2 \<Rightarrow>
                       map_option (\<lambda>ps'. (dst2, dlen + (ps' - 1))) (skip_loop src ps)))))"

subsection \<open>What each loop computes\<close>

lemma scan_end_split:
  "0 \<notin> set ys \<Longrightarrow> scan_end (xs @ ys @ 0 # zs) (length xs) (length ys + n) =
     Some (length xs + length ys, n)"
proof (induction ys arbitrary: xs)
  case Nil
  then show ?case by (simp add: scan_end.simps)
next
  case (Cons y ys)
  from Cons.IH [of "xs @ [y]"] Cons.prems show ?case
    by (subst scan_end.simps) (simp add: nth_append)
qed

lemma scan_end_full:
  "0 \<notin> set ys \<Longrightarrow> scan_end (xs @ ys @ z # zs) (length xs) (length ys) =
     Some (length xs + length ys, 0)"
proof (induction ys arbitrary: xs)
  case Nil
  then show ?case by (simp add: scan_end.simps)
next
  case (Cons y ys)
  from Cons.IH [of "xs @ [y]"] Cons.prems show ?case
    by (subst scan_end.simps) (simp add: nth_append)
qed

lemma scan_end_off: "0 \<notin> set ys \<Longrightarrow> scan_end (xs @ ys) (length xs) (length ys + n) = None"
proof (induction ys arbitrary: xs)
  case Nil
  then show ?case by (simp add: scan_end.simps)
next
  case (Cons y ys)
  from Cons.IH [of "xs @ [y]"] Cons.prems show ?case
    by (subst scan_end.simps) (simp add: nth_append)
qed

lemma update_length_append: "(xs @ y # ys)[length xs := z] = xs @ z # ys"
  by simp

text \<open>Copying stops at the NUL of the source or at the last cell of the destination.\<close>

lemma copy_loop_split:
  assumes "0 \<notin> set ys" and "length ds = k"
  shows "copy_loop (xs @ ds @ zs) (ps @ ys @ 0 # rest) (length xs) (length ps) (length xs + k) =
     Some (xs @ take k ys @ drop (length ys) ds @ zs,
           length xs + min k (length ys), length ps + min k (length ys))"
  using assms
proof (induction k arbitrary: xs ds ps ys)
  case 0
  then show ?case by (subst copy_loop.simps) simp
next
  case (Suc k)
  then obtain d ds' where ds: "ds = d # ds'" "length ds' = k"
    by (cases ds) auto
  show ?case
  proof (cases ys)
    case Nil
    then show ?thesis by (subst copy_loop.simps) (simp add: nth_append)
  next
    case (Cons y ys')
    have "copy_loop ((xs @ [y]) @ ds' @ zs) ((ps @ [y]) @ ys' @ 0 # rest)
        (length (xs @ [y])) (length (ps @ [y])) (length (xs @ [y]) + k) =
      Some ((xs @ [y]) @ take k ys' @ drop (length ys') ds' @ zs,
        length (xs @ [y]) + min k (length ys'), length (ps @ [y]) + min k (length ys'))"
      using Suc.IH [of ys' ds' "xs @ [y]" "ps @ [y]"] Suc.prems Cons ds(2) by simp
    with Suc.prems Cons ds(1) show ?thesis
      by (subst copy_loop.simps) (simp add: nth_append)
  qed
qed

lemma zero_loop_split:
  "length ds = Suc k \<Longrightarrow>
   zero_loop (xs @ ds @ zs) (length xs) (length xs + k) = Some (xs @ replicate (Suc k) 0 @ zs)"
proof (induction k arbitrary: xs ds)
  case 0
  then obtain d where "ds = [d]" by (cases ds) auto
  then show ?case by (simp add: zero_loop.simps)
next
  case (Suc k)
  then obtain d ds' where ds: "ds = d # ds'" "length ds' = Suc k"
    by (cases ds) auto
  from Suc.IH [OF ds(2), of "xs @ [0]"] ds(1) show ?case
    by (subst zero_loop.simps) simp
qed

lemma skip_loop_split:
  "0 \<notin> set ys \<Longrightarrow> skip_loop (ps @ ys @ 0 # rest) (length ps) = Some (Suc (length ps + length ys))"
proof (induction ys arbitrary: ps)
  case Nil
  then show ?case by (simp add: skip_loop.simps)
next
  case (Cons y ys)
  from Cons.IH [of "ps @ [y]"] Cons.prems show ?case
    by (subst skip_loop.simps) (simp add: nth_append)
qed

subsection \<open>The function\<close>

text \<open>
  The exact result on a terminated destination: the string grows by as much of the
  source as leaves room for a NUL, the rest of the first \<open>sz\<close> bytes is zeroed, the
  bytes beyond are untouched, and the return value is the length an unbounded
  concatenation would have.
\<close>

lemma mystrlcat_exact:
  assumes dst: "terminated dst" and room: "length (cstr dst) < sz" "sz \<le> length dst"
    and src: "terminated src"
  shows "mystrlcat dst src sz =
    Some (cstr dst @ take (sz - 1 - length (cstr dst)) (cstr src)
            @ replicate (sz - length (cstr dst)
                - min (sz - 1 - length (cstr dst)) (length (cstr src))) 0
            @ drop sz dst,
          length (cstr dst) + length (cstr src))"
proof -
  define d where "d = length (cstr dst)"
  define k where "k = sz - 1 - d"
  define s where "s = cstr src"
  obtain ys where ys: "dst = cstr dst @ 0 # ys" using dst by (rule terminated_split)
  obtain zs where zs: "src = s @ 0 # zs" using src unfolding s_def by (rule terminated_split)
  have szeq: "sz = d + Suc k" using room(1) by (simp add: d_def k_def)
  define ds where "ds = take (Suc k) (0 # ys)"
  define tl' where "tl' = drop (Suc k) (0 # ys)"
  have len: "length (0 # ys) = length dst - d" by (subst ys) (simp add: d_def)
  have dslen: "length ds = Suc k" using len room(2) szeq by (simp add: ds_def)
  have split: "dst = cstr dst @ ds @ tl'" using ys by (simp add: ds_def tl'_def)
  have tl: "tl' = drop sz dst" by (subst split) (simp add: szeq dslen d_def)
  have s0: "0 \<notin> set s" by (simp add: s_def)
  have scan: "scan_end dst 0 sz = Some (d, Suc k)"
    using scan_end_split [of "cstr dst" "[]" ys "Suc k"] ys szeq by (simp add: d_def)
  obtain ds1 d1 where ds1: "ds = ds1 @ [d1]" "length ds1 = k"
    using dslen by (cases ds rule: rev_cases) auto
  have copy: "copy_loop dst src d 0 (sz - 1) =
      Some (cstr dst @ take k s @ drop (length s) ds1 @ d1 # tl', d + min k (length s), min k (length s))"
    using copy_loop_split [OF s0 ds1(2), of "cstr dst" "d1 # tl'" "[]" zs] split ds1 zs szeq
    by (simp add: d_def)
  define m where "m = min k (length s)"
  have rest_len: "length (drop (length s) ds1 @ [d1]) = Suc (k - m)"
    using ds1(2) by (simp add: m_def)
  have pref_len: "length (cstr dst @ take k s) = d + m" by (simp add: d_def m_def)
  have "zero_loop ((cstr dst @ take k s) @ (drop (length s) ds1 @ [d1]) @ tl') (d + m) (d + m + (k - m)) =
      Some ((cstr dst @ take k s) @ replicate (Suc (k - m)) 0 @ tl')"
    using zero_loop_split [OF rest_len, of "cstr dst @ take k s" tl'] unfolding pref_len .
  moreover have "d + m + (k - m) = sz - 1" using szeq by (simp add: m_def)
  ultimately have zero: "zero_loop (cstr dst @ take k s @ drop (length s) ds1 @ d1 # tl') (d + m) (sz - 1) =
      Some (cstr dst @ take k s @ replicate (Suc (k - m)) 0 @ tl')" by simp
  have skip: "skip_loop src m = Some (Suc (length s))"
  proof -
    have m: "m \<le> length s" by (simp add: m_def)
    have "0 \<notin> set (drop m s)" using s0 by (meson in_set_dropD)
    moreover have "take m s @ drop m s @ 0 # zs = src" using zs by (simp flip: append_assoc)
    ultimately show ?thesis using skip_loop_split [of "drop m s" "take m s" zs] m by simp
  qed
  have "mystrlcat dst src sz =
      Some (cstr dst @ take k s @ replicate (Suc (k - m)) 0 @ tl', d + length s)"
    using scan copy zero skip szeq by (simp add: mystrlcat_def m_def)
  moreover have "Suc (k - m) = sz - d - m" using szeq by (simp add: m_def)
  ultimately show ?thesis
    by (simp only: d_def [symmetric] s_def [symmetric] k_def [symmetric] m_def [symmetric]
        tl [symmetric])
qed

text \<open>
  No NUL among the first \<open>sz\<close> bytes: the array is left alone, but the scan has read
  the byte behind them; when \<open>sz\<close> is the whole array there is no such byte.
\<close>

lemma mystrlcat_full:
  assumes "0 \<notin> set (take sz dst)" and "sz < length dst" and "terminated src"
  shows "mystrlcat dst src sz = Some (dst, sz + length (cstr src))"
proof -
  have "dst = [] @ take sz dst @ dst ! sz # drop (Suc sz) dst"
    using assms(2) by (simp add: id_take_nth_drop)
  then have "scan_end dst 0 sz = Some (sz, 0)"
    using scan_end_full [OF assms(1), of "[]" "dst ! sz" "drop (Suc sz) dst"] assms(2) by simp
  with assms(3) show ?thesis by (simp add: mystrlcat_def strlen_c_eq)
qed

lemma mystrlcat_off_end: "\<not> terminated dst \<Longrightarrow> mystrlcat dst src (length dst) = None"
  using scan_end_off [of dst "[]" 0] by (simp add: mystrlcat_def terminated_def)

subsection \<open>The contract of a bounded concatenation\<close>

locale bounded_cat =
  fixes cat :: "byte list \<Rightarrow> byte list \<Rightarrow> nat \<Rightarrow> (byte list \<times> nat) option"
  assumes cat_defined: "terminated dst \<Longrightarrow> length (cstr dst) < sz \<Longrightarrow> sz \<le> length dst \<Longrightarrow>
      terminated src \<Longrightarrow> \<exists>dst' n. cat dst src sz = Some (dst', n)"
    and cat_result: "terminated dst \<Longrightarrow> length (cstr dst) < sz \<Longrightarrow> sz \<le> length dst \<Longrightarrow>
      terminated src \<Longrightarrow> cat dst src sz = Some (dst', n) \<Longrightarrow>
      length dst' = length dst \<and> terminated dst' \<and>
      cstr dst' = take (sz - 1) (cstr dst @ cstr src) \<and>
      drop sz dst' = drop sz dst \<and> n = length (cstr dst) + length (cstr src)"
begin

text \<open>What a handler does with it: append a literal over the whole array, then take the length.\<close>

lemma cat_whole:
  assumes "terminated b" and "terminated lit"
  obtains b' n where "cat b lit (length b) = Some (b', n)" and "length b' = length b"
    and "terminated b'" and "cstr b' = take (length b - 1) (cstr b @ cstr lit)"
    and "strlen_c b' = Some (min (length b - 1) (length (cstr b) + length (cstr lit)))"
proof -
  have room: "length (cstr b) < length b" using assms(1) by (rule length_cstr_less)
  obtain b' n where r: "cat b lit (length b) = Some (b', n)"
    using cat_defined [OF assms(1) room le_refl assms(2)] by blast
  note c = cat_result [OF assms(1) room le_refl assms(2) r]
  then have t: "terminated b'" and v: "cstr b' = take (length b - 1) (cstr b @ cstr lit)"
    by blast+
  have "strlen_c b' = Some (min (length b - 1) (length (cstr b) + length (cstr lit)))"
    using t by (simp add: strlen_c_eq v min.commute del: take_append)
  with r c show ?thesis by (intro that) blast+
qed

text \<open>The caller can tell truncation from the return value, as with \<^verbatim>\<open>strlcat\<close>.\<close>

lemma cat_truncated_iff:
  assumes "terminated dst" and "length (cstr dst) < sz" and "sz \<le> length dst"
    and "terminated src" and "cat dst src sz = Some (dst', n)"
  shows "sz \<le> n \<longleftrightarrow> cstr dst' \<noteq> cstr dst @ cstr src"
proof -
  from cat_result [OF assms]
  have r: "cstr dst' = take (sz - 1) (cstr dst @ cstr src)"
    and n: "n = length (cstr dst @ cstr src)" by auto
  show ?thesis
  proof (cases "sz \<le> n")
    case True
    then have "length (cstr dst') < n" using r n assms(2) by simp
    with True n show ?thesis by auto
  next
    case False
    with r n show ?thesis by simp
  qed
qed

end

interpretation strlcat: bounded_cat mystrlcat
proof unfold_locales
  fix dst src :: "byte list" and sz n :: nat and dst'
  assume h: "terminated dst" "length (cstr dst) < sz" "sz \<le> length dst" "terminated src"
  let ?d = "length (cstr dst)"
  let ?k = "sz - 1 - ?d"
  let ?s = "take ?k (cstr src)"
  let ?z = "sz - ?d - min ?k (length (cstr src))"
  let ?r = "cstr dst @ ?s @ replicate ?z 0 @ drop sz dst"
  note ex = mystrlcat_exact [OF h]
  show "\<exists>dst' n. mystrlcat dst src sz = Some (dst', n)" using ex by blast
  assume "mystrlcat dst src sz = Some (dst', n)"
  with ex have r: "dst' = ?r" and n: "n = ?d + length (cstr src)" by auto
  obtain z where z: "?z = Suc z" using h(2) by (cases ?z) auto
  have s0: "0 \<notin> set ?s" by (meson cstr_no_nul in_set_takeD)
  have "0 \<notin> set (cstr dst @ ?s)" using s0 by simp
  then have c: "cstr dst' = cstr dst @ ?s"
    unfolding r z using cstr_terminated_append [of "cstr dst @ ?s" "replicate z 0 @ drop sz dst"]
    by simp
  have pre: "length (cstr dst @ ?s @ replicate ?z 0) = sz" using h(2) by simp
  have "dst' = (cstr dst @ ?s @ replicate ?z 0) @ drop sz dst" by (simp add: r)
  then have "length dst' = sz + length (drop sz dst)" by (simp only: length_append [of _ "drop sz dst"] pre)
  then have "length dst' = length dst" using h(3) by simp
  moreover have "terminated dst'" unfolding r z by simp
  moreover have "drop sz dst' = drop sz dst"
    unfolding r using pre by (metis append.assoc append_eq_conv_conj)
  moreover have "cstr dst' = take (sz - 1) (cstr dst @ cstr src)"
    unfolding c using h(2) by simp
  ultimately show "length dst' = length dst \<and> terminated dst' \<and>
      cstr dst' = take (sz - 1) (cstr dst @ cstr src) \<and>
      drop sz dst' = drop sz dst \<and> n = length (cstr dst) + length (cstr src)"
    using n by blast
qed

end
