(* ===== verification/Line_Buffer.thy ===== *)
theory Line_Buffer
  imports CProg Mystrlcat
begin

text \<open>
  The part every message handler has in common: the received bytes in a fixed array are
  turned into a C string and cut at the first carriage return or line feed, and later
  \<^verbatim>\<open>mystrlcat\<close> appends the acknowledgement.
\<close>

definition chomp :: "byte list \<Rightarrow> nat \<Rightarrow> byte list option" where
  "chomp buf len =
     (if len < length buf
      then let b = buf[len := 0] in
           (case strpbrk_c b [CR, LF] of
              None \<Rightarrow> None
            | Some None \<Rightarrow> Some b
            | Some (Some i) \<Rightarrow> Some (b[i := 0]))
      else None)"

text \<open>The bytes in front of the first NUL, CR or LF.\<close>

definition line_of :: "byte list \<Rightarrow> byte list" where
  "line_of xs = takeWhile (\<lambda>x. x \<noteq> 0 \<and> x \<noteq> CR \<and> x \<noteq> LF) xs"

lemma line_of_cstr: "takeWhile (\<lambda>x. x \<notin> {CR, LF}) (cstr xs) = line_of xs"
  by (induction xs) (auto simp: line_of_def)

lemma cstr_overlay_nul:
  "length xs < length b \<Longrightarrow> cstr ((overlay b xs)[length xs := 0]) = cstr xs"
  by (simp add: overlay_def list_update_append cstr_append Cons_nth_drop_Suc [symmetric] cstr_id)

lemma chomp_full [simp]: "length buf \<le> len \<Longrightarrow> chomp buf len = None"
  by (simp add: chomp_def)

lemma chomp_overlay:
  assumes "length xs < length b"
  obtains b' where "chomp (overlay b xs) (length xs) = Some b'" and "length b' = length b"
    and "terminated b'" and "cstr b' = line_of xs"
proof -
  define c where "c = (overlay b xs)[length xs := 0]"
  have len: "length c = length b" using assms by (simp add: c_def)
  have t: "terminated c" using assms by (simp add: c_def)
  have cs: "cstr c = cstr xs" unfolding c_def using assms by (rule cstr_overlay_nul)
  show ?thesis
  proof (cases "strpbrk_c c [CR, LF]")
    case None
    with strpbrk_c_total [OF t] show ?thesis by blast
  next
    case (Some hit)
    show ?thesis
    proof (cases hit)
      case None
      with Some strpbrk_c_None [OF t] have "\<forall>x \<in> set (cstr c). x \<notin> {CR, LF}" by simp
      then have "cstr c = line_of xs" using line_of_cstr [of xs] takeWhile_all cs by metis
      moreover have "chomp (overlay b xs) (length xs) = Some c"
        using Some None assms by (simp add: chomp_def c_def [symmetric])
      ultimately show ?thesis using that len t by blast
    next
      case hit: (Some i)
      with Some strpbrk_c_Some [of c "[CR, LF]" i]
      have i: "i < length c" "cstr (c[i := 0]) = takeWhile (\<lambda>x. x \<notin> {CR, LF}) (cstr c)" by simp_all
      then have "cstr (c[i := 0]) = line_of xs" by (simp add: cs line_of_cstr del: insert_iff)
      moreover have "chomp (overlay b xs) (length xs) = Some (c[i := 0])"
        using Some hit assms by (simp add: chomp_def c_def [symmetric])
      ultimately show ?thesis using that [of "c[i := 0]"] len i(1) by simp
    qed
  qed
qed

text \<open>The acknowledgement a handler appends, with its NUL, and what the array holds then.\<close>

definition ok_suffix :: "byte list" where
  "ok_suffix = bytes '':OK'' @ [CR, LF]"

lemma ok_suffix_nz [simp]: "0 \<notin> set ok_suffix"
  by (simp add: ok_suffix_def bytes_def)

lemma ok_suffix_length [simp]: "length ok_suffix = 5"
  by (simp add: ok_suffix_def bytes_def)

definition acknowledged :: "byte list \<Rightarrow> nat \<Rightarrow> byte list" where
  "acknowledged line sz = take (sz - 1) (line @ ok_suffix)"

text \<open>
  \<^verbatim>\<open>mystrlcat(buf, ":OK\r\n", sizeof(buf)); len = strlen(buf);\<close> and the \<open>len\<close> bytes of
  \<open>buf\<close> that are sent next.
\<close>

definition acknowledge :: "byte list \<Rightarrow> byte list option" where
  "acknowledge buf =
     (case mystrlcat buf (ok_suffix @ [0]) (length buf) of
        None \<Rightarrow> None
      | Some (b, _) \<Rightarrow> map_option (\<lambda>len. take len b) (strlen_c b))"

lemma acknowledge_eq:
  assumes "terminated b"
  shows "acknowledge b = Some (acknowledged (cstr b) (length b))"
proof -
  have "terminated (ok_suffix @ [0])" by simp
  with assms obtain b' n where r: "mystrlcat b (ok_suffix @ [0]) (length b) = Some (b', n)"
    and l: "length b' = length b" and t: "terminated b'"
    and c: "cstr b' = take (length b - 1) (cstr b @ cstr (ok_suffix @ [0]))"
    by (rule strlcat.cat_whole)
  have a: "cstr b' = acknowledged (cstr b) (length b)"
    using c by (simp add: acknowledged_def cstr_append)
  have "strlen_c b' = Some (length (cstr b'))" using t by (simp add: strlen_c_eq)
  moreover have "take (length (cstr b')) b' = cstr b'"
    unfolding cstr_def by (rule takeWhile_eq_take [symmetric])
  ultimately show ?thesis using r a by (simp add: acknowledge_def)
qed

text \<open>The two steps as rules of the walk \<open>safe\<close>.\<close>

lemma safe_chomp:
  assumes "length xs < length b \<Longrightarrow> (\<And>b'. length b' = length b \<Longrightarrow> terminated b' \<Longrightarrow>
        cstr b' = line_of xs \<Longrightarrow> safe M (k b') h Q)"
    and "length b \<le> length xs \<Longrightarrow> Q (Undefined OutOfBounds) h"
  shows "safe M (need (chomp (overlay b xs) (length xs)) OutOfBounds k) h Q"
proof (cases "length xs < length b")
  case True
  then obtain b' where "chomp (overlay b xs) (length xs) = Some b'" "length b' = length b"
    "terminated b'" "cstr b' = line_of xs" by (rule chomp_overlay)
  with assms(1) [OF True] show ?thesis by simp
next
  case False
  then have "chomp (overlay b xs) (length xs) = None" by (simp add: overlay_def)
  with False assms(2) show ?thesis by simp
qed

lemma exec_chomp:
  assumes "exec (need (chomp (overlay b xs) (length xs)) OutOfBounds k) out t"
    and "length xs < length b"
  obtains b' where "length b' = length b" "terminated b'" "cstr b' = line_of xs" "exec (k b') out t"
  using assms(1) chomp_overlay [OF assms(2)] need_simps(2) by metis

lemma exec_chomp_full:
  "length b \<le> length xs \<Longrightarrow>
   exec (need (chomp (overlay b xs) (length xs)) OutOfBounds k) out t \<longleftrightarrow>
     out = Undefined OutOfBounds \<and> t = []"
  by (simp add: overlay_def)

end
