(* ===== verification/Sys_Calls.thy ===== *)
theory Sys_Calls
  imports CProg
begin

text \<open>
  The library and system calls the programs make, the responses they get, and a ledger
  of the resources a trace of calls leaves held.  libc, the kernel and libevent are not
  part of the repository: a call is a label, its effect is what the caller sees, and
  \<open>posix_ok\<close> states the documented ranges of the responses.
\<close>

subsection \<open>Values passed to and from calls\<close>

text \<open>Pointers: NULL, an address handed out by the library, or the address of a named object.\<close>

datatype ptr = Null | Heap nat | Local string

datatype family = AF_UNSPEC | AF_INET | AF_INET6
datatype socktype = SOCK_STREAM | SOCK_DGRAM
datatype sockopt =
    SO_REUSEADDR | IP_ADD_MEMBERSHIP | IP_MULTICAST_IF | IP_MULTICAST_TTL | IP_MULTICAST_LOOP
datatype evflag = EV_READ | EV_WRITE | EV_PERSIST | EV_SIGNAL
datatype stream = Stdout | Stderr
datatype signum = SIGHUP | SIGINT | SIGTERM | SIGCHLD | SIGTSTP | SIGTTOU | SIGTTIN | SIGUSR1 | SIGUSR2
datatype disposition = SIG_IGN | Handler string
datatype errno = EAGAIN | EINTR | EOTHER

text \<open>An argument of a formatted message.\<close>

datatype parg = PS "byte list" | PI int

text \<open>The value of a socket option.\<close>

datatype optval = OInt int | OChar byte | OBytes "byte list"

record addrinfo =
  ai_family :: family
  ai_socktype :: socktype
  ai_protocol :: int
  ai_addr :: "byte list"

text \<open>
  One response: the return value, the bytes written through an output pointer, a
  returned pointer, a returned address list, a returned peer address and \<^verbatim>\<open>errno\<close>.
\<close>

record resp =
  rv :: int
  rdat :: "byte list"
  rptr :: ptr
  rinfos :: "addrinfo list"
  raddr :: "byte list"
  rerr :: errno

definition resp0 :: resp where
  "resp0 = \<lparr>rv = 0, rdat = [], rptr = Null, rinfos = [], raddr = [], rerr = EOTHER\<rparr>"

abbreviation rint :: "int \<Rightarrow> resp" where "rint n \<equiv> resp0\<lparr>rv := n\<rparr>"
abbreviation rbytes :: "byte list \<Rightarrow> resp" where
  "rbytes bs \<equiv> resp0\<lparr>rv := int (length bs), rdat := bs\<rparr>"
abbreviation rpointer :: "ptr \<Rightarrow> resp" where "rpointer p \<equiv> resp0\<lparr>rptr := p\<rparr>"

subsection \<open>Calls\<close>

text \<open>What a bufferevent reports, and the largest number of descriptors of a set.\<close>

datatype bufevent = BEV_EVENT_EOF | BEV_EVENT_ERROR | BEV_EVENT_TIMEOUT | BEV_EVENT_CONNECTED

definition FD_SETSIZE :: int where
  "FD_SETSIZE = 1024"

text \<open>The last argument of a short option among the pairs \<^verbatim>\<open>getopt_long\<close> returned.\<close>

definition opt_arg :: "char \<Rightarrow> (char \<times> string) list \<Rightarrow> string option" where
  "opt_arg c args = map_of (rev args) c"

datatype netcall =
    Getaddrinfo "string option" string family socktype bool
  | Freeaddrinfo ptr
  | Getnameinfo "byte list"
  | Socket family socktype int
  | Setsockopt int sockopt optval
  | Inet_pton string
  | Inet_ntop family "byte list"
  | Bind int "byte list"
  | Listen int
  | Connect int "byte list"
  | Accept int
  | Close int
  | Recv int nat
  | Recvfrom int nat
  | Send int "byte list"
  | Sendto int "byte list" "byte list"
  | Set_nonblocking int

datatype evcall =
    Event_init
  | Event_base_new
  | Event_new ptr int "evflag list" string ptr
  | Event_set ptr int "evflag list" string ptr
  | Event_add ptr
  | Event_del ptr
  | Event_free ptr
  | Event_loopexit ptr
  | Event_dispatch ptr
  | Event_base_free ptr
  | Signal_set ptr signum string ptr
  | Signal_add ptr

datatype bevcall =
    Bufferevent_socket_new ptr int
  | Bufferevent_setcb ptr string string string ptr
  | Bufferevent_setwatermark ptr nat
  | Bufferevent_enable ptr "evflag list"
  | Bufferevent_free ptr
  | Bufferevent_read ptr nat
  | Bufferevent_write ptr "byte list"
  | Evbuffer_readln ptr
  | Evbuffer_add ptr "byte list"
  | Evbuffer_get_length ptr
  | Evbuffer_remove ptr nat

datatype iocall =
    Read int nat
  | Write int "byte list"
  | Open string
  | Dup2 int int
  | Popen "byte list"
  | Fgets ptr nat
  | Fgetc ptr
  | Pclose ptr
  | Fprintf stream string "parg list"
  | Perror string
  | Syslog string "parg list"
  | Setbuf string
  | Shm_open string bool   \<comment> \<open>whether it is created and writable\<close>
  | Ftruncate int nat
  | Fstat int
  | Mmap int nat bool
  | Shm_unlink string

datatype proccall =
    Malloc
  | Free ptr
  | Fork
  | Setsid
  | Signal signum disposition
  | Chdir string
  | Getcwd
  | Openlog string
  | Closelog
  | Strdup "byte list"

datatype call = Net netcall | Ev evcall | Bev bevcall | Io iocall | Proc proccall

type_synonym trace = "(call \<times> resp) list"
type_synonym 'a cprog = "(call, resp, 'a) prog"

abbreviation eprintf :: "string \<Rightarrow> parg list \<Rightarrow> 'a cprog \<Rightarrow> 'a cprog" where
  "eprintf f as p \<equiv> call (Io (Fprintf Stderr f as)) p"
abbreviation oprintf :: "string \<Rightarrow> parg list \<Rightarrow> 'a cprog \<Rightarrow> 'a cprog" where
  "oprintf f as p \<equiv> call (Io (Fprintf Stdout f as)) p"
abbreviation perror :: "string \<Rightarrow> 'a cprog \<Rightarrow> 'a cprog" where
  "perror s p \<equiv> call (Io (Perror s)) p"
abbreviation syslog :: "string \<Rightarrow> parg list \<Rightarrow> 'a cprog \<Rightarrow> 'a cprog" where
  "syslog s as p \<equiv> call (Io (Syslog s as)) p"
abbreviation close_fd :: "int \<Rightarrow> 'a cprog \<Rightarrow> 'a cprog" where
  "close_fd fd p \<equiv> call (Net (Close fd)) p"

subsection \<open>The resource ledger\<close>

text \<open>
  What a program can hold: an open descriptor, an address list, a heap block, what an
  event was set to (its descriptor, flags, callback and argument), a pending registration
  of an event, a bufferevent (which owns its descriptor), a pipe.
\<close>

datatype res =
    RFd int | RInfo ptr | RMem ptr | RSet ptr int "evflag list" string ptr | RReg ptr
  | RBev ptr | RPipe ptr

text \<open>The setting of one event; setting it again replaces it.\<close>

fun setting_of :: "res \<Rightarrow> ptr option" where
  "setting_of (RSet e fd fl cb a) = Some e"
| "setting_of _ = None"

definition settings :: "ptr \<Rightarrow> res set" where
  "settings e = {x. setting_of x = Some e}"

lemma in_settings [simp]: "x \<in> settings e \<longleftrightarrow> setting_of x = Some e"
  by (simp add: settings_def)

fun acq :: "call \<Rightarrow> resp \<Rightarrow> res set" where
  "acq (Net (Getaddrinfo h p f t b)) r = (if rv r = 0 then {RInfo (rptr r)} else {})"
| "acq (Net (Socket f t p)) r = (if rv r = -1 then {} else {RFd (rv r)})"
| "acq (Net (Accept s)) r = (if rv r < 0 then {} else {RFd (rv r)})"
| "acq (Io (Open p)) r = (if rv r < 0 then {} else {RFd (rv r)})"
| "acq (Io (Shm_open p b)) r = (if rv r = -1 then {} else {RFd (rv r)})"
| "acq (Io (Popen c)) r = (if rptr r = Null then {} else {RPipe (rptr r)})"
| "acq (Proc Malloc) r = (if rptr r = Null then {} else {RMem (rptr r)})"
| "acq (Proc (Strdup s)) r = (if rptr r = Null then {} else {RMem (rptr r)})"
| "acq (Ev (Event_set e fd fl cb a)) r = {RSet e fd fl cb a}"
| "acq (Ev (Event_new b fd fl cb a)) r =
     (if rptr r = Null then {} else {RMem (rptr r), RSet (rptr r) fd fl cb a})"
| "acq (Ev (Event_add e)) r = (if rv r = 0 then {RReg e} else {})"
| "acq (Bev (Bufferevent_socket_new b f)) r = (if rptr r = Null then {} else {RBev (rptr r)})"
| "acq (Bev (Evbuffer_readln b)) r = (if rptr r = Null then {} else {RMem (rptr r)})"
| "acq _ r = {}"

fun rel :: "call \<Rightarrow> resp \<Rightarrow> res set" where
  "rel (Net (Freeaddrinfo p)) r = {RInfo p}"
| "rel (Net (Close fd)) r = {RFd fd}"
| "rel (Io (Pclose p)) r = {RPipe p}"
| "rel (Proc (Free p)) r = insert (RMem p) (settings p)"
| "rel (Ev (Event_set e fd fl cb a)) r = settings e"
| "rel (Ev (Event_del e)) r = {RReg e}"
| "rel (Ev (Event_free e)) r = insert (RReg e) (insert (RMem e) (settings e))"
| "rel (Bev (Bufferevent_socket_new b f)) r = (if rptr r = Null then {} else {RFd f})"
| "rel (Bev (Bufferevent_free b)) r = {RBev b}"
| "rel _ r = {}"

text \<open>
  When a call is allowed: a descriptor must be open when it is used or closed, a heap
  event must be allocated when libevent is handed it and set before it is added, and a
  block is freed only while it is allocated and no registration points into it.
\<close>

definition live :: "res set \<Rightarrow> ptr \<Rightarrow> bool" where
  "live H p = (case p of Null \<Rightarrow> False | Heap n \<Rightarrow> RMem p \<in> H | Local x \<Rightarrow> True)"

fun permitted :: "res set \<Rightarrow> call \<Rightarrow> bool" where
  "permitted H (Net (Freeaddrinfo p)) = (RInfo p \<in> H)"
| "permitted H (Net (Setsockopt fd opt v)) = (RFd fd \<in> H)"
| "permitted H (Net (Bind fd a)) = (RFd fd \<in> H)"
| "permitted H (Net (Listen fd)) = (RFd fd \<in> H)"
| "permitted H (Net (Connect fd a)) = (RFd fd \<in> H)"
| "permitted H (Net (Accept fd)) = (RFd fd \<in> H)"
| "permitted H (Net (Close fd)) = (RFd fd \<in> H)"
| "permitted H (Net (Recv fd n)) = (RFd fd \<in> H)"
| "permitted H (Net (Recvfrom fd n)) = (RFd fd \<in> H)"
| "permitted H (Net (Send fd b)) = (RFd fd \<in> H)"
| "permitted H (Net (Sendto fd b a)) = (RFd fd \<in> H)"
| "permitted H (Ev (Event_set e fd fl cb a)) = live H e"
| "permitted H (Ev (Event_add e)) = (live H e \<and> (\<exists>fd fl cb a. RSet e fd fl cb a \<in> H))"
| "permitted H (Ev (Event_del e)) = live H e"
| "permitted H (Ev (Event_free e)) = (RMem e \<in> H)"
| "permitted H (Bev (Bufferevent_setcb b rd wr ev a)) = (RBev b \<in> H)"
| "permitted H (Bev (Bufferevent_setwatermark b n)) = (RBev b \<in> H)"
| "permitted H (Bev (Bufferevent_enable b fl)) = (RBev b \<in> H)"
| "permitted H (Bev (Bufferevent_free b)) = (RBev b \<in> H)"
| "permitted H (Bev (Bufferevent_read b n)) = (RBev b \<in> H)"
| "permitted H (Bev (Bufferevent_write b x)) = (RBev b \<in> H)"
| "permitted H (Io (Pclose p)) = (RPipe p \<in> H)"
| "permitted H (Io (Fgets p n)) = (RPipe p \<in> H)"
| "permitted H (Proc (Free p)) = (p = Null \<or> (RMem p \<in> H \<and> RReg p \<notin> H))"
| "permitted H _ = True"

definition after :: "res set \<Rightarrow> call \<Rightarrow> resp \<Rightarrow> res set" where
  [simp]: "after H c r = (H - rel c r) \<union> acq c r"

subsection \<open>Documented responses\<close>

text \<open>
  The ranges POSIX and libevent document for the responses: a transfer gives -1 or a count
  within the buffer, with that many bytes; a successful \<^verbatim>\<open>getaddrinfo\<close> gives a list with
  an entry; \<^verbatim>\<open>socket\<close> and \<^verbatim>\<open>accept\<close> give -1 or a descriptor; an
  allocation never gives the address of a named object.
\<close>

fun posix_ok :: "call \<Rightarrow> resp \<Rightarrow> bool" where
  "posix_ok (Net (Recv fd n)) r =
     (rv r = -1 \<or> (0 \<le> rv r \<and> nat (rv r) \<le> n \<and> length (rdat r) = nat (rv r)))"
| "posix_ok (Net (Recvfrom fd n)) r =
     (rv r = -1 \<or> (0 \<le> rv r \<and> nat (rv r) \<le> n \<and> length (rdat r) = nat (rv r)))"
| "posix_ok (Io (Read fd n)) r =
     (rv r = -1 \<or> (0 \<le> rv r \<and> nat (rv r) \<le> n \<and> length (rdat r) = nat (rv r)))"
| "posix_ok (Bev (Bufferevent_read b n)) r =
     (rv r = -1 \<or> (0 \<le> rv r \<and> nat (rv r) \<le> n \<and> length (rdat r) = nat (rv r)))"
| "posix_ok (Net (Send fd b)) r = (rv r = -1 \<or> (0 \<le> rv r \<and> nat (rv r) \<le> length b))"
| "posix_ok (Io (Write fd b)) r = (rv r = -1 \<or> (0 \<le> rv r \<and> nat (rv r) \<le> length b))"
| "posix_ok (Io (Fgets p n)) r = (rptr r = Null \<or> length (rdat r) < n)"
| "posix_ok (Net (Getaddrinfo h p f t b)) r = (rv r = 0 \<longrightarrow> rinfos r \<noteq> [] \<and> rptr r \<noteq> Null)"
| "posix_ok (Net (Socket f t p)) r = (-1 \<le> rv r)"
| "posix_ok (Net (Accept s)) r = (-1 \<le> rv r)"
| "posix_ok (Proc Malloc) r = (\<forall>x. rptr r \<noteq> Local x)"
| "posix_ok (Proc (Strdup s)) r = (\<forall>x. rptr r \<noteq> Local x)"
| "posix_ok (Ev (Event_new b fd fl cb a)) r = (\<forall>x. rptr r \<noteq> Local x)"
| "posix_ok (Bev (Evbuffer_readln b)) r = (\<forall>x. rptr r \<noteq> Local x)"
| "posix_ok _ r = True"

definition posix :: "trace \<Rightarrow> bool" where
  "posix t \<longleftrightarrow> (\<forall>(c, r) \<in> set t. posix_ok c r)"

lemma posix_Nil [simp]: "posix []"
  by (simp add: posix_def)

lemma posix_Cons [simp]: "posix ((c, r) # t) \<longleftrightarrow> posix_ok c r \<and> posix t"
  by (simp add: posix_def)

lemma posix_append [simp]: "posix (t1 @ t2) \<longleftrightarrow> posix t1 \<and> posix t2"
  by (auto simp: posix_def)

text \<open>
  The library never hands out a descriptor, block, list, pipe or bufferevent that is
  still held.  (A registration or a setting is not handed out: an
  event may be added or set twice.)
\<close>

definition handles :: "res set \<Rightarrow> res set" where
  "handles X = {x \<in> X. (\<forall>e. x \<noteq> RReg e) \<and> setting_of x = None}"

lemma handles_simps [simp]:
  "handles {} = {}" "handles {RFd a} = {RFd a}" "handles {RInfo p} = {RInfo p}"
  "handles {RMem p} = {RMem p}" "handles {RBev p} = {RBev p}" "handles {RPipe p} = {RPipe p}"
  "handles {RReg p} = {}" "handles {RSet e fd fl cb x} = {}"
  "handles {RMem p, RSet e fd fl cb x} = {RMem p}"
  by (auto simp: handles_def)

text \<open>
  The monitor of held resources: every call is permitted by what is held, the
  environment is documented and fresh.
\<close>

definition ledger :: "(res set, call, resp) monitor" where
  "ledger = \<lparr>m_ok = permitted,
             m_env = (\<lambda>H c r. posix_ok c r \<and> handles (acq c r) \<inter> H = {}),
             m_st = after\<rparr>"

lemma ledger_simps [simp]:
  "m_ok ledger = permitted"
  "m_env ledger H c r \<longleftrightarrow> posix_ok c r \<and> handles (acq c r) \<inter> H = {}"
  "m_st ledger = after"
  by (simp_all add: ledger_def)

abbreviation held :: "res set \<Rightarrow> trace \<Rightarrow> res set" where
  "held \<equiv> end_state ledger"
abbreviation disciplined :: "res set \<Rightarrow> trace \<Rightarrow> bool" where
  "disciplined \<equiv> allowed ledger"
abbreviation documented :: "res set \<Rightarrow> trace \<Rightarrow> bool" where
  "documented \<equiv> honest ledger"
abbreviation keeps :: "'a cprog \<Rightarrow> res set \<Rightarrow> ((call, 'a) outcome \<Rightarrow> res set \<Rightarrow> bool) \<Rightarrow> bool" where
  "keeps \<equiv> safe ledger"

lemma keeps_exec:
  assumes "keeps p H Q" and "exec p out t" and "documented H t"
  shows "disciplined H t \<and> Q out (held H t)"
  using safe_exec [OF assms(2,1,3)] by blast

lemma documented_posix: "documented H t \<Longrightarrow> posix t"
  by (induction t arbitrary: H) auto

lemma live_simps [simp]:
  "\<not> live H Null" "live H (Heap n) \<longleftrightarrow> RMem (Heap n) \<in> H" "live H (Local x)"
  by (simp_all add: live_def)

lemma live_RMem: "RMem p \<in> H \<Longrightarrow> p \<noteq> Null \<Longrightarrow> live H p"
  by (cases p) auto

text \<open>
  The same monitor when the environment also keeps to a further assumption \<open>adm\<close> about
  single responses, such as that allocations succeed.
\<close>

definition ledger_if :: "(call \<Rightarrow> resp \<Rightarrow> bool) \<Rightarrow> (res set, call, resp) monitor" where
  "ledger_if adm = ledger\<lparr>m_env := (\<lambda>H c r. m_env ledger H c r \<and> adm c r)\<rparr>"

lemma ledger_if_simps [simp]:
  "m_ok (ledger_if adm) = permitted"
  "m_env (ledger_if adm) H c r \<longleftrightarrow> posix_ok c r \<and> handles (acq c r) \<inter> H = {} \<and> adm c r"
  "m_st (ledger_if adm) = after"
  by (simp_all add: ledger_if_def)

abbreviation keeps_if ::
  "(call \<Rightarrow> resp \<Rightarrow> bool) \<Rightarrow> 'a cprog \<Rightarrow> res set \<Rightarrow> ((call, 'a) outcome \<Rightarrow> res set \<Rightarrow> bool) \<Rightarrow> bool" where
  "keeps_if adm \<equiv> safe (ledger_if adm)"

text \<open>Allocations succeed.\<close>

definition allocating :: "call \<Rightarrow> resp \<Rightarrow> bool" where
  "allocating c r \<longleftrightarrow>
     (case c of
        Proc Malloc \<Rightarrow> rptr r \<noteq> Null
      | Bev (Bufferevent_socket_new b fd) \<Rightarrow> rptr r \<noteq> Null
      | Ev (Event_new b fd fl cb a) \<Rightarrow> rptr r \<noteq> Null
      | _ \<Rightarrow> True)"

definition admitted :: "(call \<Rightarrow> resp \<Rightarrow> bool) \<Rightarrow> trace \<Rightarrow> bool" where
  "admitted adm t \<longleftrightarrow> (\<forall>(c, r) \<in> set t. adm c r)"

lemma admitted_simps [simp]:
  "admitted adm []" "admitted adm ((c, r) # t) \<longleftrightarrow> adm c r \<and> admitted adm t"
  "admitted (\<lambda>_ _. True) t"
  by (auto simp: admitted_def)

lemma ledger_if_folds:
  "end_state (ledger_if adm) H t = held H t"
  "allowed (ledger_if adm) H t = disciplined H t"
  "honest (ledger_if adm) H t \<longleftrightarrow> documented H t \<and> admitted adm t"
  by (induction t arbitrary: H) auto

lemma keeps_if_exec:
  assumes "keeps_if adm p H Q" and "exec p out t" and "documented H t" and "admitted adm t"
  shows "disciplined H t \<and> Q out (held H t)"
  using safe_exec [OF assms(2,1)] assms(3,4) by (simp add: ledger_if_folds)

lemma keeps_keeps_if: "keeps p H Q \<Longrightarrow> keeps_if adm p H Q"
  by (induction p arbitrary: H) auto

end
