(* ===== verification/Event_Loop.thy ===== *)
theory Event_Loop
  imports Sys_Calls
begin

text \<open>
  What \<^verbatim>\<open>event_dispatch\<close> does with the registrations a program made: it picks one that is
  pending, calls its callback with the descriptor and argument it was set to, and goes on
  with whatever the callback leaves; a registration without \<^verbatim>\<open>EV_PERSIST\<close> is gone before
  its callback runs.  libevent itself is not modelled: which event fires, in which order
  and with which responses is left open, so a fact about all reachable ledgers holds for
  every schedule and every peer.

  A callback table gives, for a callback name, descriptor and argument, the programs its
  body may be (one per content of its uninitialised buffers).
\<close>

type_synonym callbacks = "string \<Rightarrow> int \<Rightarrow> ptr \<Rightarrow> unit cprog set"

text \<open>The ledger a callback starts from.\<close>

definition fired :: "evflag list \<Rightarrow> ptr \<Rightarrow> res set \<Rightarrow> res set" where
  "fired fl e H = (if EV_PERSIST \<in> set fl then H else H - {RReg e})"

text \<open>
  \<open>turn\<close>: a registration of ledger \<open>H\<close> fires, its callback starts from \<open>G\<close>, makes the
  calls \<open>t\<close> with responses that \<open>adm\<close> admits, ends with \<open>out\<close> and leaves \<open>H'\<close>.
\<close>

inductive turn :: "callbacks \<Rightarrow> (call \<Rightarrow> resp \<Rightarrow> bool) \<Rightarrow> res set \<Rightarrow> res set \<Rightarrow> (call, unit) outcome \<Rightarrow> trace \<Rightarrow> res set \<Rightarrow> bool"
  for cbs :: callbacks and adm :: "call \<Rightarrow> resp \<Rightarrow> bool" where
  turnI: "RReg e \<in> H \<Longrightarrow> RSet e fd fl cb a \<in> H \<Longrightarrow> body \<in> cbs cb fd a \<Longrightarrow>
          G = fired fl e H \<Longrightarrow> exec body out t \<Longrightarrow> documented G t \<Longrightarrow> admitted adm t \<Longrightarrow>
          turn cbs adm H G out t (held G t)"

inductive_cases turnE: "turn cbs adm H G out t H'"

text \<open>The ledgers a loop started in \<open>H0\<close> can reach by callbacks that return.\<close>

inductive looping :: "callbacks \<Rightarrow> (call \<Rightarrow> resp \<Rightarrow> bool) \<Rightarrow> res set \<Rightarrow> res set \<Rightarrow> bool" for cbs adm H0 where
  loop_start: "looping cbs adm H0 H0"
| loop_turn: "looping cbs adm H0 H \<Longrightarrow> turn cbs adm H G (Value ()) t H' \<Longrightarrow> looping cbs adm H0 H'"

text \<open>
  The contract of a set of callbacks: an invariant of the ledger that every callback keeps
  from every pending registration, whatever it is told, without a forbidden call.
\<close>

locale event_loop =
  fixes cbs :: callbacks and adm :: "call \<Rightarrow> resp \<Rightarrow> bool" and Inv :: "res set \<Rightarrow> bool" and fine :: "(call, unit) outcome \<Rightarrow> bool"
  assumes callback_keeps:
    "Inv H \<Longrightarrow> RReg e \<in> H \<Longrightarrow> RSet e fd fl cb a \<in> H \<Longrightarrow> body \<in> cbs cb fd a \<Longrightarrow>
       keeps_if adm body (fired fl e H) (\<lambda>out H'. fine out \<and> (out = Value () \<longrightarrow> Inv H'))"
begin

lemma turn_good:
  assumes "turn cbs adm H G out t H'" and "Inv H"
  shows "disciplined G t \<and> fine out \<and> (out = Value () \<longrightarrow> Inv H')"
  using assms(1) by (rule turnE) (use callback_keeps keeps_if_exec assms(2) in blast)

lemma loop_invariant:
  assumes "looping cbs adm H0 H" and "Inv H0"
  shows "Inv H"
  using assms by (induction rule: looping.induct) (auto dest: turn_good)

text \<open>Every callback run of the loop is disciplined and ends well.\<close>

lemma loop_safe:
  assumes "looping cbs adm H0 H" and "Inv H0" and "turn cbs adm H G out t H'"
  shows "disciplined G t \<and> fine out"
  using turn_good [OF assms(3) loop_invariant [OF assms(1,2)]] by blast

end

subsection \<open>Well-formed ledgers of a server\<close>

text \<open>An event that is set and pending.\<close>

definition pending :: "res set \<Rightarrow> ptr \<Rightarrow> int \<Rightarrow> evflag list \<Rightarrow> string \<Rightarrow> ptr \<Rightarrow> bool" where
  "pending H e fd fl cb a \<longleftrightarrow> RReg e \<in> H \<and> RSet e fd fl cb a \<in> H"

text \<open>
  The bookkeeping every server keeps: an event has one setting, a heap event that is set or
  pending is allocated, a pending event has its descriptor open, and two pending events
  never share a descriptor.  \<open>K\<close> says what each pending event may be.
\<close>

definition tidy ::
  "(ptr \<Rightarrow> int \<Rightarrow> evflag list \<Rightarrow> string \<Rightarrow> ptr \<Rightarrow> bool) \<Rightarrow> res set \<Rightarrow> bool" where
  "tidy K H \<longleftrightarrow>
     (\<forall>e fd fl cb a fd' fl' cb' a'. RSet e fd fl cb a \<in> H \<longrightarrow> RSet e fd' fl' cb' a' \<in> H \<longrightarrow>
        fd = fd' \<and> fl = fl' \<and> cb = cb' \<and> a = a') \<and>
     (\<forall>n fd fl cb a. RSet (Heap n) fd fl cb a \<in> H \<longrightarrow> RMem (Heap n) \<in> H) \<and>
     (\<forall>n. RReg (Heap n) \<in> H \<longrightarrow> RMem (Heap n) \<in> H) \<and>
     (\<forall>e fd fl cb a. pending H e fd fl cb a \<longrightarrow> RFd fd \<in> H \<and> K e fd fl cb a) \<and>
     (\<forall>e fd fl cb a e' fl' cb' a'. pending H e fd fl cb a \<longrightarrow> pending H e' fd fl' cb' a' \<longrightarrow> e = e')"

lemma tidyD:
  assumes "tidy K H"
  shows "RSet e fd fl cb a \<in> H \<Longrightarrow> RSet e fd' fl' cb' a' \<in> H \<Longrightarrow>
          fd = fd' \<and> fl = fl' \<and> cb = cb' \<and> a = a'"
    and "RSet (Heap n) fd fl cb a \<in> H \<Longrightarrow> RMem (Heap n) \<in> H"
    and "RReg (Heap n) \<in> H \<Longrightarrow> RMem (Heap n) \<in> H"
    and "pending H e fd fl cb a \<Longrightarrow> RFd fd \<in> H \<and> K e fd fl cb a"
    and "pending H e fd fl cb a \<Longrightarrow> pending H e' fd fl' cb' a' \<Longrightarrow> e = e'"
proof -
  note d = assms [unfolded tidy_def]
  show "RSet e fd fl cb a \<in> H \<Longrightarrow> RSet e fd' fl' cb' a' \<in> H \<Longrightarrow>
          fd = fd' \<and> fl = fl' \<and> cb = cb' \<and> a = a'"
    using d [THEN conjunct1] by blast
  note d = d [THEN conjunct2]
  show "RSet (Heap n) fd fl cb a \<in> H \<Longrightarrow> RMem (Heap n) \<in> H"
    using d [THEN conjunct1] by blast
  note d = d [THEN conjunct2]
  show "RReg (Heap n) \<in> H \<Longrightarrow> RMem (Heap n) \<in> H"
    using d [THEN conjunct1] by blast
  note d = d [THEN conjunct2]
  show "pending H e fd fl cb a \<Longrightarrow> RFd fd \<in> H \<and> K e fd fl cb a"
    using d [THEN conjunct1] by blast
  show "pending H e fd fl cb a \<Longrightarrow> pending H e' fd fl' cb' a' \<Longrightarrow> e = e'"
    using d [THEN conjunct2] by blast
qed

lemma tidyI:
  assumes "\<And>e fd fl cb a fd' fl' cb' a'. RSet e fd fl cb a \<in> H \<Longrightarrow> RSet e fd' fl' cb' a' \<in> H \<Longrightarrow>
          fd = fd' \<and> fl = fl' \<and> cb = cb' \<and> a = a'"
    and "\<And>n fd fl cb a. RSet (Heap n) fd fl cb a \<in> H \<Longrightarrow> RMem (Heap n) \<in> H"
    and "\<And>n. RReg (Heap n) \<in> H \<Longrightarrow> RMem (Heap n) \<in> H"
    and "\<And>e fd fl cb a. pending H e fd fl cb a \<Longrightarrow> RFd fd \<in> H \<and> K e fd fl cb a"
    and "\<And>e fd fl cb a e' fl' cb' a'. pending H e fd fl cb a \<Longrightarrow> pending H e' fd fl' cb' a' \<Longrightarrow> e = e'"
  shows "tidy K H"
  unfolding tidy_def using assms by (intro conjI allI impI) meson+

lemma pending_simps [simp]:
  "pending (insert (RFd s) H) = pending H"
  "pending (insert (RMem p) H) = pending H"
  by (auto simp: pending_def fun_eq_iff)

text \<open>Opening a descriptor and allocating a block keep the ledger tidy.\<close>

lemma tidy_insert_fd: "tidy K H \<Longrightarrow> tidy K (insert (RFd s) H)"
  by (rule tidyI) (auto dest: tidyD(1-4) intro: tidyD(5))

lemma tidy_insert_mem: "tidy K H \<Longrightarrow> tidy K (insert (RMem p) H)"
  by (rule tidyI) (auto dest: tidyD(1-4) intro: tidyD(5))

text \<open>Dropping a heap event together with its descriptor does, too.\<close>

lemma tidy_drop:
  assumes t: "tidy K H" and p: "pending H e fd fl cb a"
  shows "tidy K (H - {RReg e} - insert (RMem e) (settings e) - {RFd fd})"
    (is "tidy K ?H")
proof (rule tidyI)
  fix e' fd' fl' cb' a' assume "pending ?H e' fd' fl' cb' a'"
  then have q: "pending H e' fd' fl' cb' a'" and ne: "e' \<noteq> e" by (auto simp: pending_def)
  from q p ne tidyD(5) [OF t] have "fd' \<noteq> fd" by blast
  with tidyD(4) [OF t q] show "RFd fd' \<in> ?H \<and> K e' fd' fl' cb' a'" by simp
next
  fix e1 e2 s fl1 cb1 a1 fl2 cb2 a2
  assume "pending ?H e1 s fl1 cb1 a1" "pending ?H e2 s fl2 cb2 a2"
  then have "pending H e1 s fl1 cb1 a1" "pending H e2 s fl2 cb2 a2" by (auto simp: pending_def)
  then show "e1 = e2" by (rule tidyD(5) [OF t])
qed (use tidyD(1-3) [OF t] in auto)

text \<open>A new heap event on a new descriptor.\<close>

lemma tidy_new_event:
  assumes t: "tidy K H" and s: "RFd s \<notin> H" and m: "RMem (Heap n) \<notin> H" and k: "K (Heap n) s fl cb a"
  shows "tidy K (insert (RReg (Heap n)) (insert (RSet (Heap n) s fl cb a)
           (insert (RMem (Heap n)) (insert (RFd s) H))))"
    (is "tidy K ?H")
proof -
  have unset: "RSet (Heap n) fd' fl' cb' a' \<notin> H" for fd' fl' cb' a'
    using tidyD(2) [OF t] m by blast
  have unreg: "RReg (Heap n) \<notin> H" using tidyD(3) [OF t] m by blast
  have pend: "pending ?H e' fd' fl' cb' a' \<longleftrightarrow>
      pending H e' fd' fl' cb' a' \<or> (e' = Heap n \<and> fd' = s \<and> fl' = fl \<and> cb' = cb \<and> a' = a)"
    for e' fd' fl' cb' a'
    using unset unreg by (auto simp: pending_def)
  show ?thesis
  proof (rule tidyI)
    fix e' fd' fl' cb' a' assume "pending ?H e' fd' fl' cb' a'"
    with pend tidyD(4) [OF t] k show "RFd fd' \<in> ?H \<and> K e' fd' fl' cb' a'" by auto
  next
    fix e1 e2 s' fl1 cb1 a1 fl2 cb2 a2
    assume "pending ?H e1 s' fl1 cb1 a1" "pending ?H e2 s' fl2 cb2 a2"
    with pend tidyD(4,5) [OF t] s show "e1 = e2" by metis
  qed (use unset tidyD(1-3) [OF t] in auto)
qed

text \<open>What is not allocated is neither set nor pending.\<close>

lemma tidy_unset: "tidy K H \<Longrightarrow> RMem (Heap n) \<notin> H \<Longrightarrow> x \<in> H \<Longrightarrow> setting_of x \<noteq> Some (Heap n)"
  using tidyD(2) [of K H n] by (cases x) auto

lemma tidy_settings_fresh:
  "tidy K H \<Longrightarrow> RMem (Heap n) \<notin> H \<Longrightarrow> H - settings (Heap n) = H"
  using tidy_unset by fastforce

text \<open>Setting an event just allocated, and taking setting and block back.\<close>

lemma tidy_set_fresh:
  assumes "tidy K G" and "RMem (Heap n) \<notin> G"
  shows "insert (RMem (Heap n)) G - settings (Heap n) = insert (RMem (Heap n)) G"
    and "insert (RMem (Heap n)) (insert (RSet (Heap n) s fl cb a) G) -
           insert (RMem (Heap n)) (settings (Heap n)) = G"
proof -
  note u = tidy_unset [OF assms]
  show "insert (RMem (Heap n)) G - settings (Heap n) = insert (RMem (Heap n)) G"
    using u by (intro set_eqI) (auto dest: u)
  show "insert (RMem (Heap n)) (insert (RSet (Heap n) s fl cb a) G) -
           insert (RMem (Heap n)) (settings (Heap n)) = G"
    using u assms(2) by (intro set_eqI) (auto dest: u)
qed

lemma tidy_reg_fresh: "tidy K H \<Longrightarrow> RMem (Heap n) \<notin> H \<Longrightarrow> RReg (Heap n) \<notin> H"
  using tidyD(3) [of K H n] by blast

end
