(* ===== verification/Echo_Server.thy ===== *)
theory Echo_Server
  imports Line_Buffer Event_Loop
begin

text \<open>
  The echo service of the daemon: \<^verbatim>\<open>recv_handler\<close> (\<^verbatim>\<open>src/daemon/src/recv_handler.c\<close>)
  answers one received buffer, \<^verbatim>\<open>accept_handler\<close> (\<^verbatim>\<open>src/daemon/src/accept_handler.c\<close>)
  registers a new connection.  A handler's \<^verbatim>\<open>char buf[512]\<close> starts with arbitrary
  contents, the first parameter of its model.
\<close>

subsection \<open>The handlers\<close>

text \<open>\<^verbatim>\<open>event_del(ev); free(ev); close(acc);\<close>\<close>

definition drop_client :: "ptr \<Rightarrow> int \<Rightarrow> 'a cprog \<Rightarrow> 'a cprog" where
  "drop_client ev acc k = call (Ev (Event_del ev)) (call (Proc (Free ev)) (close_fd acc k))"

definition recv_handler :: "byte list \<Rightarrow> int \<Rightarrow> evflag list \<Rightarrow> ptr \<Rightarrow> unit cprog" where
  "recv_handler buf acc event ev =
     (if EV_READ \<notin> set event then Ret () else
      Sys (Net (Recv acc 512)) (\<lambda>r.
      if rv r = -1 then syslog ''recv failed'' [] (drop_client ev acc (Ret ()))
      else if rv r = 0 then syslog ''recv:EOF'' [] (drop_client ev acc (Ret ()))
      else
        need (chomp (overlay buf (rdat r)) (nat (rv r))) OutOfBounds (\<lambda>buf.
        syslog ''[client]%s'' [PS (cstr buf)] (
        if streq buf (bytes ''shutdown'')
        then syslog ''shutdown tcpserver'' [] (drop_client ev acc
               (call (Ev (Event_loopexit Null)) (Ret ())))
        else
          need (acknowledge buf) OutOfBounds (\<lambda>reply.
          Sys (Net (Send acc reply)) (\<lambda>r.
          if rv r = -1 then syslog ''send failed'' [] (drop_client ev acc (Ret ()))
          else Ret ()))))))"

text \<open>The part after a successful \<^verbatim>\<open>accept\<close>, the same in \<^verbatim>\<open>accept_cmd\<close>.\<close>

definition add_client :: "string \<Rightarrow> int \<Rightarrow> unit cprog" where
  "add_client cb acc =
     Sys (Proc Malloc) (\<lambda>rm.
     if rptr rm = Null then perror ''malloc'' (Ret ())
     else
       call (Ev (Event_set (rptr rm) acc [EV_READ, EV_PERSIST] cb (rptr rm))) (
       Sys (Ev (Event_add (rptr rm))) (\<lambda>r.
       if rv r \<noteq> 0 then syslog ''event_add failed'' [] (call (Proc (Free (rptr rm))) (Ret ()))
       else Ret ())))"

definition accept_handler :: "int \<Rightarrow> evflag list \<Rightarrow> ptr \<Rightarrow> unit cprog" where
  "accept_handler soc event arg =
     (if EV_READ \<notin> set event then Ret () else
      Sys (Net (Accept soc)) (\<lambda>ra.
      if rv ra = -1 then syslog ''accept failed'' [] (Ret ())
      else
        Sys (Net (Getnameinfo (raddr ra))) (\<lambda>rn.
        syslog ''accept:%s:%s'' [PS (rdat rn)] (add_client ''recv_handler'' (rv ra)))))"

subsection \<open>One message\<close>

text \<open>What was sent in a trace, in order.\<close>

fun sent :: "trace \<Rightarrow> (int \<times> byte list) list" where
  "sent [] = []"
| "sent ((Net (Send fd bs), r) # t) = (fd, bs) # sent t"
| "sent (_ # t) = sent t"

text \<open>The reply a received buffer deserves: none for a shutdown request.\<close>

definition echo_reply :: "byte list \<Rightarrow> byte list option" where
  "echo_reply xs =
     (if line_of xs = bytes ''shutdown'' then None else Some (acknowledged (line_of xs) 512))"

text \<open>
  C1: what the echo service makes of one received buffer.  A full buffer of 512 bytes is
  undefined behaviour (the terminator is stored behind the array).  Otherwise it returns,
  having sent the first line followed by \<^verbatim>\<open>:OK\r\n\<close>, cut to 511 bytes; a shutdown request
  gets no reply and stops the loop, and nothing else does.
\<close>

theorem recv_handler_replies:
  assumes "length buf = 512" and "posix_ok (Net (Recv acc 512)) r" and "0 < rv r"
    and "exec (recv_handler buf acc [EV_READ] ev) out ((Net (Recv acc 512), r) # t)"
  shows "if rv r = 512 then out = Undefined OutOfBounds \<and> t = []
     else out = Value () \<and>
       sent t = (case echo_reply (rdat r) of None \<Rightarrow> [] | Some bs \<Rightarrow> [(acc, bs)]) \<and>
       (Ev (Event_loopexit Null) \<in> fst ` set t \<longleftrightarrow> echo_reply (rdat r) = None)"
proof -
  from assms(2,3) have n: "nat (rv r) = length (rdat r)" and le: "length (rdat r) \<le> 512" by auto
  show ?thesis
  proof (cases "rv r = 512")
    case True
    with n assms show ?thesis by (simp add: recv_handler_def exec_chomp_full)
  next
    case False
    with n le assms(1) have lt: "length (rdat r) < length buf" by linarith
    from assms(3,4) n obtain b where b: "length b = length buf" "terminated b" "cstr b = line_of (rdat r)"
      and x: "exec (syslog ''[client]%s'' [PS (cstr b)] (
          if streq b (bytes ''shutdown'')
          then syslog ''shutdown tcpserver'' [] (drop_client ev acc
                 (call (Ev (Event_loopexit Null)) (Ret ())))
          else need (acknowledge b) OutOfBounds (\<lambda>reply.
               Sys (Net (Send acc reply)) (\<lambda>r.
               if rv r = -1 then syslog ''send failed'' [] (drop_client ev acc (Ret ()))
               else Ret ())))) out t"
      by (auto simp: recv_handler_def elim!: exec_chomp [OF _ lt])
    from x False show ?thesis
      by (auto simp: acknowledge_eq b assms(1) streq_def echo_reply_def drop_client_def
          split: if_splits)
  qed
qed

subsection \<open>What a handler leaves\<close>

text \<open>The ledger after a connection was dropped, and after one was added.\<close>

definition dropped :: "ptr \<Rightarrow> int \<Rightarrow> res set \<Rightarrow> res set" where
  "dropped e fd H = H - {RReg e} - insert (RMem e) (settings e) - {RFd fd}"

definition connected :: "nat \<Rightarrow> int \<Rightarrow> string \<Rightarrow> res set \<Rightarrow> res set" where
  "connected n s cb G = insert (RReg (Heap n)) (insert (RSet (Heap n) s [EV_READ, EV_PERSIST] cb (Heap n))
     (insert (RMem (Heap n)) G))"

lemma drop_client_keeps:
  assumes "live H e" and "e = Heap n" and "RFd fd \<in> H" and "keeps k (dropped e fd H) Q"
  shows "keeps (drop_client e fd k) H Q"
  using assms by (simp add: drop_client_def dropped_def)

text \<open>
  \<^verbatim>\<open>recv_handler\<close> either keeps its connection as it was or drops all of it.
\<close>

lemma recv_handler_keeps:
  assumes "length buf = 512" and "RMem e \<in> H" and "e = Heap n" and "RFd acc \<in> H"
  shows "keeps (recv_handler buf acc event e) H (\<lambda>out H'.
     (out = Value () \<and> (H' = H \<or> H' = dropped e acc H)) \<or> (out = Undefined OutOfBounds \<and> H' = H))"
    (is "keeps _ H ?Q")
proof -
  have drop: "keeps (drop_client e acc (Ret ())) H ?Q"
    "keeps (drop_client e acc (call (Ev (Event_loopexit Null)) (Ret ()))) H ?Q"
    using assms by (auto intro!: drop_client_keeps)
  have message: "keeps (need (chomp (overlay buf xs) (length xs)) OutOfBounds (\<lambda>buf.
        syslog ''[client]%s'' [PS (cstr buf)] (
        if streq buf (bytes ''shutdown'')
        then syslog ''shutdown tcpserver'' [] (drop_client e acc
               (call (Ev (Event_loopexit Null)) (Ret ())))
        else
          need (acknowledge buf) OutOfBounds (\<lambda>reply.
          Sys (Net (Send acc reply)) (\<lambda>r.
          if rv r = -1 then syslog ''send failed'' [] (drop_client e acc (Ret ()))
          else Ret ()))))) H ?Q" for xs
    by (rule safe_chomp) (use assms drop in \<open>auto simp: acknowledge_eq\<close>)
  show ?thesis
    unfolding recv_handler_def using assms(4) drop message by auto
qed

lemma heap_pointer: "p \<noteq> Null \<Longrightarrow> \<forall>x. p \<noteq> Local x \<Longrightarrow> \<exists>n. p = Heap n"
  by (cases p) auto

lemma add_client_keeps:
  assumes t: "tidy K G"
  shows "keeps (add_client cb s) G (\<lambda>out H'. out = Value () \<and>
     (H' = G \<or> (\<exists>n. RMem (Heap n) \<notin> G \<and> H' = connected n s cb G)))"
proof -
  have conn: "insert (RSet (Heap n) s [EV_READ, EV_PERSIST] cb (Heap n)) (insert (RMem (Heap n))
       (insert (RReg (Heap n)) G)) = connected n s cb G" for n
    unfolding connected_def by blast
  have some: "keeps (call (Ev (Event_set p s [EV_READ, EV_PERSIST] cb p)) (
       Sys (Ev (Event_add p)) (\<lambda>r.
       if rv r \<noteq> 0 then syslog ''event_add failed'' [] (call (Proc (Free p)) (Ret ()))
       else Ret ()))) (insert (RMem p) G) (\<lambda>out H'. out = Value () \<and>
     (H' = G \<or> (\<exists>n. RMem (Heap n) \<notin> G \<and> H' = connected n s cb G)))"
    if "p = Heap n" "RMem p \<notin> G" for p n
    using that tidy_set_fresh [OF t] tidy_reg_fresh [OF t] by (auto simp add: conn)
  show ?thesis
    unfolding add_client_def by (auto simp del: safe_call intro: some dest!: heap_pointer) simp
qed

text \<open>The ledgers a listening callback may leave: nothing new, a leaked socket, a connection.\<close>

definition accepted :: "string \<Rightarrow> res set \<Rightarrow> res set \<Rightarrow> bool" where
  "accepted cb H H' \<longleftrightarrow>
     H' = H \<or> (\<exists>s. RFd s \<notin> H \<and> H' = insert (RFd s) H)
     \<or> (\<exists>s n. RFd s \<notin> H \<and> RMem (Heap n) \<notin> H \<and> H' = connected n s cb (insert (RFd s) H))"

lemma accept_handler_keeps:
  assumes "tidy K H" and "RFd soc \<in> H"
  shows "keeps (accept_handler soc event arg) H (\<lambda>out H'. out = Value () \<and> accepted ''recv_handler'' H H')"
  unfolding accept_handler_def accepted_def using assms
  by (auto intro!: safe_mono [OF add_client_keeps] tidy_insert_fd)

subsection \<open>The event loop\<close>

text \<open>The callbacks of the echo service, with any contents of the receive buffer.\<close>

definition echo_callbacks :: callbacks where
  "echo_callbacks cb fd a =
     (if cb = ''recv_handler'' then {recv_handler buf fd [EV_READ] a | buf. length buf = 512}
      else if cb = ''accept_handler'' then {accept_handler fd [EV_READ] a}
      else {})"

text \<open>What may be pending: a heap event for a connection, or the listening event.\<close>

definition echo_event :: "ptr \<Rightarrow> int \<Rightarrow> evflag list \<Rightarrow> string \<Rightarrow> ptr \<Rightarrow> bool" where
  "echo_event e fd fl cb a \<longleftrightarrow>
     EV_PERSIST \<in> set fl \<and> (cb = ''recv_handler'' \<longrightarrow> a = e \<and> (\<exists>n. e = Heap n))"

definition returned :: "(call, unit) outcome \<Rightarrow> bool" where
  "returned out \<longleftrightarrow> out = Value () \<or> out = Undefined OutOfBounds"

lemma tidy_dropped:
  "tidy K H \<Longrightarrow> pending H e fd fl cb a \<Longrightarrow> tidy K (dropped e fd H)"
  unfolding dropped_def by (rule tidy_drop)

lemma tidy_connected:
  assumes "tidy K H" and "RFd s \<notin> H" and "RMem (Heap n) \<notin> H"
    and "K (Heap n) s [EV_READ, EV_PERSIST] cb (Heap n)"
  shows "tidy K (connected n s cb (insert (RFd s) H))"
  unfolding connected_def by (rule tidy_new_event) (use assms in auto)

lemma tidy_accepted:
  assumes "tidy K H" and "accepted cb H H'"
    and "\<And>n c. K (Heap n) c [EV_READ, EV_PERSIST] cb (Heap n)"
  shows "tidy K H'"
  using assms tidy_connected [OF assms(1)] tidy_insert_fd [OF assms(1)] by (auto simp: accepted_def)

interpretation echo: event_loop echo_callbacks "\<lambda>_ _. True" "tidy echo_event" returned
proof unfold_locales
  fix H e fd fl cb a body
  assume t: "tidy echo_event H" and r: "RReg e \<in> H" and s: "RSet e fd fl cb a \<in> H"
    and b: "body \<in> echo_callbacks cb fd a"
  from r s have p: "pending H e fd fl cb a" by (simp add: pending_def)
  from tidyD(4) [OF t p] have fd: "RFd fd \<in> H" and k: "echo_event e fd fl cb a" by simp_all
  have f: "fired fl e H = H" using k by (simp add: fired_def echo_event_def)
  have "keeps body H
     (\<lambda>out H'. returned out \<and> (out = Value () \<longrightarrow> tidy echo_event H'))"
  proof (cases "cb = ''recv_handler''")
    case True
    with b k obtain buf n where "body = recv_handler buf fd [EV_READ] e" "length buf = 512" "e = Heap n"
      by (auto simp: echo_callbacks_def echo_event_def)
    moreover from this r tidyD(3) [OF t] have "RMem e \<in> H" by blast
    ultimately show ?thesis
      using t fd tidy_dropped [OF t p]
      by (auto intro!: safe_mono [OF recv_handler_keeps] simp: returned_def)
  next
    case False
    with b have "body = accept_handler fd [EV_READ] a"
      by (auto simp: echo_callbacks_def split: if_splits)
    moreover have "echo_event (Heap n) c [EV_READ, EV_PERSIST] ''recv_handler'' (Heap n)" for n c
      by (simp add: echo_event_def)
    ultimately show ?thesis
      using tidy_accepted [OF t]
      by (auto intro!: safe_mono [OF accept_handler_keeps [OF t fd]] simp: returned_def)
  qed
  then show "keeps_if (\<lambda>_ _. True) body (fired fl e H)
     (\<lambda>out H'. returned out \<and> (out = Value () \<longrightarrow> tidy echo_event H'))"
    unfolding f by (rule keeps_keeps_if)
qed

text \<open>Whether a trace received a full buffer, 512 bytes at once.\<close>

definition full_buffer :: "trace \<Rightarrow> bool" where
  "full_buffer t \<longleftrightarrow> (\<exists>fd r. (Net (Recv fd 512), r) \<in> set t \<and> rv r = 512)"

lemma full_buffer_simps [simp]:
  "\<not> full_buffer []"
  "full_buffer ((c, r) # t) \<longleftrightarrow> ((\<exists>fd. c = Net (Recv fd 512)) \<and> rv r = 512) \<or> full_buffer t"
  by (auto simp: full_buffer_def)

text \<open>The listening callback returns, and receives nothing.\<close>

lemma accept_handler_outcome:
  "exec (accept_handler soc event arg) out t \<Longrightarrow> out = Value () \<and> \<not> full_buffer t"
  by (auto simp: accept_handler_def add_client_def split: if_splits)

text \<open>A message is answered without a fault exactly when its buffer was not full.\<close>

lemma recv_handler_outcome:
  assumes "length buf = 512" and "exec (recv_handler buf acc [EV_READ] ev) out t" and "posix t"
  shows "out = (if full_buffer t then Undefined OutOfBounds else Value ())"
proof -
  from assms(2) obtain r t' where t: "t = (Net (Recv acc 512), r) # t'"
    by (auto simp: recv_handler_def)
  with assms(3) have ok: "posix_ok (Net (Recv acc 512)) r" by simp
  consider "rv r = -1 \<or> rv r = 0" | "rv r = 512" | "0 < rv r" "rv r < 512"
    using ok by fastforce
  then show ?thesis
  proof cases
    case 1
    then show ?thesis using assms(2) unfolding t
      by (auto simp: recv_handler_def drop_client_def split: if_splits)
  next
    case 2
    then show ?thesis using assms(1,2) ok unfolding t
      by (auto simp: recv_handler_def exec_chomp_full split: if_splits)
  next
    case 3
    then have n: "nat (rv r) = length (rdat r)" and lt: "length (rdat r) < length buf"
      using ok assms(1) by auto
    from 3 assms(2) n obtain b where "length b = length buf" "terminated b"
      and "exec (syslog ''[client]%s'' [PS (cstr b)] (
          if streq b (bytes ''shutdown'')
          then syslog ''shutdown tcpserver'' [] (drop_client ev acc
                 (call (Ev (Event_loopexit Null)) (Ret ())))
          else need (acknowledge b) OutOfBounds (\<lambda>reply.
               Sys (Net (Send acc reply)) (\<lambda>r.
               if rv r = -1 then syslog ''send failed'' [] (drop_client ev acc (Ret ()))
               else Ret ())))) out t'"
      unfolding t by (auto simp: recv_handler_def elim!: exec_chomp [OF _ lt])
    then show ?thesis using 3 assms(1) unfolding t
      by (auto simp: acknowledge_eq drop_client_def split: if_splits)
  qed
qed

lemma echo_turn_outcome:
  assumes "body \<in> echo_callbacks cb fd a" and "exec body out t" and "posix t"
  shows "out = (if full_buffer t then Undefined OutOfBounds else Value ())"
  using assms recv_handler_outcome accept_handler_outcome
  by (fastforce simp: echo_callbacks_def split: if_splits)

text \<open>
  C2: the echo service as a whole, from any tidy ledger such as the one with just its
  listening event: whatever the peers send, whichever events fire and whichever calls fail,
  every callback uses only open descriptors and allocated events, frees nothing twice and
  frees no event that is still registered; it ends in an access outside its buffer when it
  received a full buffer of 512 bytes, and returns in every other case.
\<close>

theorem echo_service_safe:
  assumes "tidy echo_event H0" and "looping echo_callbacks (\<lambda>_ _. True) H0 H"
    and "turn echo_callbacks (\<lambda>_ _. True) H G out t H'"
  shows "disciplined G t \<and> out = (if full_buffer t then Undefined OutOfBounds else Value ())"
proof -
  have "disciplined G t" using echo.loop_safe [OF assms(2,1,3)] by simp
  moreover from assms(3) have "out = (if full_buffer t then Undefined OutOfBounds else Value ())"
    by (auto elim!: turnE dest: echo_turn_outcome documented_posix)
  ultimately show ?thesis by simp
qed

subsection \<open>Witnesses\<close>

definition zeros :: "byte list" where
  "zeros = replicate 512 0"

definition hello :: resp where
  "hello = rbytes (bytes ''hi'' @ [LF])"

definition hello_run :: trace where
  "hello_run = [(Io (Syslog ''[client]%s'' [PS (bytes ''hi'')]), resp0),
     (Net (Send 5 (bytes ''hi:OK'' @ [CR, LF])), rint 7)]"

lemma hello_exec: "exec (recv_handler zeros 5 [EV_READ] (Heap 1)) (Value ())
    ((Net (Recv 5 512), hello) # hello_run)"
proof -
  have len: "length (bytes ''hi'' @ [LF]) < length zeros" by (simp add: zeros_def bytes_def)
  obtain b where c: "chomp (overlay zeros (bytes ''hi'' @ [LF])) (length (bytes ''hi'' @ [LF])) = Some b"
    and b: "length b = length zeros" "terminated b" "cstr b = line_of (bytes ''hi'' @ [LF])"
    by (rule chomp_overlay [OF len])
  have line: "line_of (bytes ''hi'' @ [LF]) = bytes ''hi''" by (simp add: line_of_def bytes_def)
  have ack: "acknowledge b = Some (bytes ''hi:OK'' @ [CR, LF])"
    using b line by (simp add: acknowledge_eq acknowledged_def ok_suffix_def bytes_def zeros_def)
  have c3: "chomp (overlay zeros [104, 105, LF]) 3 = Some b"
    using c by (simp add: bytes_def numeral_3_eq_3)
  show ?thesis
    using b(3) by (simp add: recv_handler_def ack c3 streq_def hello_run_def hello_def
        resp0_def bytes_def line_of_def)
qed

theorem recv_handler_replies_witness:
  "sent hello_run = [(5, bytes ''hi:OK'' @ [CR, LF])]"
proof -
  have "length zeros = 512" "posix_ok (Net (Recv 5 512)) hello" "0 < rv hello" "rv hello \<noteq> 512"
    by (simp_all add: zeros_def hello_def bytes_def)
  with recv_handler_replies [OF _ _ _ hello_exec]
  have "sent hello_run = (case echo_reply (rdat hello) of None \<Rightarrow> [] | Some bs \<Rightarrow> [(5, bs)])" by simp
  then show ?thesis
    by (simp add: echo_reply_def hello_def line_of_def acknowledged_def ok_suffix_def bytes_def)
qed

text \<open>A ledger with the listening event and one connection, whose peer says hello.\<close>

definition one_client :: "res set" where
  "one_client = {RFd 3, RSet (Local ''ev'') 3 [EV_READ, EV_PERSIST] ''accept_handler'' (Local ''ev''),
     RReg (Local ''ev''), RFd 5, RMem (Heap 1),
     RSet (Heap 1) 5 [EV_READ, EV_PERSIST] ''recv_handler'' (Heap 1), RReg (Heap 1)}"

lemma one_client_tidy: "tidy echo_event one_client"
  by (rule tidyI) (auto simp: one_client_def pending_def echo_event_def)

theorem echo_service_safe_witness:
  "disciplined one_client ((Net (Recv 5 512), hello) # hello_run)"
proof -
  have "turn echo_callbacks (\<lambda>_ _. True) one_client one_client (Value ()) ((Net (Recv 5 512), hello) # hello_run)
     (held one_client ((Net (Recv 5 512), hello) # hello_run))"
  proof (rule turnI [OF _ _ _ _ hello_exec])
    show "RReg (Heap 1) \<in> one_client"
      "RSet (Heap 1) 5 [EV_READ, EV_PERSIST] ''recv_handler'' (Heap 1) \<in> one_client"
      by (simp_all add: one_client_def)
    show "recv_handler zeros 5 [EV_READ] (Heap 1) \<in> echo_callbacks ''recv_handler'' 5 (Heap 1)"
      by (auto simp: echo_callbacks_def zeros_def)
    show "one_client = fired [EV_READ, EV_PERSIST] (Heap 1) one_client" by (simp add: fired_def)
    show "documented one_client ((Net (Recv 5 512), hello) # hello_run)"
      by (simp add: hello_run_def hello_def resp0_def bytes_def)
  qed simp
  from echo_service_safe [OF one_client_tidy loop_start this] show ?thesis by blast
qed

end
