(* ===== verification/Cmd_Server.thy ===== *)
theory Cmd_Server
  imports Echo_Server
begin

text \<open>
  The command service of the daemon (\<^verbatim>\<open>src/daemon/src/cmd_handler.c\<close>): the received line
  is run with \<^verbatim>\<open>popen\<close> and its output sent back in pieces of at most 127 bytes.  The
  relay loop runs until \<^verbatim>\<open>fgets\<close> gives NULL; it gets fuel, and \<open>relay_enough\<close> shows that
  fuel beyond the number of pieces always suffices.
\<close>

subsection \<open>The handlers\<close>

text \<open>The \<^verbatim>\<open>while(1)\<close> loop; \<open>line\<close> is the 256-byte array, \<open>k\<close> what follows the loop.\<close>

primrec relay :: "nat \<Rightarrow> byte list \<Rightarrow> ptr \<Rightarrow> int \<Rightarrow> ptr \<Rightarrow> unit cprog \<Rightarrow> unit cprog" where
  "relay 0 line pipe acc ev k = Spin"
| "relay (Suc n) line pipe acc ev k =
     Sys (Io (Fgets pipe 128)) (\<lambda>r.
     let line = (if rptr r = Null then line else overlay line (rdat r @ [0])) in
     syslog ''%s'' [PS (cstr line)] (
     if rptr r = Null then k
     else need (strlen_c line) OutOfBounds (\<lambda>len.
       Sys (Net (Send acc (take len line))) (\<lambda>rs.
       if rv rs = -1
       then syslog ''send failed'' [] (drop_client ev acc (relay n line pipe acc ev k))
       else relay n line pipe acc ev k))))"

definition receive_cmd :: "nat \<Rightarrow> byte list \<Rightarrow> int \<Rightarrow> evflag list \<Rightarrow> ptr \<Rightarrow> unit cprog" where
  "receive_cmd fuel buf acc event ev =
     (if EV_READ \<notin> set event then Ret () else
      Sys (Net (Recv acc 512)) (\<lambda>r.
      if rv r = -1 then syslog ''recv failed'' [] (drop_client ev acc (Ret ()))
      else if rv r = 0 then syslog ''recv:EOF'' [] (drop_client ev acc (Ret ()))
      else
        need (chomp (overlay buf (rdat r)) (nat (rv r))) OutOfBounds (\<lambda>buf.
        syslog ''[client]%s'' [PS (cstr buf)] (
        if streq buf (bytes ''shutdown'')
        then syslog ''shutdown tcpserver'' [] (drop_client ev acc
               (call (Ev (Event_loopexit Null)) (Ret ())))
        else
          syslog ''CMD request: %s'' [PS (cstr buf)] (
          Sys (Io (Popen (cstr buf))) (\<lambda>rp.
          let pipe = rptr rp;
              work = relay fuel (replicate 256 0) pipe acc ev
                       (call (Io (Pclose pipe)) (Ret ())) in
          if pipe = Null
          then syslog ''popen failed'' [] (drop_client ev acc
                 (call (Ev (Event_loopexit Null)) work))
          else work))))))"

definition accept_cmd :: "int \<Rightarrow> evflag list \<Rightarrow> ptr \<Rightarrow> unit cprog" where
  "accept_cmd soc event arg =
     (if EV_READ \<notin> set event then Ret () else
      Sys (Net (Accept soc)) (\<lambda>ra.
      if rv ra = -1 then syslog ''accept failed'' [] (Ret ())
      else
        Sys (Net (Getnameinfo (raddr ra))) (\<lambda>rn.
        syslog ''accept:%s:%s'' [PS (rdat rn)] (add_client ''receive_cmd'' (rv ra)))))"

subsection \<open>The relay loop\<close>

text \<open>The pieces \<^verbatim>\<open>fgets\<close> delivered in a trace, each as the C string it left in the array.\<close>

fun pieces :: "trace \<Rightarrow> byte list list" where
  "pieces [] = []"
| "pieces ((Io (Fgets p n), r) # t) = (if rptr r = Null then pieces t else cstr (rdat r) # pieces t)"
| "pieces (_ # t) = pieces t"

text \<open>Whether a send failed while output was still to come.\<close>

fun late_failure :: "trace \<Rightarrow> bool" where
  "late_failure [] = False"
| "late_failure ((Net (Send fd bs), r) # t) = ((rv r = -1 \<and> sent t \<noteq> []) \<or> late_failure t)"
| "late_failure (_ # t) = late_failure t"

lemma overlay_cstr: "length xs < length line \<Longrightarrow> cstr (overlay line (xs @ [0])) = cstr xs"
  by (simp add: overlay_def cstr_append cstr_id)

lemma overlay_terminated: "terminated (overlay line (xs @ [0]))"
  by (simp add: overlay_def)

lemma take_cstr: "take (length (cstr b)) b = cstr b"
  unfolding cstr_def by (rule takeWhile_eq_take [symmetric])

lemma relay_head: "exec (relay n line pipe acc ev k) out ((c, r) # t) \<Longrightarrow> c = Io (Fgets pipe 128)"
  by (cases n) auto

text \<open>
  Everything \<^verbatim>\<open>fgets\<close> delivers is sent, in order, whether or not a send fails.
\<close>

lemma relay_sends:
  assumes "exec (relay n line pipe acc ev (call (Io (Pclose pipe)) (Ret ()))) out t"
    and "posix t" and "length line = 256"
  shows "sent t = map (\<lambda>p. (acc, p)) (pieces t) \<and> (out = Value () \<or> out = Running)"
  using assms
proof (induction n arbitrary: line t)
  case (Suc n)
  have l: "length (overlay line (xs @ [0])) = 256" if "length xs < 128" for xs
    using that Suc.prems(3) by simp
  show ?case
    using Suc.prems Suc.IH [OF _ _ l]
    by (auto simp: overlay_cstr overlay_terminated strlen_c_eq take_cstr drop_client_def Let_def
        split: if_splits)
qed simp

text \<open>Fuel runs out only after that many pieces, so a command whose output ends is relayed whole.\<close>

lemma relay_enough:
  assumes "exec (relay n line pipe acc ev (call (Io (Pclose pipe)) (Ret ()))) Running t"
    and "posix t" and "length line = 256"
  shows "length (pieces t) = n"
  using assms
proof (induction n arbitrary: line t)
  case (Suc n)
  have l: "length (overlay line (xs @ [0])) = 256" if "length xs < 128" for xs
    using that Suc.prems(3) by simp
  show ?case
    using Suc.prems Suc.IH [OF _ _ l]
    by (auto simp: overlay_terminated strlen_c_eq drop_client_def Let_def split: if_splits)
qed simp

text \<open>With the connection closed, the loop is disciplined only if it has nothing to send.\<close>

lemma relay_closed:
  assumes "exec (relay n line pipe acc ev (call (Io (Pclose pipe)) (Ret ()))) out t"
    and "documented H t" and "RFd acc \<notin> H" and "RPipe pipe \<in> H"
  shows "disciplined H t \<longleftrightarrow> sent t = []"
proof (cases n)
  case (Suc m)
  with assms show ?thesis
    by (auto simp: Let_def overlay_terminated strlen_c_eq drop_client_def split: if_splits)
qed (use assms in simp)

lemma relay_disciplined:
  assumes "exec (relay n line pipe acc ev (call (Io (Pclose pipe)) (Ret ()))) out t"
    and "documented H t" and "RFd acc \<in> H" and "RPipe pipe \<in> H" and "RMem ev \<in> H"
    and "ev = Heap m" and "length line = 256"
  shows "disciplined H t \<longleftrightarrow> \<not> late_failure t"
  using assms
proof (induction n arbitrary: line t)
  case (Suc n)
  have l: "length (overlay line (xs @ [0])) = 256" if "length xs < 128" for xs
    using that Suc.prems(7) by simp
  have closed: "disciplined (dropped ev acc H) t' \<longleftrightarrow> sent t' = []"
    and quiet: "sent t' = [] \<Longrightarrow> \<not> late_failure t'"
    if "exec (relay n line' pipe acc ev (call (Io (Pclose pipe)) (Ret ()))) out t'"
      "documented (dropped ev acc H) t'" for line' t'
  proof -
    show "disciplined (dropped ev acc H) t' \<longleftrightarrow> sent t' = []"
      using relay_closed [OF that] Suc.prems(4) by (simp add: dropped_def)
    show "sent t' = [] \<Longrightarrow> \<not> late_failure t'"
      by (induction t' rule: late_failure.induct) auto
  qed
  show ?case
    using Suc.prems Suc.IH [OF _ _ Suc.prems(3-6) l] closed quiet
    by (auto simp: Let_def overlay_terminated strlen_c_eq drop_client_def dropped_def
        split: if_splits dest: relay_head)
qed simp

subsection \<open>Properties of the command handler\<close>

text \<open>The part of the handler after a short message that is not a shutdown request.\<close>

lemma receive_cmd_after:
  assumes "length buf = 512" and "posix_ok (Net (Recv acc 512)) r" and "0 < rv r" and "rv r < 512"
    and "line_of (rdat r) \<noteq> bytes ''shutdown''"
    and "exec (receive_cmd n buf acc [EV_READ] ev) out ((Net (Recv acc 512), r) # t)"
  obtains r1 r2 rp t' where
    "t = (Io (Syslog ''[client]%s'' [PS (line_of (rdat r))]), r1) #
         (Io (Syslog ''CMD request: %s'' [PS (line_of (rdat r))]), r2) #
         (Io (Popen (line_of (rdat r))), rp) # t'"
    and "exec (if rptr rp = Null
          then syslog ''popen failed'' [] (drop_client ev acc
                 (call (Ev (Event_loopexit Null))
                   (relay n (replicate 256 0) (rptr rp) acc ev (call (Io (Pclose (rptr rp))) (Ret ())))))
          else relay n (replicate 256 0) (rptr rp) acc ev (call (Io (Pclose (rptr rp))) (Ret ()))) out t'"
proof -
  from assms(2-4) have len: "nat (rv r) = length (rdat r)" and lt: "length (rdat r) < length buf"
    using assms(1) by auto
  from assms(3,6) len obtain b where "cstr b = line_of (rdat r)" and
    x: "exec (syslog ''[client]%s'' [PS (cstr b)] (
        if streq b (bytes ''shutdown'')
        then syslog ''shutdown tcpserver'' [] (drop_client ev acc
               (call (Ev (Event_loopexit Null)) (Ret ())))
        else
          syslog ''CMD request: %s'' [PS (cstr b)] (
          Sys (Io (Popen (cstr b))) (\<lambda>rp.
          let pipe = rptr rp;
              work = relay n (replicate 256 0) pipe acc ev
                       (call (Io (Pclose pipe)) (Ret ())) in
          if pipe = Null
          then syslog ''popen failed'' [] (drop_client ev acc
                 (call (Ev (Event_loopexit Null)) work))
          else work)))) out t"
    by (auto simp: receive_cmd_def elim!: exec_chomp [OF _ lt])
  with that assms(5) show thesis by (auto simp: streq_def Let_def)
qed

text \<open>
  C6: the command handler runs the received line and sends back, in order and each piece
  whole, exactly what the command printed (each piece up to its first NUL); it returns
  unless the command printed more pieces than the fuel allows.
\<close>

theorem receive_cmd_relays:
  assumes "length buf = 512" and "posix ((Net (Recv acc 512), r) # t)" and "0 < rv r" and "rv r < 512"
    and "line_of (rdat r) \<noteq> bytes ''shutdown''"
    and "exec (receive_cmd n buf acc [EV_READ] ev) out ((Net (Recv acc 512), r) # t)"
  shows "(\<exists>rp. (Io (Popen (line_of (rdat r))), rp) \<in> set t) \<and>
     sent t = map (\<lambda>p. (acc, p)) (pieces t) \<and>
     (if length (pieces t) < n then out = Value () else out = Value () \<or> out = Running)"
proof -
  from assms(2) have p: "posix_ok (Net (Recv acc 512)) r" "posix t" by simp_all
  obtain r1 r2 rp t' where t: "t = (Io (Syslog ''[client]%s'' [PS (line_of (rdat r))]), r1) #
         (Io (Syslog ''CMD request: %s'' [PS (line_of (rdat r))]), r2) #
         (Io (Popen (line_of (rdat r))), rp) # t'"
    and x: "exec (if rptr rp = Null
          then syslog ''popen failed'' [] (drop_client ev acc
                 (call (Ev (Event_loopexit Null))
                   (relay n (replicate 256 0) (rptr rp) acc ev (call (Io (Pclose (rptr rp))) (Ret ())))))
          else relay n (replicate 256 0) (rptr rp) acc ev (call (Io (Pclose (rptr rp))) (Ret ()))) out t'"
    by (rule receive_cmd_after [OF assms(1) p(1) assms(3-6)])
  from x obtain t2 where y: "exec (relay n (replicate 256 0) (rptr rp) acc ev
        (call (Io (Pclose (rptr rp))) (Ret ()))) out t2"
    and s: "sent t' = sent t2" "pieces t' = pieces t2" "posix t' \<Longrightarrow> posix t2"
    by (auto simp: drop_client_def split: if_splits)
  from t p(2) s(3) have "posix t2" by simp
  with relay_sends [OF y this] relay_enough [OF _ this] y t s show ?thesis by auto
qed

text \<open>
  C7: for a request of 1 to 511 bytes whose first line is not \<^verbatim>\<open>shutdown\<close>, with the
  connection open and its event allocated, every call of the handler is permitted exactly
  when \<^verbatim>\<open>popen\<close> succeeds and no \<^verbatim>\<open>send\<close> fails that another \<^verbatim>\<open>send\<close> follows.  (After a failed
  \<^verbatim>\<open>popen\<close> it reads from and closes the NULL stream; after such a failed \<^verbatim>\<open>send\<close> it sends on
  the closed connection.)
\<close>

theorem receive_cmd_disciplined_iff:
  assumes "length buf = 512" and "documented H ((Net (Recv acc 512), r) # t)"
    and "0 < rv r" and "rv r < 512" and "line_of (rdat r) \<noteq> bytes ''shutdown''"
    and "exec (receive_cmd (Suc n) buf acc [EV_READ] ev) out ((Net (Recv acc 512), r) # t)"
    and "RFd acc \<in> H" and "RMem ev \<in> H" and "ev = Heap m" and "RPipe Null \<notin> H"
  shows "disciplined H ((Net (Recv acc 512), r) # t) \<longleftrightarrow>
     (\<forall>rp c. (Io (Popen c), rp) \<in> set t \<longrightarrow> rptr rp \<noteq> Null) \<and> \<not> late_failure t"
proof -
  from assms(2) have p: "posix_ok (Net (Recv acc 512)) r" "documented H t" by simp_all
  obtain r1 r2 rp t' where t: "t = (Io (Syslog ''[client]%s'' [PS (line_of (rdat r))]), r1) #
         (Io (Syslog ''CMD request: %s'' [PS (line_of (rdat r))]), r2) #
         (Io (Popen (line_of (rdat r))), rp) # t'"
    and x: "exec (if rptr rp = Null
          then syslog ''popen failed'' [] (drop_client ev acc
                 (call (Ev (Event_loopexit Null))
                   (relay (Suc n) (replicate 256 0) (rptr rp) acc ev (call (Io (Pclose (rptr rp))) (Ret ())))))
          else relay (Suc n) (replicate 256 0) (rptr rp) acc ev (call (Io (Pclose (rptr rp))) (Ret ()))) out t'"
    by (rule receive_cmd_after [OF assms(1) p(1) assms(3-6)])
  have no_popen: "\<And>rp c. (Io (Popen c), rp) \<notin> set t2"
    if "exec (relay k line pipe acc ev (call (Io (Pclose pipe)) (Ret ()))) out t2" for k line pipe t2
    using that
    by (induction k arbitrary: line t2) (auto simp: Let_def drop_client_def strlen_c_eq need_def
        split: if_splits option.splits)
  show ?thesis
  proof (cases "rptr rp = Null")
    case True
    with x t assms(7-10) show ?thesis by (auto simp: drop_client_def)
  next
    case False
    with x have y: "exec (relay (Suc n) (replicate 256 0) (rptr rp) acc ev
        (call (Io (Pclose (rptr rp))) (Ret ()))) out t'" by simp
    let ?H = "insert (RPipe (rptr rp)) H"
    from p(2) t False have "documented ?H t'" by simp
    from relay_disciplined [OF y this] assms(7-9) have "disciplined ?H t' \<longleftrightarrow> \<not> late_failure t'"
      by simp
    with t False assms(7) no_popen [OF y] show ?thesis by auto
  qed
qed

subsection \<open>Witnesses\<close>

text \<open>A command that prints two lines, whose peer is gone when the first is sent.\<close>

definition ls_request :: resp where
  "ls_request = rbytes (bytes ''ls'' @ [LF])"

definition piece :: "byte list \<Rightarrow> resp" where
  "piece bs = resp0\<lparr>rptr := Local ''line'', rdat := bs\<rparr>"

definition relay_run :: trace where
  "relay_run =
     [(Io (Fgets (Heap 7) 128), piece [97, LF]), (Io (Syslog ''%s'' [PS [97, LF]]), resp0),
      (Net (Send 5 [97, LF]), rint (-1)), (Io (Syslog ''send failed'' []), resp0),
      (Ev (Event_del (Heap 1)), resp0), (Proc (Free (Heap 1)), resp0), (Net (Close 5), resp0),
      (Io (Fgets (Heap 7) 128), piece [98, LF]), (Io (Syslog ''%s'' [PS [98, LF]]), resp0),
      (Net (Send 5 [98, LF]), rint 2),
      (Io (Fgets (Heap 7) 128), resp0), (Io (Syslog ''%s'' [PS [98, LF]]), resp0),
      (Io (Pclose (Heap 7)), resp0)]"

definition ls_run :: trace where
  "ls_run = (Io (Syslog ''[client]%s'' [PS (bytes ''ls'')]), resp0) #
     (Io (Syslog ''CMD request: %s'' [PS (bytes ''ls'')]), resp0) #
     (Io (Popen (bytes ''ls'')), rpointer (Heap 7)) # relay_run"

lemma relay_exec:
  "exec (relay (Suc (Suc (Suc n))) (replicate 256 0) (Heap 7) 5 (Heap 1)
     (call (Io (Pclose (Heap 7))) (Ret ()))) (Value ()) relay_run"
proof -
  define l1 where "l1 = overlay (replicate 256 0) [97, LF, 0 :: byte]"
  define l2 where "l2 = overlay l1 [98, LF, 0]"
  have "length l1 = 256" by (simp add: l1_def)
  then have c: "terminated l1" "cstr l1 = [97, LF]" "terminated l2" "cstr l2 = [98, LF]"
    using overlay_cstr [of "[97, LF]" "replicate 256 0"] overlay_cstr [of "[98, LF]" l1]
      overlay_terminated [of "replicate 256 0" "[97, LF]"] overlay_terminated [of l1 "[98, LF]"]
    by (simp_all add: l1_def l2_def)
  have t: "take (Suc (Suc 0)) l1 = [97, LF]" "take (Suc (Suc 0)) l2 = [98, LF]"
    using take_cstr [of l1] take_cstr [of l2] c by simp_all
  show ?thesis
    using c t
    by (simp add: relay_run_def piece_def resp0_def strlen_c_eq drop_client_def Let_def
        l1_def [symmetric] l2_def [symmetric])
qed

lemma ls_exec: "exec (receive_cmd (Suc (Suc (Suc n))) zeros 5 [EV_READ] (Heap 1)) (Value ())
    ((Net (Recv 5 512), ls_request) # ls_run)"
proof -
  have len: "length (bytes ''ls'' @ [LF]) < length zeros" by (simp add: zeros_def bytes_def)
  obtain b where c: "chomp (overlay zeros (bytes ''ls'' @ [LF])) (length (bytes ''ls'' @ [LF])) = Some b"
    and b: "length b = length zeros" "terminated b" "cstr b = line_of (bytes ''ls'' @ [LF])"
    by (rule chomp_overlay [OF len])
  have c3: "chomp (overlay zeros [108, 115, LF]) 3 = Some b"
    using c by (simp add: bytes_def numeral_3_eq_3)
  show ?thesis
    using b(3) relay_exec [of n]
    by (simp add: receive_cmd_def ls_run_def ls_request_def c3 streq_def resp0_def bytes_def
        line_of_def Let_def del: relay.simps)
qed

lemma ls_facts:
  "length zeros = 512" "0 < rv ls_request" "rv ls_request < 512"
  "line_of (rdat ls_request) = bytes ''ls''" "bytes ''ls'' \<noteq> bytes ''shutdown''"
  "documented one_client ((Net (Recv 5 512), ls_request) # ls_run)"
  by (simp_all add: zeros_def ls_request_def resp0_def bytes_def line_of_def one_client_def
      ls_run_def relay_run_def piece_def)

theorem receive_cmd_relays_witness: "sent ls_run = [(5, [97, LF]), (5, [98, LF])]"
proof -
  have "sent ls_run = map (\<lambda>p. (5, p)) (pieces ls_run)"
    using receive_cmd_relays [OF ls_facts(1) documented_posix [OF ls_facts(6)] ls_facts(2,3)
        _ ls_exec [of 0]] ls_facts(4,5) by simp
  then show ?thesis by (simp add: ls_run_def relay_run_def piece_def)
qed

theorem receive_cmd_disciplined_iff_witness:
  "\<not> disciplined one_client ((Net (Recv 5 512), ls_request) # ls_run)"
proof -
  have "RFd 5 \<in> one_client" "RMem (Heap 1) \<in> one_client" "RPipe Null \<notin> one_client"
    by (simp_all add: one_client_def)
  moreover have "late_failure ls_run"
    by (simp add: ls_run_def relay_run_def)
  ultimately show ?thesis
    using receive_cmd_disciplined_iff [OF ls_facts(1) ls_facts(6) ls_facts(2,3) _ ls_exec [of 0]]
      ls_facts(4,5) by simp
qed

end
