(* ===== verification/Socket_Setup.thy ===== *)
theory Socket_Setup
  imports Sys_Calls
begin

text \<open>
  The socket helpers of \<^verbatim>\<open>src/network/common/common.c\<close> (the same file is under
  \<^verbatim>\<open>network2\<close>, \<^verbatim>\<open>daemon\<close>, \<^verbatim>\<open>socket\<close> and \<^verbatim>\<open>shared_memory\<close>) and the variant of
  \<^verbatim>\<open>sender_socket\<close> in \<^verbatim>\<open>src/daemon/client/common.c\<close>.  Each returns a descriptor or -1.
  The lemmas say what each leaves held and in which order it configures the socket.
\<close>

subsection \<open>Definitions\<close>

text \<open>
  \<^verbatim>\<open>info->ai_addr\<close> and the other fields of the first entry: a list that came back empty
  would be a NULL pointer.
\<close>

definition first_info :: "resp \<Rightarrow> (addrinfo \<Rightarrow> 'a cprog) \<Rightarrow> 'a cprog" where
  "first_info r k = (if rinfos r = [] then Fault NullPointer else k (hd (rinfos r)))"

text \<open>
  The opening of every helper: \<^verbatim>\<open>getaddrinfo\<close> with the given hints, then
  \<^verbatim>\<open>getnameinfo\<close> on the first entry, then a message; \<open>bad\<close> is the early return.
\<close>

definition resolve ::
  "string option \<Rightarrow> string \<Rightarrow> socktype \<Rightarrow> bool \<Rightarrow> string \<Rightarrow> 'a cprog \<Rightarrow>
   (ptr \<Rightarrow> addrinfo \<Rightarrow> 'a cprog) \<Rightarrow> 'a cprog" where
  "resolve host port st passive fmt bad k =
     Sys (Net (Getaddrinfo host port AF_INET st passive)) (\<lambda>r.
       if rv r \<noteq> 0 then eprintf ''getaddrinfo():%s'' [PI (rv r)] bad
       else first_info r (\<lambda>info.
         Sys (Net (Getnameinfo (ai_addr info))) (\<lambda>r2.
           if rv r2 \<noteq> 0
           then eprintf ''getnameinfo():%s'' [PI (rv r2)] (call (Net (Freeaddrinfo (rptr r))) bad)
           else eprintf fmt [PS (rdat r2)] (k (rptr r) info))))"

definition get_sockaddr_info :: "string \<Rightarrow> string \<Rightarrow> (int \<times> byte list) cprog" where
  "get_sockaddr_info host port =
     resolve (Some host) port SOCK_DGRAM False ''addr=%s,port=%s'' (Ret (-1, []))
       (\<lambda>p info. call (Net (Freeaddrinfo p)) (Ret (0, ai_addr info)))"

definition server_socket :: "string \<Rightarrow> string \<Rightarrow> int cprog" where
  "server_socket host port =
     resolve (Some host) port SOCK_STREAM True ''addr = %s, port = %s'' (Ret (-1)) (\<lambda>p info.
     Sys (Net (Socket (ai_family info) (ai_socktype info) (ai_protocol info))) (\<lambda>rs.
     if rv rs = -1 then perror ''socket'' (call (Net (Freeaddrinfo p)) (Ret (-1)))
     else let soc = rv rs in
     Sys (Net (Setsockopt soc SO_REUSEADDR (OInt 1))) (\<lambda>r.
     if rv r = -1
     then perror ''setsockopt'' (close_fd soc (call (Net (Freeaddrinfo p)) (Ret (-1))))
     else Sys (Net (Bind soc (ai_addr info))) (\<lambda>r.
     if rv r = -1
     then perror ''bind'' (close_fd soc (call (Net (Freeaddrinfo p)) (Ret (-1))))
     else Sys (Net (Listen soc)) (\<lambda>r.
     if rv r = -1
     then perror ''listen'' (close_fd soc (call (Net (Freeaddrinfo p)) (Ret (-1))))
     else call (Net (Freeaddrinfo p)) (Ret soc))))))"

definition receiver_socket :: "string \<Rightarrow> string \<Rightarrow> string option \<Rightarrow> int cprog" where
  "receiver_socket host port multicast_address =
     resolve None port SOCK_DGRAM True ''addr = %s, port = %s'' (Ret (-1)) (\<lambda>p info.
     Sys (Net (Socket (ai_family info) (ai_socktype info) (ai_protocol info))) (\<lambda>rs.
     if rv rs = -1 then perror ''socket'' (call (Net (Freeaddrinfo p)) (Ret (-1)))
     else let soc = rv rs in
     Sys (Net (Setsockopt soc SO_REUSEADDR (OInt 1))) (\<lambda>r.
     if rv r = -1
     then perror ''setsockopt'' (close_fd soc (call (Net (Freeaddrinfo p)) (Ret (-1))))
     else Sys (Net (Bind soc (ai_addr info))) (\<lambda>r.
     if rv r = -1
     then perror ''bind'' (close_fd soc (call (Net (Freeaddrinfo p)) (Ret (-1))))
     else case multicast_address of
       None \<Rightarrow> call (Net (Freeaddrinfo p)) (Ret soc)
     | Some m \<Rightarrow>
         eprintf ''mutlcast_address is %s'' [PS (bytes m)] (
         Sys (Net (Inet_pton m)) (\<lambda>r1.
         Sys (Net (Inet_pton host)) (\<lambda>r2.
         Sys (Net (Setsockopt soc IP_ADD_MEMBERSHIP (OBytes (rdat r1 @ rdat r2)))) (\<lambda>r.
         if rv r = -1
         then eprintf ''ERROR : %s(%d)'' [] (perror ''setsockopt''
                (close_fd soc (call (Net (Freeaddrinfo p)) (Ret (-1)))))
         else call (Net (Freeaddrinfo p)) (Ret soc)))))))))"

definition client_socket :: "string \<Rightarrow> string \<Rightarrow> int cprog" where
  "client_socket host port =
     resolve (Some host) port SOCK_STREAM False ''addr = %s, port = %s'' (Ret (-1)) (\<lambda>p info.
     Sys (Net (Socket (ai_family info) (ai_socktype info) (ai_protocol info))) (\<lambda>rs.
     if rv rs = -1 then perror ''socket'' (call (Net (Freeaddrinfo p)) (Ret (-1)))
     else let soc = rv rs in
     Sys (Net (Connect soc (ai_addr info))) (\<lambda>r.
     if rv r = -1
     then perror ''connect'' (close_fd soc (call (Net (Freeaddrinfo p)) (Ret (-1))))
     else call (Net (Freeaddrinfo p)) (Ret soc))))"

text \<open>The \<^verbatim>\<open>sin_addr\<close> of an IPv4 address: family and port take two bytes each.\<close>

definition sin_addr :: "byte list \<Rightarrow> byte list" where
  "sin_addr a = take 4 (drop 4 a)"

text \<open>
  One multicast option of \<^verbatim>\<open>sender_socket\<close> with its error return, which frees the list
  before it closes the socket.
\<close>

definition multicast_opt :: "int \<Rightarrow> ptr \<Rightarrow> sockopt \<Rightarrow> optval \<Rightarrow> int cprog \<Rightarrow> int cprog" where
  "multicast_opt soc p opt v k =
     Sys (Net (Setsockopt soc opt v)) (\<lambda>r.
       if rv r = -1
       then perror ''setsockopt'' (call (Net (Freeaddrinfo p)) (close_fd soc (Ret (-1))))
       else k)"

text \<open>
  \<^verbatim>\<open>sender_socket\<close> of \<^verbatim>\<open>network/common\<close>.  When \<^verbatim>\<open>socket\<close> fails it frees \<^verbatim>\<open>info\<close>,
  which nothing has assigned yet; the next two error returns do not close the socket.
\<close>

definition sender_socket :: "string \<Rightarrow> string \<Rightarrow> string option \<Rightarrow> int cprog" where
  "sender_socket host port multicast_address =
     Sys (Net (Socket AF_INET SOCK_DGRAM 0)) (\<lambda>rs.
     if rv rs = -1 then perror ''socket'' (Fault UninitPointer)
     else let soc = rv rs in
     Sys (Net (Setsockopt soc SO_REUSEADDR (OInt 1))) (\<lambda>r.
     if rv r = -1 then perror ''setsockopt'' (Ret (-1))
     else Sys (Net (Getaddrinfo (Some host) port AF_INET SOCK_DGRAM False)) (\<lambda>r.
     if rv r \<noteq> 0 then eprintf ''getaddrinfo():%s'' [PI (rv r)] (Ret (-1))
     else let p = rptr r in first_info r (\<lambda>info.
     Sys (Net (Bind soc (ai_addr info))) (\<lambda>r.
     if rv r = -1
     then perror ''bind'' (call (Net (Freeaddrinfo p)) (close_fd soc (Ret (-1))))
     else multicast_opt soc p IP_MULTICAST_IF (OBytes (sin_addr (ai_addr info))) (
          multicast_opt soc p IP_MULTICAST_TTL (OChar 64) (
          multicast_opt soc p IP_MULTICAST_LOOP (OChar 1) (
          call (Net (Freeaddrinfo p)) (Ret soc)))))))))"

text \<open>The variant of \<^verbatim>\<open>daemon/client\<close>: no \<^verbatim>\<open>bind\<close>, options only for multicast.\<close>

definition sender_socket_udp :: "string \<Rightarrow> string \<Rightarrow> string option \<Rightarrow> int cprog" where
  "sender_socket_udp host port multicast_address =
     Sys (Net (Socket AF_INET SOCK_DGRAM 0)) (\<lambda>rs.
     if rv rs = -1 then perror ''socket'' (Fault UninitPointer)
     else let soc = rv rs in
     Sys (Net (Setsockopt soc SO_REUSEADDR (OInt 1))) (\<lambda>r.
     if rv r = -1 then perror ''setsockopt'' (Ret (-1))
     else Sys (Net (Getaddrinfo (Some host) port AF_INET SOCK_DGRAM False)) (\<lambda>r.
     if rv r \<noteq> 0 then eprintf ''getaddrinfo():%s'' [PI (rv r)] (Ret (-1))
     else let p = rptr r in first_info r (\<lambda>info.
     case multicast_address of
       None \<Rightarrow> call (Net (Freeaddrinfo p)) (Ret soc)
     | Some m \<Rightarrow>
          multicast_opt soc p IP_MULTICAST_IF (OBytes (sin_addr (ai_addr info))) (
          multicast_opt soc p IP_MULTICAST_TTL (OChar 64) (
          multicast_opt soc p IP_MULTICAST_LOOP (OChar 1) (
          call (Net (Freeaddrinfo p)) (Ret soc))))))))"

subsection \<open>Resources and order of configuration\<close>

text \<open>The calls of a trace that name one socket, in order.\<close>

fun names_fd :: "int \<Rightarrow> call \<Rightarrow> bool" where
  "names_fd s (Net (Setsockopt fd opt v)) = (fd = s)"
| "names_fd s (Net (Bind fd a)) = (fd = s)"
| "names_fd s (Net (Listen fd)) = (fd = s)"
| "names_fd s (Net (Connect fd a)) = (fd = s)"
| "names_fd s (Net (Close fd)) = (fd = s)"
| "names_fd s _ = False"

definition calls_on :: "int \<Rightarrow> trace \<Rightarrow> call list" where
  "calls_on s t = filter (names_fd s) (map fst t)"

lemma calls_on_simps [simp]:
  "calls_on s [] = []"
  "calls_on s ((c, r) # t) = (if names_fd s c then c # calls_on s t else calls_on s t)"
  by (simp_all add: calls_on_def)

text \<open>
  The contract of a helper that opens a socket: it returns, makes only permitted calls,
  and on return holds what it held before, plus the socket exactly when it reports one.
\<close>

locale socket_opener =
  fixes open_socket :: "int cprog"
  assumes opens: "keeps open_socket H (\<lambda>out H'. \<exists>s. out = Value s \<and>
        (if s = -1 then H' = H else RFd s \<notin> H \<and> H' = insert (RFd s) H))"
begin

text \<open>A caller handles the failure with what it held and the success with one more socket.\<close>

lemma then_keeps:
  assumes "keeps (k (-1)) H Q"
    and "\<And>s. s \<noteq> -1 \<Longrightarrow> RFd s \<notin> H \<Longrightarrow> keeps (k s) (insert (RFd s) H) Q"
  shows "keeps (andthen open_socket k) H Q"
  by (rule safe_andthen [OF opens]) (use assms in \<open>auto split: if_splits\<close>)

text \<open>On every complete run the balance is right and no call was forbidden.\<close>

lemma balance:
  assumes "exec open_socket out t" and "documented H t"
  shows "disciplined H t \<and> (\<exists>s. out = Value s \<and>
     (if s = -1 then held H t = H else RFd s \<notin> H \<and> held H t = insert (RFd s) H))"
  using keeps_exec [OF opens assms] .

text \<open>Closing what was opened leaves nothing behind.\<close>

lemma open_close_balanced:
  "keeps (andthen open_socket (\<lambda>s. if s = -1 then Ret 1 else close_fd s (Ret 0))) H
     (\<lambda>out H'. H' = H)"
  by (rule then_keeps) auto

end

lemmas socket_helper_defs =
  server_socket_def receiver_socket_def client_socket_def get_sockaddr_info_def
  sender_socket_def sender_socket_udp_def resolve_def first_info_def multicast_opt_def Let_def

interpretation tcp_server: socket_opener "server_socket host port" for host port
  by unfold_locales (auto simp: socket_helper_defs)

interpretation tcp_client: socket_opener "client_socket host port" for host port
  by unfold_locales (auto simp: socket_helper_defs)

interpretation udp_receiver: socket_opener "receiver_socket host port mc" for host port mc
  by unfold_locales (cases mc; auto simp: socket_helper_defs)

lemma get_sockaddr_info_balanced:
  "keeps (get_sockaddr_info host port) H
     (\<lambda>out H'. H' = H \<and> (\<exists>v a. out = Value (v, a) \<and> (v = 0 \<or> v = -1 \<and> a = [])))"
  by (auto simp: socket_helper_defs)

text \<open>
  \<^verbatim>\<open>sender_socket\<close> does not meet the contract: it can run into undefined behaviour, and
  report failure while still holding the socket.
\<close>

lemma sender_socket_keeps:
  "keeps (sender_socket host port mc) H (\<lambda>out H'.
     (out = Undefined UninitPointer \<and> H' = H) \<or>
     (\<exists>s. out = Value s \<and> s \<noteq> -1 \<and> H' = insert (RFd s) H) \<or>
     (out = Value (-1) \<and> (H' = H \<or> (\<exists>s. RFd s \<notin> H \<and> H' = insert (RFd s) H))))"
  by (auto simp: socket_helper_defs)

subsection \<open>Properties\<close>

text \<open>A concrete run used by the witnesses: everything succeeds, with descriptor 3.\<close>

definition lo_info :: addrinfo where
  "lo_info = \<lparr>ai_family = AF_INET, ai_socktype = SOCK_STREAM, ai_protocol = 6,
     ai_addr = [2, 0, 0, 80, 127, 0, 0, 1]\<rparr>"

definition good_run :: trace where
  "good_run = snd (run (server_socket ''localhost'' ''80'')
     [resp0\<lparr>rptr := Heap 1, rinfos := [lo_info]\<rparr>, rbytes [], resp0, rint 3, resp0, resp0, resp0, resp0])"

definition failing_run :: trace where
  "failing_run = snd (run (sender_socket ''h'' ''80'' None) [rint 3, rint (-1), resp0])"

lemma good_run_exec: "exec (server_socket ''localhost'' ''80'') (Value 3) good_run"
  by (rule run_exec [of _ "[resp0\<lparr>rptr := Heap 1, rinfos := [lo_info]\<rparr>, rbytes [], resp0,
        rint 3, resp0, resp0, resp0, resp0]"])
    (simp_all add: good_run_def socket_helper_defs resp0_def lo_info_def)

text \<open>
  C36: every run of \<^verbatim>\<open>server_socket\<close> returns, uses only descriptors and address lists it
  holds, and gives back everything it took except the listening socket it reports.
\<close>

theorem server_socket_balanced:
  assumes "exec (server_socket host port) out t" and "documented H t"
  shows "disciplined H t \<and> (\<exists>s. out = Value s \<and>
     (if s = -1 then held H t = H else RFd s \<notin> H \<and> held H t = insert (RFd s) H))"
  by (rule tcp_server.balance [OF assms])

theorem server_socket_balanced_witness: "held {RFd 0} good_run = {RFd 0, RFd 3}"
proof -
  have "documented {RFd 0} good_run"
    by (simp add: good_run_def socket_helper_defs resp0_def lo_info_def)
  from server_socket_balanced [OF good_run_exec this] show ?thesis by auto
qed

text \<open>
  A socket \<^verbatim>\<open>server_socket\<close> reports has been configured in the order reuse-address,
  bind, listen, each once, bound to the first address \<^verbatim>\<open>getaddrinfo\<close> gave, and is not closed.
\<close>

theorem server_socket_order:
  assumes "exec (server_socket host port) (Value s) t" and "s \<noteq> -1"
  shows "\<exists>r. (Net (Getaddrinfo (Some host) port AF_INET SOCK_STREAM True), r) \<in> set t \<and>
     calls_on s t = [Net (Setsockopt s SO_REUSEADDR (OInt 1)),
        Net (Bind s (ai_addr (hd (rinfos r)))), Net (Listen s)]"
  using assms by (auto simp: socket_helper_defs split: if_splits)

theorem server_socket_order_witness: "length (calls_on 3 good_run) = 3"
  using server_socket_order [OF good_run_exec] by auto

text \<open>Whether a run resolved an address.\<close>

definition resolved :: "trace \<Rightarrow> bool" where
  "resolved t \<longleftrightarrow> (\<exists>h p f k b r. (Net (Getaddrinfo h p f k b), r) \<in> set t \<and> rv r = 0)"

text \<open>
  C39: what \<^verbatim>\<open>sender_socket\<close> of \<^verbatim>\<open>network/common\<close> leaves: it is undefined exactly when
  \<^verbatim>\<open>socket\<close> gives -1; when it returns -1 after \<^verbatim>\<open>getaddrinfo\<close> succeeded (a failed \<^verbatim>\<open>bind\<close> or
  option) it has given back the socket and the address list, and when it returns -1 before
  (a failed first option or \<^verbatim>\<open>getaddrinfo\<close>) the socket is leaked; when it returns anything
  else it holds that socket and nothing more.
\<close>

theorem sender_socket_failures:
  assumes "exec (sender_socket host port mc) out t" and "documented H t"
  shows "((\<exists>f. out = Undefined f) \<longleftrightarrow> (\<exists>r. (Net (Socket AF_INET SOCK_DGRAM 0), r) \<in> set t \<and> rv r = -1)) \<and>
    (out = Value (-1) \<longrightarrow>
      (if resolved t then held H t = H else \<exists>s. RFd s \<notin> H \<and> held H t = insert (RFd s) H)) \<and>
    (\<forall>s. out = Value s \<and> s \<noteq> -1 \<longrightarrow> RFd s \<notin> H \<and> held H t = insert (RFd s) H)"
proof (intro conjI impI allI)
  show "(\<exists>f. out = Undefined f) \<longleftrightarrow> (\<exists>r. (Net (Socket AF_INET SOCK_DGRAM 0), r) \<in> set t \<and> rv r = -1)"
    using assms by (auto simp: socket_helper_defs split: if_splits)
  show "if resolved t then held H t = H else \<exists>s. RFd s \<notin> H \<and> held H t = insert (RFd s) H"
    if "out = Value (-1)"
    using assms that by (auto simp: socket_helper_defs resolved_def split: if_splits)
  show "RFd s \<notin> H" "held H t = insert (RFd s) H" if "out = Value s \<and> s \<noteq> -1" for s
    using assms that by (auto simp: socket_helper_defs split: if_splits)
qed

theorem sender_socket_failures_witness: "\<exists>s. held {} failing_run = {RFd s}"
proof -
  have "exec (sender_socket ''h'' ''80'' None) (Value (-1)) failing_run"
    by (rule run_exec [of _ "[rint 3, rint (-1), resp0]"])
      (simp_all add: failing_run_def socket_helper_defs resp0_def)
  moreover have "documented {} failing_run" "\<not> resolved failing_run"
    by (auto simp: failing_run_def socket_helper_defs resp0_def resolved_def)
  ultimately show ?thesis using sender_socket_failures by fastforce
qed

end
