(* ===== verification/Daemon.thy ===== *)
theory Daemon
  imports Cmd_Server Socket_Setup
begin

text \<open>
  The daemon itself (\<^verbatim>\<open>src/daemon/src/mydaemon.c\<close>): signal handling, detaching from the
  terminal, registration of the two services and the option handling of \<^verbatim>\<open>main\<close>.
  \<^verbatim>\<open>getopt_long\<close> is libc: \<^verbatim>\<open>main\<close> gets the list of what it returns, option
  characters with their \<^verbatim>\<open>optarg\<close>.
\<close>

subsection \<open>Definitions\<close>

definition signal_handler :: "signum \<Rightarrow> unit cprog" where
  "signal_handler sig =
     (case sig of
        SIGHUP \<Rightarrow> syslog ''Hangup Signal Catched'' [] (Ret ())
      | SIGTERM \<Rightarrow> syslog ''Terminate Signal Catched'' [] (call (Proc Closelog) (Exit 0))
      | _ \<Rightarrow> Ret ())"

text \<open>\<^verbatim>\<open>for(i = 0; i < MAXFD; i++) close(i);\<close>\<close>

definition MAXFD :: nat where
  "MAXFD = 64"

primrec close_from :: "nat \<Rightarrow> nat \<Rightarrow> 'a cprog \<Rightarrow> 'a cprog" where
  "close_from 0 i k = k"
| "close_from (Suc n) i k = close_fd (int i) (close_from n (Suc i) k)"

definition daemonize :: "int \<Rightarrow> int cprog" where
  "daemonize flag =
     Sys (Proc Fork) (\<lambda>r.
     if rv r = -1 then Ret (-1)
     else if rv r \<noteq> 0 then Exit 0
     else
       call (Proc Setsid) (
       call (Proc (Signal SIGCHLD SIG_IGN)) (
       call (Proc (Signal SIGTSTP SIG_IGN)) (
       call (Proc (Signal SIGTTOU SIG_IGN)) (
       call (Proc (Signal SIGTTIN SIG_IGN)) (
       call (Proc (Signal SIGHUP (Handler ''signal_handler''))) (
       call (Proc (Signal SIGTERM (Handler ''signal_handler''))) (
       Sys (Proc Fork) (\<lambda>r.
       if rv r = 0 then Exit 0
       else
         let rest =
           close_from MAXFD 0 (
           Sys (Io (Open ''/dev/null'')) (\<lambda>r.
           if rv r \<noteq> -1
           then call (Io (Dup2 (rv r) 0)) (call (Io (Dup2 (rv r) 1)) (call (Io (Dup2 (rv r) 2)) (
                if rv r < 2 then close_fd (rv r) (Ret 0) else Ret 0)))
           else Ret 0))
         in
         if flag = 0
         then Sys (Proc (Chdir ''/'')) (\<lambda>r.
              if rv r = 0 then perror ''chdir'' (Exit (rv r)) else rest)
         else rest)))))))))"

definition start_server :: "string \<Rightarrow> int cprog" where
  "start_server port =
     call (Ev Event_init) (
     andthen (server_socket ''localhost'' port) (\<lambda>soc.
     if soc = -1 then syslog ''server_socket failed'' [] (Exit 1)
     else
       call (Ev (Event_set (Local ''ev'') soc [EV_READ, EV_PERSIST] ''accept_handler'' (Local ''ev''))) (
       Sys (Ev (Event_add (Local ''ev''))) (\<lambda>r.
       if rv r \<noteq> 0 then syslog ''event_add failed'' [] (close_fd soc (Exit 1))
       else
         andthen (server_socket ''localhost'' ''9999'') (\<lambda>soc.
         if soc = -1 then syslog ''server_socket failed'' [] (Exit 1)
         else
           call (Ev (Event_set (Local ''ev_cmd'') soc [EV_READ, EV_PERSIST] ''accept_cmd'' (Local ''ev_cmd''))) (
           Sys (Ev (Event_add (Local ''ev_cmd''))) (\<lambda>r.
           if rv r \<noteq> 0 then syslog ''event_add failed'' [] (close_fd soc (Exit 1))
           else call (Ev (Event_dispatch Null)) (Ret 0))))))))"

text \<open>The options of \<^verbatim>\<open>main\<close>, collected by its \<^verbatim>\<open>getopt_long\<close> loop.\<close>

record daemon_opts =
  d_port :: "string option"
  d_help :: bool
  d_foreground :: bool

fun daemon_getopt :: "(char \<times> string) list \<Rightarrow> daemon_opts \<Rightarrow> daemon_opts" where
  "daemon_getopt [] s = s"
| "daemon_getopt ((c, optarg) # os) s =
     daemon_getopt os
       (if c = CHR ''h'' then s\<lparr>d_help := True\<rparr>
        else if c = CHR ''p'' then s\<lparr>d_port := Some optarg\<rparr>
        else if c = CHR ''F'' then s\<lparr>d_foreground := True\<rparr>
        else s)"

text \<open>\<^verbatim>\<open>main\<close>, over the \<^verbatim>\<open>start_server\<close> it calls.\<close>

definition server_main :: "(string \<Rightarrow> int cprog) \<Rightarrow> string \<Rightarrow> (char \<times> string) list \<Rightarrow> int cprog" where
  "server_main start argv0 opts =
     (let s = daemon_getopt opts \<lparr>d_port = None, d_help = False, d_foreground = False\<rparr> in
      if d_help s
      then oprintf ''Usage: %s <options>'' [PS (bytes argv0)] (
           oprintf ''  options:'' [] (oprintf '''' [] (
           oprintf ''  -h, --help'' [] (oprintf ''  -p, --port'' [] (
           oprintf ''  -F, --foreground'' [] (Exit 1))))))
      else case d_port s of
        None \<Rightarrow> eprintf ''ERROR: no port option'' [] (Exit 1)
      | Some port \<Rightarrow>
          andthen
            (if \<not> d_foreground s
             then call (Proc (Openlog argv0)) (syslog ''call daemonize()'' [] (daemonize 1))
             else call (Proc (Openlog '''')) (syslog ''call daemonize()'' [] (Ret 0)))
            (\<lambda>_.
          Sys (Proc Getcwd) (\<lambda>r.
          syslog (if rptr r = Null then ''daemon:%s'' else ''daemon:cwd=%s'') [PS (rdat r)] (
          andthen (start port) (\<lambda>_.
          call (Proc Closelog) (Ret 0))))))"

definition daemon_main :: "string \<Rightarrow> (char \<times> string) list \<Rightarrow> int cprog" where
  "daemon_main = server_main start_server"

subsection \<open>The descriptor table\<close>

text \<open>
  A monitor of the process's descriptor table, a map from numbers to what is open there:
  \<^verbatim>\<open>open\<close> takes the lowest free number or fails, \<^verbatim>\<open>dup2\<close> copies an entry, \<^verbatim>\<open>close\<close>
  clears one.
\<close>

type_synonym fds = "int \<Rightarrow> string option"

fun fd_step :: "fds \<Rightarrow> call \<Rightarrow> resp \<Rightarrow> fds" where
  "fd_step T (Net (Close fd)) r = T(fd := None)"
| "fd_step T (Io (Open p)) r = (if rv r = -1 then T else T(rv r := Some p))"
| "fd_step T (Io (Dup2 a b)) r = T(b := T a)"
| "fd_step T _ r = T"

fun fd_env :: "fds \<Rightarrow> call \<Rightarrow> resp \<Rightarrow> bool" where
  "fd_env T (Io (Open p)) r =
     (rv r = -1 \<or> (0 \<le> rv r \<and> T (rv r) = None \<and> (\<forall>n. 0 \<le> n \<and> n < rv r \<longrightarrow> T n \<noteq> None)))"
| "fd_env T _ r = True"

definition fd_table :: "(fds, call, resp) monitor" where
  "fd_table = \<lparr>m_ok = (\<lambda>_ _. True), m_env = fd_env, m_st = fd_step\<rparr>"

lemma fd_table_simps [simp]:
  "m_ok fd_table T c" "m_env fd_table = fd_env" "m_st fd_table = fd_step"
  by (simp_all add: fd_table_def)

text \<open>What was opened in a trace, with the descriptors \<^verbatim>\<open>open\<close> returned.\<close>

fun opens :: "trace \<Rightarrow> (string \<times> int) list" where
  "opens [] = []"
| "opens ((Io (Open p), r) # t) = (p, rv r) # opens t"
| "opens (_ # t) = opens t"

text \<open>The table together with what was opened so far.\<close>

definition fd_log :: "(fds \<times> (string \<times> int) list, call, resp) monitor" where
  "fd_log = \<lparr>m_ok = (\<lambda>_ _. True), m_env = (\<lambda>h. fd_env (fst h)),
     m_st = (\<lambda>h c r. (fd_step (fst h) c r, snd h @ opens [(c, r)]))\<rparr>"

lemma fd_log_simps [simp]:
  "m_ok fd_log h c" "m_env fd_log (T, L) = fd_env T"
  "m_st fd_log (T, L) c r = (fd_step T c r, L @ opens [(c, r)])"
  by (simp_all add: fd_log_def)

lemma opens_Cons: "opens (x # t) = opens [x] @ opens t"
  by (cases "[x]" rule: opens.cases) simp_all

lemma fd_log_trace:
  "end_state fd_log (T, L) t = (end_state fd_table T t, L @ opens t)"
  "honest fd_log (T, L) t = honest fd_table T t"
proof (induction t arbitrary: T L)
  case (Cons x t)
  obtain c r where x: "x = (c, r)" by fastforce
  { case 1 show ?case using Cons opens_Cons [of x t] by (simp add: x) }
  { case 2 show ?case using Cons by (simp add: x) }
qed simp_all

lemma safe_close_from:
  "safe fd_log (close_from n i k) (T, L) Q \<longleftrightarrow>
   safe fd_log k (\<lambda>x. if int i \<le> x \<and> x < int (i + n) then None else T x, L) Q"
proof (induction n arbitrary: i T)
  case 0
  have "(\<lambda>x. if int i \<le> x \<and> x < int i then None else T x) = T" by (intro ext) auto
  then show ?case by simp
next
  case (Suc n)
  have "(\<lambda>x. if int (Suc i) \<le> x \<and> x < int (Suc i + n) then None else (T(int i := None)) x) =
      (\<lambda>x. if int i \<le> x \<and> x < int (i + Suc n) then None else T x)"
    by (auto simp: fun_eq_iff)
  with Suc show ?case by (simp add: add.assoc)
qed

text \<open>
  What \<^verbatim>\<open>daemonize\<close> makes of the table when it returns 0: it keeps the descriptors from
  64 on and closes the others, but for 1 and 2 when \<^verbatim>\<open>/dev/null\<close> could be opened.
\<close>

definition detached :: "bool \<Rightarrow> fds \<Rightarrow> fds \<Rightarrow> bool" where
  "detached opened T T' \<longleftrightarrow>
     (\<forall>x. T' x = (if x < 0 \<or> 64 \<le> x then T x
                  else if opened \<and> (x = 1 \<or> x = 2) then Some ''/dev/null''
                  else None))"

lemma daemonize_table:
  "safe fd_log (daemonize flag) (T, []) (\<lambda>out h.
     (out = Value (-1) \<and> h = (T, [])) \<or> out = Exited 0 \<or>
     (out = Value 0 \<and> (\<exists>fd. snd h = [(''/dev/null'', fd)] \<and> detached (fd \<noteq> -1) T (fst h))))"
  by (auto simp: daemonize_def Let_def safe_close_from MAXFD_def detached_def dest: spec [of _ "0::int"])

text \<open>The results of the forks in a trace.\<close>

fun forks :: "trace \<Rightarrow> int list" where
  "forks [] = []"
| "forks ((Proc Fork, r) # t) = rv r # forks t"
| "forks (_ # t) = forks t"

text \<open>The ports whose address was asked for in a trace.\<close>

fun asked_ports :: "trace \<Rightarrow> string list" where
  "asked_ports [] = []"
| "asked_ports ((Net (Getaddrinfo h p f s b), r) # t) = p # asked_ports t"
| "asked_ports (_ # t) = asked_ports t"

lemma asked_ports_append [simp]: "asked_ports (t1 @ t2) = asked_ports t1 @ asked_ports t2"
  by (induction t1 rule: asked_ports.induct) auto

lemma exec_close_from:
  "exec (close_from n i k) out t \<Longrightarrow> \<exists>t1 t2. t = t1 @ t2 \<and> exec k out t2 \<and> forks t1 = [] \<and> asked_ports t1 = []
     \<and> (\<forall>r. (Proc (Chdir ''/''), r) \<notin> set t1)"
proof (induction n arbitrary: i t)
  case 0
  then show ?case by (intro exI [of _ "[]"] exI [of _ t]) auto
next
  case (Suc n)
  from Suc.prems obtain r t' where t: "t = (Net (Close (int i)), r) # t'"
    and x: "exec (close_from n (Suc i) k) out t'" by auto
  from Suc.IH [OF x] obtain t1 t2 where "t' = t1 @ t2" "exec k out t2" "forks t1 = []"
    "asked_ports t1 = []" "\<forall>r. (Proc (Chdir ''/''), r) \<notin> set t1" by blast
  with t have "t = ((Net (Close (int i)), r) # t1) @ t2 \<and> exec k out t2 \<and>
      forks ((Net (Close (int i)), r) # t1) = [] \<and>
      asked_ports ((Net (Close (int i)), r) # t1) = [] \<and>
      (\<forall>r'. (Proc (Chdir ''/''), r') \<notin> set ((Net (Close (int i)), r) # t1))" by simp
  then show ?case by blast
qed

lemma forks_append: "forks (t1 @ t2) = forks t1 @ forks t2"
  by (induction t1 rule: forks.induct) auto

lemma daemonize_forks:
  assumes "exec (daemonize flag) (Value 0) t"
  shows "(\<exists>n. n \<noteq> 0 \<and> forks t = [0, n]) \<and>
     (flag = 0 \<longrightarrow> (\<exists>r. (Proc (Chdir ''/''), r) \<in> set t \<and> rv r \<noteq> 0))"
  using assms
  by (auto simp: daemonize_def Let_def forks_append split: if_splits dest!: exec_close_from)

text \<open>
  C8: when \<^verbatim>\<open>daemonize\<close> returns 0 the process is a child of the first fork and the parent
  of the second one; it has tried to open \<^verbatim>\<open>/dev/null\<close>, once and nothing else; if that
  succeeded, descriptors 1 and 2 are \<^verbatim>\<open>/dev/null\<close> and every other one from 0 to 63 is
  closed, 0 too; if it failed, all of 0 to 63 are closed; those from 64 on are as they
  were; and if it was asked to change directory, the change failed.
\<close>

theorem daemonize_detaches:
  assumes "exec (daemonize flag) (Value 0) t" and "honest fd_table T t"
  shows "(\<exists>fd. opens t = [(''/dev/null'', fd)] \<and> detached (fd \<noteq> -1) T (end_state fd_table T t)) \<and>
     (\<exists>n. n \<noteq> 0 \<and> forks t = [0, n]) \<and>
     (flag = 0 \<longrightarrow> (\<exists>r. (Proc (Chdir ''/''), r) \<in> set t \<and> rv r \<noteq> 0))"
proof -
  have "honest fd_log (T, []) t" using assms(2) by (simp add: fd_log_trace)
  from safe_exec(2) [OF assms(1) daemonize_table this] daemonize_forks [OF assms(1)]
  show ?thesis by (simp add: fd_log_trace)
qed

subsection \<open>The services\<close>

text \<open>The ledger in which the event loop starts: two listening sockets and their events.\<close>

definition services :: "int \<Rightarrow> int \<Rightarrow> res set" where
  "services s c =
     {RSet (Local ''ev_cmd'') c [EV_READ, EV_PERSIST] ''accept_cmd'' (Local ''ev_cmd''), RFd c,
      RSet (Local ''ev'') s [EV_READ, EV_PERSIST] ''accept_handler'' (Local ''ev''), RFd s,
      RReg (Local ''ev''), RReg (Local ''ev_cmd'')}"

lemma services_tidy: "s \<noteq> c \<Longrightarrow> tidy echo_event (services s c)"
  by (rule tidyI) (auto simp: services_def pending_def echo_event_def)

lemma start_server_keeps:
  "keeps (start_server port) {} (\<lambda>out H'. out = Exited 1 \<or>
     (out = Value 0 \<and> (\<exists>s c. s \<noteq> c \<and> H' = services s c)))"
  unfolding start_server_def
  by (auto intro!: tcp_server.then_keeps simp: services_def insert_Diff_if) metis

text \<open>
  C9: \<^verbatim>\<open>start_server\<close>, started with nothing held, exits with status 1 or enters the event
  loop with exactly two listening sockets on distinct descriptors, each with its event set
  to the right callback and pending; every call on the way is permitted.
\<close>

theorem start_server_ready:
  assumes "exec (start_server port) out t" and "documented {} t"
  shows "disciplined {} t \<and> (out = Exited 1 \<or>
     (out = Value 0 \<and> (\<exists>s c. s \<noteq> c \<and> held {} t = services s c \<and> tidy echo_event (held {} t))))"
  using keeps_exec [OF start_server_keeps assms] services_tidy by metis

subsection \<open>Both services together\<close>

text \<open>
  With the command service in the loop, the assumption about the environment is that its
  sends and its \<^verbatim>\<open>popen\<close> succeed; without it the ledger is violated
  (\<open>receive_cmd_disciplined_iff\<close>).
\<close>

fun obliging :: "call \<Rightarrow> resp \<Rightarrow> bool" where
  "obliging (Net (Send fd bs)) r = (rv r \<noteq> -1)"
| "obliging (Io (Popen c)) r = (rptr r \<noteq> Null)"
| "obliging _ r = True"

lemma relay_keeps:
  assumes "RFd acc \<in> H" and "RPipe pipe \<in> H" and "length line = 256"
  shows "keeps_if obliging (relay n line pipe acc ev (call (Io (Pclose pipe)) (Ret ()))) H
     (\<lambda>out H'. (out = Value () \<and> H' = H - {RPipe pipe}) \<or> out = Running)"
  using assms(3)
proof (induction n arbitrary: line)
  case (Suc n)
  have l: "length (overlay line (xs @ [0])) = 256" if "length xs < 128" for xs
    using that Suc.prems by simp
  from assms(1,2) Suc.IH [OF l] show ?case
    by (auto simp: Let_def overlay_terminated strlen_c_eq)
qed simp

lemma receive_cmd_keeps:
  assumes "length buf = 512" and "RMem e \<in> H" and "e = Heap n" and "RFd acc \<in> H"
  shows "keeps_if obliging (receive_cmd fuel buf acc event e) H (\<lambda>out H'.
     (out = Value () \<and> (H' = H \<or> H' = dropped e acc H)) \<or> out = Undefined OutOfBounds \<or> out = Running)"
    (is "keeps_if _ _ H ?Q")
proof -
  have drop: "keeps_if obliging (drop_client e acc (Ret ())) H ?Q"
    "keeps_if obliging (drop_client e acc (call (Ev (Event_loopexit Null)) (Ret ()))) H ?Q"
    using assms by (auto intro!: keeps_keeps_if drop_client_keeps)
  have work: "keeps_if obliging (relay fuel (replicate 256 0) p acc e (call (Io (Pclose p)) (Ret ())))
      (insert (RPipe p) H) ?Q" if "RPipe p \<notin> H" for p
    by (rule safe_mono [OF relay_keeps]) (use assms that in auto)
  have message: "keeps_if obliging (need (chomp (overlay buf xs) (length xs)) OutOfBounds (\<lambda>buf.
        syslog ''[client]%s'' [PS (cstr buf)] (
        if streq buf (bytes ''shutdown'')
        then syslog ''shutdown tcpserver'' [] (drop_client e acc
               (call (Ev (Event_loopexit Null)) (Ret ())))
        else
          syslog ''CMD request: %s'' [PS (cstr buf)] (
          Sys (Io (Popen (cstr buf))) (\<lambda>rp.
          let pipe = rptr rp;
              work = relay fuel (replicate 256 0) pipe acc e
                       (call (Io (Pclose pipe)) (Ret ())) in
          if pipe = Null
          then syslog ''popen failed'' [] (drop_client e acc
                 (call (Ev (Event_loopexit Null)) work))
          else work))))) H ?Q" for xs
    by (rule safe_chomp) (use work drop in \<open>auto simp: Let_def\<close>)
  show ?thesis
    unfolding receive_cmd_def using assms(4) drop message work by (auto simp: Let_def)
qed

lemma accept_cmd_keeps:
  assumes "tidy K H" and "RFd soc \<in> H"
  shows "keeps (accept_cmd soc event arg) H (\<lambda>out H'. out = Value () \<and> accepted ''receive_cmd'' H H')"
  unfolding accept_cmd_def accepted_def using assms
  by (auto intro!: safe_mono [OF add_client_keeps] tidy_insert_fd)

definition daemon_callbacks :: callbacks where
  "daemon_callbacks cb fd a =
     (if cb = ''receive_cmd'' then {receive_cmd fuel buf fd [EV_READ] a | fuel buf. length buf = 512}
      else if cb = ''accept_cmd'' then {accept_cmd fd [EV_READ] a}
      else echo_callbacks cb fd a)"

definition daemon_event :: "ptr \<Rightarrow> int \<Rightarrow> evflag list \<Rightarrow> string \<Rightarrow> ptr \<Rightarrow> bool" where
  "daemon_event e fd fl cb a \<longleftrightarrow>
     EV_PERSIST \<in> set fl \<and> (cb \<in> {''recv_handler'', ''receive_cmd''} \<longrightarrow> a = e \<and> (\<exists>n. e = Heap n))"

definition finished :: "(call, unit) outcome \<Rightarrow> bool" where
  "finished out \<longleftrightarrow> out = Value () \<or> out = Undefined OutOfBounds \<or> out = Running"

interpretation daemon: event_loop daemon_callbacks obliging "tidy daemon_event" finished
proof unfold_locales
  fix H e fd fl cb a body
  assume t: "tidy daemon_event H" and r: "RReg e \<in> H" and s: "RSet e fd fl cb a \<in> H"
    and b: "body \<in> daemon_callbacks cb fd a"
  from r s have p: "pending H e fd fl cb a" by (simp add: pending_def)
  from tidyD(4) [OF t p] have fd: "RFd fd \<in> H" and k: "daemon_event e fd fl cb a" by simp_all
  have f: "fired fl e H = H" using k by (simp add: fired_def daemon_event_def)
  have new: "daemon_event (Heap n) c [EV_READ, EV_PERSIST] cb' (Heap n)" for n c cb'
    by (simp add: daemon_event_def)
  let ?Q = "\<lambda>out H'. finished out \<and> (out = Value () \<longrightarrow> tidy daemon_event H')"
  have "keeps_if obliging body H ?Q"
  proof (cases "cb \<in> {''recv_handler'', ''receive_cmd''}")
    case True
    with k obtain n where e: "a = e" "e = Heap n" by (auto simp: daemon_event_def)
    with r tidyD(3) [OF t] have mem: "RMem e \<in> H" by blast
    from True b e consider
        (echo) buf where "body = recv_handler buf fd [EV_READ] e" "length buf = 512"
      | (cmd) fuel buf where "body = receive_cmd fuel buf fd [EV_READ] e" "length buf = 512"
      by (auto simp: daemon_callbacks_def echo_callbacks_def)
    then show ?thesis
    proof cases
      case echo
      with e mem fd t tidy_dropped [OF t p] show ?thesis
        by (auto intro!: keeps_keeps_if safe_mono [OF recv_handler_keeps] simp: finished_def)
    next
      case cmd
      with e mem fd t tidy_dropped [OF t p] show ?thesis
        by (auto intro!: safe_mono [OF receive_cmd_keeps] simp: finished_def)
    qed
  next
    case False
    with b consider (echo) "body = accept_handler fd [EV_READ] a" | (cmd) "body = accept_cmd fd [EV_READ] a"
      by (auto simp: daemon_callbacks_def echo_callbacks_def split: if_splits)
    then show ?thesis
    proof cases
      case echo
      with tidy_accepted [OF t _ new] show ?thesis
        by (auto intro!: keeps_keeps_if safe_mono [OF accept_handler_keeps [OF t fd]] simp: finished_def)
    next
      case cmd
      with tidy_accepted [OF t _ new] show ?thesis
        by (auto intro!: keeps_keeps_if safe_mono [OF accept_cmd_keeps [OF t fd]] simp: finished_def)
    qed
  qed
  then show "keeps_if obliging body (fired fl e H) ?Q" unfolding f .
qed

lemma services_tidy_daemon: "s \<noteq> c \<Longrightarrow> tidy daemon_event (services s c)"
  by (rule tidyI) (auto simp: services_def pending_def daemon_event_def)

text \<open>
  C5: the daemon with both services, from the ledger \<^verbatim>\<open>start_server\<close> enters the loop with:
  as long as sends succeed and commands can be started, every callback that fires in any
  reachable state makes only permitted calls, and ends by returning, by the stray
  terminator of a full buffer, or by running out of relay fuel.
\<close>

theorem daemon_loop_safe:
  assumes "s \<noteq> c" and "looping daemon_callbacks obliging (services s c) H"
    and "turn daemon_callbacks obliging H G out t H'"
  shows "disciplined G t \<and> (out = Value () \<or> out = Undefined OutOfBounds \<or> out = Running)"
  using daemon.loop_safe [OF assms(2) services_tidy_daemon [OF assms(1)] assms(3)]
  by (simp add: finished_def)

subsection \<open>Options\<close>

text \<open>The option loop keeps the last port and remembers the flags.\<close>

lemma daemon_getopt_eq:
  "daemon_getopt os s =
     s\<lparr>d_port := fold (\<lambda>(c, a) p. if c = CHR ''p'' then Some a else p) os (d_port s),
       d_help := d_help s \<or> CHR ''h'' \<in> fst ` set os,
       d_foreground := d_foreground s \<or> CHR ''F'' \<in> fst ` set os\<rparr>"
  by (induction os s rule: daemon_getopt.induct) auto

lemma server_socket_port: "exec (server_socket host port) out t \<Longrightarrow> asked_ports t = [port]"
  by (auto simp: socket_helper_defs split: if_splits)

lemma start_server_ports:
  "exec (start_server port) out t \<Longrightarrow> set (asked_ports t) \<subseteq> {port, ''9999''}"
  unfolding start_server_def
  by (auto simp: exec_andthen split: if_splits dest!: server_socket_port)

lemma daemonize_ports: "exec (daemonize flag) out t \<Longrightarrow> asked_ports t = []"
  by (auto simp: daemonize_def Let_def split: if_splits dest!: exec_close_from)

lemma server_socket_forks: "exec (server_socket host port) out t \<Longrightarrow> forks t = []"
  by (auto simp: socket_helper_defs split: if_splits)

lemma start_server_forks: "exec (start_server port) out t \<Longrightarrow> forks t = []"
  unfolding start_server_def
  by (auto simp: exec_andthen forks_append split: if_splits dest!: server_socket_forks)

lemma start_server_trace:
  "exec (start_server port) out t \<Longrightarrow> set (asked_ports t) \<subseteq> {port, ''9999''} \<and> forks t = []"
  using start_server_ports start_server_forks by blast

text \<open>The port arguments of the options, in order.\<close>

definition port_args :: "(char \<times> string) list \<Rightarrow> string list" where
  "port_args os = map snd (filter (\<lambda>(c, a). c = CHR ''p'') os)"

lemma fold_last_port:
  "fold (\<lambda>(c, a) p. if c = CHR ''p'' then Some a else p) os p0 =
     (if port_args os = [] then p0 else Some (last (port_args os)))"
  by (induction os arbitrary: p0) (auto simp: port_args_def)

text \<open>
  C29: the options decide what \<^verbatim>\<open>main\<close> does: with a help option, or without a port, it
  exits with status 1 having opened nothing; otherwise it only ever asks for the last
  port given and for 9999, and it forks only when not told to stay in the foreground.
\<close>

theorem daemon_main_options:
  assumes "exec (daemon_main argv0 opts) out t"
  shows "if CHR ''h'' \<in> fst ` set opts \<or> port_args opts = []
     then out = Exited 1 \<and> asked_ports t = [] \<and> forks t = []
     else set (asked_ports t) \<subseteq> {last (port_args opts), ''9999''} \<and>
       (CHR ''F'' \<in> fst ` set opts \<longrightarrow> forks t = [])"
  using assms
  by (auto simp: daemon_main_def server_main_def daemon_getopt_eq fold_last_port exec_andthen forks_append Let_def
      split: if_splits dest!: daemonize_ports start_server_trace)

subsection \<open>Witnesses\<close>

definition detach_answers :: "resp list" where
  "detach_answers = rint 0 # replicate 7 resp0 @ rint 5 # replicate 64 resp0 @ rint 0 # replicate 4 resp0"

definition detach_run :: trace where
  "detach_run = snd (run (daemonize 1) detach_answers)"

lemma detach_exec: "exec (daemonize 1) (Value 0) detach_run"
  by (rule run_exec [of _ detach_answers])
    (simp_all add: detach_run_def detach_answers_def daemonize_def MAXFD_def numeral_eq_Suc
      resp0_def Let_def)

theorem daemonize_detaches_witness:
  "detached True (\<lambda>_. None) (end_state fd_table (\<lambda>_. None) detach_run)"
proof -
  have "honest fd_table (\<lambda>_. None) detach_run" "opens detach_run = [(''/dev/null'', 0)]"
    by (simp_all add: detach_run_def detach_answers_def daemonize_def MAXFD_def numeral_eq_Suc
      resp0_def Let_def)
  with daemonize_detaches [OF detach_exec this(1)] show ?thesis by simp
qed

definition server_answers :: "int \<Rightarrow> resp list" where
  "server_answers s = [resp0\<lparr>rptr := Heap 1, rinfos := [lo_info]\<rparr>, rbytes [], resp0, rint s,
     resp0, resp0, resp0, resp0]"

definition start_run :: trace where
  "start_run = snd (run (start_server ''80'')
     ([resp0] @ server_answers 3 @ [resp0, resp0] @ server_answers 4 @ [resp0, resp0, resp0]))"

lemma start_exec: "exec (start_server ''80'') (Value 0) start_run"
  by (rule run_exec [of _ "[resp0] @ server_answers 3 @ [resp0, resp0] @ server_answers 4 @ [resp0, resp0, resp0]"])
    (simp_all add: start_run_def start_server_def socket_helper_defs server_answers_def resp0_def
      lo_info_def)

theorem start_server_ready_witness: "disciplined {} start_run"
proof -
  have "documented {} start_run"
    by (simp add: start_run_def start_server_def socket_helper_defs server_answers_def resp0_def
      lo_info_def)
  from start_server_ready [OF start_exec this] show ?thesis by blast
qed

theorem daemon_main_options_witness:
  "asked_ports (snd (run (daemon_main ''d'' [(CHR ''F'', []), (CHR ''h'', [])])
     (replicate 6 resp0))) = []"
proof -
  have "exec (daemon_main ''d'' [(CHR ''F'', []), (CHR ''h'', [])]) (Exited 1)
     (snd (run (daemon_main ''d'' [(CHR ''F'', []), (CHR ''h'', [])]) (replicate 6 resp0)))"
    by (rule run_exec [of _ "replicate 6 resp0"])
      (simp_all add: daemon_main_def server_main_def Let_def numeral_eq_Suc)
  from daemon_main_options [OF this] show ?thesis by simp
qed

text \<open>The echo listener fires and \<^verbatim>\<open>accept\<close> fails.\<close>

definition refused_run :: trace where
  "refused_run = [(Net (Accept 3), rint (-1)), (Io (Syslog ''accept failed'' []), resp0)]"

theorem daemon_loop_safe_witness: "disciplined (services 3 4) refused_run"
proof -
  have "turn daemon_callbacks obliging (services 3 4) (services 3 4) (Value ()) refused_run
     (held (services 3 4) refused_run)"
  proof (rule turnI)
    show "RReg (Local ''ev'') \<in> services 3 4"
      "RSet (Local ''ev'') 3 [EV_READ, EV_PERSIST] ''accept_handler'' (Local ''ev'') \<in> services 3 4"
      by (simp_all add: services_def)
    show "accept_handler 3 [EV_READ] (Local ''ev'') \<in> daemon_callbacks ''accept_handler'' 3 (Local ''ev'')"
      by (simp add: daemon_callbacks_def echo_callbacks_def)
    show "exec (accept_handler 3 [EV_READ] (Local ''ev'')) (Value ()) refused_run"
      by (simp add: accept_handler_def refused_run_def)
  qed (simp_all add: fired_def refused_run_def)
  from daemon_loop_safe [OF _ loop_start this] show ?thesis by simp
qed

end
