(* ===== verification/Reverse_Server.thy ===== *)
theory Reverse_Server
  imports Daemon
begin

text \<open>
  The reversing line server, \<^verbatim>\<open>src/libevent/server/server.c\<close>.  \<^verbatim>\<open>read_cb\<close> takes up to
  256 bytes from a bufferevent into a zeroed array, removes the line ends, reverses what is
  left in place, puts one CR and one LF back and writes as many bytes as it had read.  The
  array work is modelled step by step on a list of 256 bytes, \<open>None\<close> when an access leaves
  it; the theorems give its result on every message without NUL bytes.
\<close>

subsection \<open>Array operations\<close>

text \<open>\<^verbatim>\<open>strchr(buffer, c)\<close>: the index of the first \<open>c\<close> in front of the first NUL.\<close>

fun strchr_c :: "byte list \<Rightarrow> byte \<Rightarrow> nat option option" where
  "strchr_c [] c = None"
| "strchr_c (x # xs) c =
     (if x = c then Some (Some 0)
      else if x = 0 then Some None
      else map_option (map_option Suc) (strchr_c xs c))"

text \<open>\<^verbatim>\<open>memmove(p, p + 1, strlen(p))\<close> for \<^verbatim>\<open>p = buffer + i\<close>.\<close>

definition close_gap :: "byte list \<Rightarrow> nat \<Rightarrow> byte list option" where
  "close_gap b i =
     (case strlen_c (drop i b) of
        None \<Rightarrow> None
      | Some m \<Rightarrow> Some (take i b @ take m (drop (Suc i) b) @ drop (i + m) b))"

text \<open>One of the two loops that remove a character, with the count of removals.\<close>

function strip_loop :: "byte \<Rightarrow> byte list \<Rightarrow> nat \<Rightarrow> (byte list \<times> nat) option" where
  "strip_loop c b cnt =
     (if c = 0 then None
      else case strchr_c b c of
        None \<Rightarrow> None
      | Some None \<Rightarrow> Some (b, cnt)
      | Some (Some i) \<Rightarrow>
          (case close_gap b i of None \<Rightarrow> None | Some b' \<Rightarrow> strip_loop c b' (Suc cnt)))"
  by pat_completeness auto

text \<open>A hit splits the C string around the character; closing the gap drops it.\<close>

lemma strchr_c_Some:
  "strchr_c b c = Some (Some i) \<Longrightarrow> c \<noteq> 0 \<Longrightarrow>
   \<exists>xs ys. b = xs @ c # ys \<and> i = length xs \<and> c \<notin> set xs \<and> 0 \<notin> set xs"
proof (induction b arbitrary: i)
  case (Cons x b)
  show ?case
  proof (cases "x = c")
    case True
    with Cons.prems show ?thesis by (intro exI [of _ "[]"] exI [of _ b]) auto
  next
    case False
    with Cons.prems obtain j where "strchr_c b c = Some (Some j)" "i = Suc j" "x \<noteq> 0"
      by (auto split: if_splits)
    with Cons.IH Cons.prems(2) obtain xs ys where "b = xs @ c # ys" "j = length xs" "c \<notin> set xs" "0 \<notin> set xs"
      by blast
    with False \<open>i = Suc j\<close> \<open>x \<noteq> 0\<close> show ?thesis by (intro exI [of _ "x # xs"] exI [of _ ys]) auto
  qed
qed simp

lemma strchr_c_hit: "c \<notin> set xs \<Longrightarrow> 0 \<notin> set xs \<Longrightarrow> strchr_c (xs @ c # ys) c = Some (Some (length xs))"
  by (induction xs) auto

lemma strchr_c_miss: "c \<notin> set xs \<Longrightarrow> 0 \<notin> set xs \<Longrightarrow> c \<noteq> 0 \<Longrightarrow> strchr_c (xs @ 0 # ys) c = Some None"
  by (induction xs) auto

lemma close_gap_eq:
  assumes "0 \<notin> set ys" and "c \<noteq> 0"
  shows "close_gap (xs @ c # ys @ 0 # zs) (length xs) = Some (xs @ ys @ 0 # 0 # zs)"
proof -
  have "strlen_c (c # ys @ 0 # zs) = Some (Suc (length ys))"
    using assms by (simp add: strlen_c_eq)
  then show ?thesis by (simp add: close_gap_def)
qed

lemma close_gap_Some:
  assumes "close_gap b i = Some b'" and "b = xs @ c # ys" and "i = length xs" and "c \<noteq> 0" and "0 \<notin> set xs"
  shows "length (cstr b') < length (cstr b)"
proof -
  from assms have t: "terminated (c # ys)" by (auto simp: close_gap_def strlen_c_eq split: if_splits)
  with assms(4) have "terminated ys" by simp
  then obtain zs where ys: "ys = cstr ys @ 0 # zs" by (rule terminated_split)
  have "b' = xs @ cstr ys @ 0 # 0 # zs"
    using close_gap_eq [of "cstr ys" c xs zs] assms(1-4) ys by simp
  moreover have "cstr b = xs @ c # cstr ys"
    using assms(2,4,5) by (simp add: cstr_append)
  ultimately show ?thesis using assms(5) by (simp add: cstr_append)
qed

termination strip_loop
proof (relation "measure (\<lambda>(c, b, cnt). length (cstr b))", goal_cases)
  case (2 c b cnt hit i b')
  then obtain xs ys where "b = xs @ c # ys" "i = length xs" "0 \<notin> set xs"
    using strchr_c_Some [of b c i] by auto
  with 2 show ?case using close_gap_Some by simp
qed simp

declare strip_loop.simps [simp del]

lemma strip_loop_eq:
  assumes "0 \<notin> set xs" and "c \<noteq> 0"
  shows "strip_loop c (xs @ replicate (Suc m) 0) cnt =
     Some (filter (\<lambda>x. x \<noteq> c) xs @ replicate (Suc m + count_list xs c) 0, cnt + count_list xs c)"
  using assms
proof (induction "count_list xs c" arbitrary: xs m cnt)
  case 0
  then have "c \<notin> set xs" by (simp add: count_list_0_iff)
  moreover from this have "filter (\<lambda>x. x \<noteq> c) xs = xs" by (intro filter_True) auto
  ultimately show ?case
    using 0 by (subst strip_loop.simps) (simp add: strchr_c_miss)
next
  case (Suc n)
  from Suc.hyps(2) have "c \<in> set xs" by (metis count_notin nat.distinct(1))
  then obtain ys zs where xs: "xs = ys @ c # zs" and c: "c \<notin> set ys" by (meson split_list_first)
  from Suc.hyps(2) xs c have n: "n = count_list (ys @ zs) c" by simp
  have gap: "close_gap (ys @ c # zs @ 0 # replicate m 0) (length ys) = Some (ys @ zs @ 0 # 0 # replicate m 0)"
    using Suc.prems xs by (intro close_gap_eq) auto
  have "strip_loop c ((ys @ zs) @ replicate (Suc (Suc m)) 0) (Suc cnt) =
     Some (filter (\<lambda>x. x \<noteq> c) (ys @ zs) @ replicate (Suc (Suc m) + count_list (ys @ zs) c) 0,
           Suc cnt + count_list (ys @ zs) c)"
    using Suc.hyps(1) [OF n, of "Suc m" "Suc cnt"] Suc.prems xs n by simp
  with gap c Suc.prems xs show ?case
    by (subst strip_loop.simps) (simp add: strchr_c_hit)
qed

text \<open>\<^verbatim>\<open>for(i = 0; i < m / 2; i++)\<close> swapping \<^verbatim>\<open>buffer[i]\<close> and \<^verbatim>\<open>buffer[m - 1 - i]\<close>.\<close>

function swap_loop :: "byte list \<Rightarrow> nat \<Rightarrow> nat \<Rightarrow> byte list option" where
  "swap_loop b i m =
     (if i < m div 2
      then if m - 1 - i < length b
           then swap_loop (b[i := b ! (m - 1 - i), m - 1 - i := b ! i]) (Suc i) m
           else None
      else Some b)"
  by pat_completeness auto
termination by (relation "measure (\<lambda>(b, i, m). m div 2 - i)") auto

declare swap_loop.simps [simp del]

text \<open>After \<open>i\<close> rounds the outer \<open>i\<close> places on both sides are exchanged.\<close>

definition exchanged :: "byte list \<Rightarrow> nat \<Rightarrow> nat \<Rightarrow> byte list" where
  "exchanged b i m =
     map (\<lambda>j. if j < m \<and> (j < i \<or> m \<le> j + i) then b ! (m - 1 - j) else b ! j) [0..<length b]"

lemma exchanged_step:
  assumes "i < m div 2" and "m \<le> length b"
  shows "(exchanged b i m)[i := exchanged b i m ! (m - 1 - i), m - 1 - i := exchanged b i m ! i]
     = exchanged b (Suc i) m"
proof (rule nth_equalityI)
  fix j assume "j < length ((exchanged b i m)[i := exchanged b i m ! (m - 1 - i),
      m - 1 - i := exchanged b i m ! i])"
  then have "j < length b" by (simp add: exchanged_def)
  with assms show "(exchanged b i m)[i := exchanged b i m ! (m - 1 - i),
      m - 1 - i := exchanged b i m ! i] ! j = exchanged b (Suc i) m ! j"
    by (auto simp: exchanged_def nth_list_update)
qed (simp add: exchanged_def)

lemma exchanged_0: "exchanged b 0 m = b"
  by (rule nth_equalityI) (auto simp: exchanged_def)

lemma exchanged_half:
  assumes "m div 2 \<le> i" and "m \<le> length b"
  shows "exchanged b i m = rev (take m b) @ drop m b"
proof (rule nth_equalityI)
  fix j assume "j < length (exchanged b i m)"
  then have "j < length b" by (simp add: exchanged_def)
  moreover have "m - 1 - j = j" if "j < m" "\<not> j < i" "\<not> m \<le> j + i" using that assms(1) by linarith
  ultimately show "exchanged b i m ! j = (rev (take m b) @ drop m b) ! j"
    using assms(2) by (auto simp: exchanged_def nth_append rev_nth)
qed (use assms(2) in \<open>simp add: exchanged_def\<close>)

lemma swap_loop_from:
  "m \<le> length b \<Longrightarrow> swap_loop (exchanged b i m) i m = Some (rev (take m b) @ drop m b)"
proof (induction "m div 2 - i" arbitrary: i)
  case 0
  then show ?case by (subst swap_loop.simps) (simp add: exchanged_half)
next
  case (Suc k)
  then have i: "i < m div 2" by simp
  from Suc.hyps(1) [of "Suc i"] Suc.hyps(2) Suc.prems i exchanged_step [OF i Suc.prems]
  show ?case by (subst swap_loop.simps) (auto simp: exchanged_def)
qed

lemma swap_loop_eq: "m \<le> length b \<Longrightarrow> swap_loop b 0 m = Some (rev (take m b) @ drop m b)"
  using swap_loop_from [of m b 0] by (simp add: exchanged_0)

text \<open>\<^verbatim>\<open>buffer[strlen(buffer)] = c; buffer[strlen(buffer) + 1] = 0;\<close>\<close>

definition put_back :: "byte \<Rightarrow> byte list \<Rightarrow> byte list option" where
  "put_back c b =
     (case strlen_c b of
        None \<Rightarrow> None
      | Some s \<Rightarrow>
          (let b1 = b[s := c] in
           case strlen_c b1 of
             None \<Rightarrow> None
           | Some s1 \<Rightarrow> if Suc s1 < length b1 then Some (b1[Suc s1 := 0]) else None))"

lemma put_back_eq:
  assumes "0 \<notin> set xs" and "c \<noteq> 0"
  shows "put_back c (xs @ replicate k 0) =
     (if 3 \<le> k then Some ((xs @ [c]) @ replicate (k - 1) 0) else None)"
proof -
  consider "k = 0" | "k = 1" | "k = 2" | m where "k = Suc (Suc (Suc m))"
    by (metis One_nat_def Suc_1 not0_implies_Suc)
  then show ?thesis
  proof cases
    case 4
    have "(xs @ c # 0 # 0 # replicate m 0)[Suc (Suc (length xs)) := 0] = xs @ c # 0 # 0 # replicate m 0"
      by (simp add: list_update_append)
    with 4 assms show ?thesis by (simp add: put_back_def strlen_c_eq cstr_append)
  qed (use assms in \<open>simp_all add: put_back_def strlen_c_eq cstr_append cstr_id terminated_def
      numeral_2_eq_2\<close>)
qed

subsection \<open>The read callback\<close>

text \<open>The body of the loop for one chunk, up to the bytes it writes.\<close>

definition reverse_message :: "byte list \<Rightarrow> byte list option" where
  "reverse_message xs =
     (let n = length xs; b = overlay (replicate 256 0) xs in
      case strlen_c b of None \<Rightarrow> None | Some len \<Rightarrow>
      (let has_null = (if len \<noteq> n then 1 else 0) in
      case strip_loop LF b 0 of None \<Rightarrow> None | Some (b, lf) \<Rightarrow>
      case strip_loop CR b 0 of None \<Rightarrow> None | Some (b, cr) \<Rightarrow>
      (let len_ctrl = cr + lf + has_null in
      case swap_loop b 0 (n - len_ctrl) of None \<Rightarrow> None | Some b \<Rightarrow>
      case (if cr \<noteq> 0 then put_back CR b else Some b) of None \<Rightarrow> None | Some b \<Rightarrow>
      case (if lf \<noteq> 0 then put_back LF b else Some b) of None \<Rightarrow> None | Some b \<Rightarrow>
      Some (take n b))))"

text \<open>What a message without NUL bytes should give: the text reversed, its line end kept.\<close>

definition body_of :: "byte list \<Rightarrow> byte list" where
  "body_of xs = filter (\<lambda>x. x \<noteq> CR \<and> x \<noteq> LF) xs"

definition line_end :: "byte list \<Rightarrow> byte list" where
  "line_end xs = (if CR \<in> set xs then [CR] else []) @ (if LF \<in> set xs then [LF] else [])"

lemma body_count:
  "length (body_of xs) + (count_list xs CR + count_list xs LF) = length xs"
  by (induction xs) (auto simp: body_of_def)

lemma count_pos: "c \<in> set xs \<Longrightarrow> 0 < count_list xs c"
  by (metis count_list_0_iff gr0I)

lemma line_end_le: "length (line_end xs) \<le> count_list xs CR + count_list xs LF"
  using count_pos [of CR xs] count_pos [of LF xs] by (auto simp: line_end_def)

text \<open>The two removal loops on a message, with or without one NUL at its end.\<close>

lemma strip_both:
  assumes "0 \<notin> set xs" and "length xs < 256"
  shows "strip_loop LF (xs @ replicate (256 - length xs) 0) 0 =
      Some (filter (\<lambda>x. x \<noteq> LF) xs @ replicate (256 - length xs + count_list xs LF) 0, count_list xs LF)"
    and "strip_loop CR (filter (\<lambda>x. x \<noteq> LF) xs @ replicate (256 - length xs + count_list xs LF) 0) 0 =
      Some (body_of xs @ replicate (256 - length (body_of xs)) 0, count_list xs CR)"
proof -
  obtain m where m: "256 - length xs = Suc m" using assms(2) by (cases "256 - length xs") auto
  show "strip_loop LF (xs @ replicate (256 - length xs) 0) 0 =
      Some (filter (\<lambda>x. x \<noteq> LF) xs @ replicate (256 - length xs + count_list xs LF) 0, count_list xs LF)"
    unfolding m using strip_loop_eq [OF assms(1), of LF m 0] by simp
  have c: "count_list (filter (\<lambda>x. x \<noteq> LF) xs) CR = count_list xs CR" by (induction xs) auto
  have b: "filter (\<lambda>x. x \<noteq> CR) (filter (\<lambda>x. x \<noteq> LF) xs) = body_of xs"
    by (simp add: body_of_def conj_commute)
  have l: "Suc (m + count_list xs LF) + count_list xs CR = 256 - length (body_of xs)"
    using m body_count [of xs] assms(2) by linarith
  have "0 \<notin> set (filter (\<lambda>x. x \<noteq> LF) xs)" using assms(1) by simp
  from strip_loop_eq [OF this, of CR "m + count_list xs LF" 0]
  have "strip_loop CR (filter (\<lambda>x. x \<noteq> LF) xs @ replicate (Suc (m + count_list xs LF)) 0) 0 =
      Some (body_of xs @ replicate (256 - length (body_of xs)) 0, count_list xs CR)"
    unfolding c b l by simp
  then show "strip_loop CR (filter (\<lambda>x. x \<noteq> LF) xs @ replicate (256 - length xs + count_list xs LF) 0) 0 =
      Some (body_of xs @ replicate (256 - length (body_of xs)) 0, count_list xs CR)"
    unfolding m add_Suc .
qed

text \<open>Putting the line end back behind the reversed text.\<close>

lemma put_back_both:
  assumes "0 \<notin> set xs" and "length xs < 256"
  shows "(case (if count_list xs CR \<noteq> 0 then put_back CR (rev (body_of xs) @ replicate (256 - length (body_of xs)) 0)
           else Some (rev (body_of xs) @ replicate (256 - length (body_of xs)) 0)) of
          None \<Rightarrow> None
        | Some b \<Rightarrow> (if count_list xs LF \<noteq> 0 then put_back LF b else Some b)) =
     (if line_end xs \<noteq> [] \<and> 255 \<le> length (body_of xs) + length (line_end xs) then None
      else Some (rev (body_of xs) @ line_end xs @
             replicate (256 - length (body_of xs) - length (line_end xs)) 0))"
proof -
  let ?b = "body_of xs"
  have nz: "0 \<notin> set (rev ?b)" using assms(1) by (auto simp: body_of_def)
  have cr: "count_list xs CR \<noteq> 0 \<longleftrightarrow> CR \<in> set xs" and lf: "count_list xs LF \<noteq> 0 \<longleftrightarrow> LF \<in> set xs"
    by (simp_all add: count_list_0_iff)
  have le: "length ?b \<le> 255" using body_count [of xs] assms(2) by linarith
  have nzc: "0 \<notin> set (rev ?b @ [CR])" using nz by simp
  show ?thesis
    unfolding cr lf
    using le put_back_eq [OF nz, of CR "256 - length ?b"] put_back_eq [OF nz, of LF "256 - length ?b"]
      put_back_eq [OF nzc, of LF "255 - length ?b"]
    by (auto simp: line_end_def)
qed

lemma bind_take:
  "(case A of None \<Rightarrow> None | Some b \<Rightarrow> case B b of None \<Rightarrow> None | Some b \<Rightarrow> Some (f b)) =
   map_option f (case A of None \<Rightarrow> None | Some b \<Rightarrow> B b)"
  by (simp split: option.split)

lemma reverse_message_plain:
  assumes "0 \<notin> set xs" and "length xs + z < 256" and "z \<le> 1"
  shows "reverse_message (xs @ replicate z 0) =
     (if line_end xs \<noteq> [] \<and> 255 \<le> length (body_of xs) + length (line_end xs) then None
      else Some (take (length xs + z) (rev (body_of xs) @ line_end xs @
             replicate (256 - length (body_of xs) - length (line_end xs)) 0)))"
proof -
  have len: "length xs < 256" using assms(2) by simp
  have split: "256 - length xs = z + (256 - (length xs + z))" using assms(2) by simp
  have b: "overlay (replicate 256 0) (xs @ replicate z 0) = xs @ replicate (256 - length xs) 0"
    unfolding split replicate_add by (simp add: overlay_def)
  have "terminated (xs @ replicate (256 - length xs) 0)" using len by (simp add: terminated_def)
  then have sl: "strlen_c (xs @ replicate (256 - length xs) 0) = Some (length xs)"
    using assms(1) len by (simp add: strlen_c_eq cstr_append) (cases "256 - length xs"; simp)
  have ctrl: "length xs + z - (count_list xs CR + count_list xs LF +
      (if length xs \<noteq> length xs + z then 1 else 0)) = length (body_of xs)"
    using body_count [of xs] assms(3) by auto
  have sw: "swap_loop (body_of xs @ replicate (256 - length (body_of xs)) 0) 0 (length (body_of xs)) =
      Some (rev (body_of xs) @ replicate (256 - length (body_of xs)) 0)"
    by (simp add: swap_loop_eq)
  define A where "A = (if count_list xs CR \<noteq> 0
     then put_back CR (rev (body_of xs) @ replicate (256 - length (body_of xs)) 0)
     else Some (rev (body_of xs) @ replicate (256 - length (body_of xs)) 0))"
  define B where "B = (\<lambda>b. if count_list xs LF \<noteq> 0 then put_back LF b else Some b)"
  have "reverse_message (xs @ replicate z 0) =
     (case A of None \<Rightarrow> None | Some b \<Rightarrow> case B b of None \<Rightarrow> None | Some b \<Rightarrow> Some (take (length xs + z) b))"
    unfolding reverse_message_def Let_def b sl strip_both [OF assms(1) len] option.case prod.case
      length_append length_replicate ctrl sw A_def B_def ..
  also have "\<dots> = map_option (take (length xs + z)) (case A of None \<Rightarrow> None | Some b \<Rightarrow> B b)"
    by (rule bind_take)
  also have "(case A of None \<Rightarrow> None | Some b \<Rightarrow> B b) =
     (if line_end xs \<noteq> [] \<and> 255 \<le> length (body_of xs) + length (line_end xs) then None
      else Some (rev (body_of xs) @ line_end xs @
             replicate (256 - length (body_of xs) - length (line_end xs)) 0))"
    unfolding A_def B_def by (rule put_back_both [OF assms(1) len])
  finally show ?thesis by (simp only: if_distrib [of "map_option _"] option.map)
qed

subsection \<open>Callbacks\<close>

text \<open>What is kept for a connection.\<close>

record userdata =
  ip_str :: "byte list"
  port :: int

text \<open>\<^verbatim>\<open>ntohs\<close> of a port stored in network byte order.\<close>

fun ntohs :: "byte list \<Rightarrow> int" where
  "ntohs [hi, lo] = 256 * uint hi + uint lo"
| "ntohs _ = 0"

text \<open>
  \<^verbatim>\<open>get_addr_and_port\<close>, on the bytes of a socket address in the layout of Linux: a
  16-bit family (2 is \<^verbatim>\<open>AF_INET\<close>, 10 is \<^verbatim>\<open>AF_INET6\<close>), the port, then the address, which
  for IPv6 comes after four bytes of flow information.
\<close>

definition get_addr_and_port :: "byte list \<Rightarrow> (byte list \<Rightarrow> int \<Rightarrow> 'a cprog) \<Rightarrow> 'a cprog" where
  "get_addr_and_port sa k =
     (if take 2 sa = [2, 0]
      then Sys (Net (Inet_ntop AF_INET (take 4 (drop 4 sa)))) (\<lambda>r.
           k (rdat r) (ntohs (take 2 (drop 2 sa))))
      else if take 2 sa = [10, 0]
      then Sys (Net (Inet_ntop AF_INET6 (take 16 (drop 8 sa)))) (\<lambda>r.
           k (rdat r) (ntohs (take 2 (drop 2 sa))))
      else k (bytes ''Unknown AF'') (-1))"

text \<open>
  \<^verbatim>\<open>read_cb\<close>: it reads until nothing is left; the debug message prints the array as a
  string.
\<close>

primrec read_cb :: "nat \<Rightarrow> ptr \<Rightarrow> userdata \<Rightarrow> unit cprog" where
  "read_cb 0 bev data = Spin"
| "read_cb (Suc fuel) bev data =
     Sys (Bev (Bufferevent_read bev 256)) (\<lambda>r.
     if rv r \<le> 0 then Ret ()
     else
       need (strlen_c (overlay (replicate 256 0) (rdat r))) OutOfBounds (\<lambda>_.
       oprintf ''DEBUB: from %s:%d, %s'' [PS (ip_str data), PI (port data), PS (cstr (rdat r))] (
       need (reverse_message (rdat r)) OutOfBounds (\<lambda>out.
       call (Bev (Bufferevent_write bev out)) (read_cb fuel bev data)))))"

definition event_cb :: "ptr \<Rightarrow> bufevent list \<Rightarrow> ptr \<Rightarrow> unit cprog" where
  "event_cb bev events data =
     (let eof = BEV_EVENT_EOF \<in> set events; err = BEV_EVENT_ERROR \<in> set events;
          finish = (if eof \<or> err
            then call (Proc (Free data)) (call (Bev (Bufferevent_free bev)) (Ret ()))
            else Ret ());
          second = (if err then perror ''BEV_EVENT_ERROR'' finish else finish) in
      if eof then perror ''BEV_EVENT_EOF'' second else second)"

definition accept_cb :: "int \<Rightarrow> evflag list \<Rightarrow> ptr \<Rightarrow> unit cprog" where
  "accept_cb soc event base =
     Sys (Proc Malloc) (\<lambda>rm.
     Sys (Net (Accept soc)) (\<lambda>ra.
     if rv ra < 0 then perror ''accept'' (Ret ())
     else
       get_addr_and_port (raddr ra) (\<lambda>ip prt.
       eprintf ''DEBUG: accept from %s:%d'' [PS ip, PI prt] (
       if rptr rm = Null then Fault NullPointer
       else
         Sys (Bev (Bufferevent_socket_new base (rv ra))) (\<lambda>rb.
         call (Bev (Bufferevent_setcb (rptr rb) ''read_cb'' [] ''event_cb'' (rptr rm))) (
         call (Bev (Bufferevent_enable (rptr rb) [EV_READ, EV_WRITE])) (Ret ())))))))"

subsection \<open>Starting the server\<close>

text \<open>\<^verbatim>\<open>signal_handler\<close>, \<^verbatim>\<open>daemonize\<close> and \<^verbatim>\<open>main\<close> are the daemon's, line for line.\<close>

definition rev_signal_handler :: "signum \<Rightarrow> unit cprog" where
  "rev_signal_handler = signal_handler"

definition rev_daemonize :: "int \<Rightarrow> int cprog" where
  "rev_daemonize = daemonize"

definition rev_start_server :: "string \<Rightarrow> int cprog" where
  "rev_start_server prt =
     Sys (Ev Event_base_new) (\<lambda>rbase.
     if rptr rbase = Null then syslog ''event_base_new failed'' [] (Exit 1)
     else
       resolve (Some ''localhost'') prt SOCK_STREAM True ''addr=%s, port=%s'' (Ret (-1)) (\<lambda>p info.
       Sys (Net (Socket (ai_family info) (ai_socktype info) (ai_protocol info))) (\<lambda>rs.
       let soc = rv rs in
       if soc < 0 then syslog ''socket failed'' [] (call (Net (Freeaddrinfo p)) (Exit 1))
       else
         Sys (Net (Setsockopt soc SO_REUSEADDR (OInt 1))) (\<lambda>r.
         if rv r = -1
         then perror ''setsockopt'' (close_fd soc (call (Net (Freeaddrinfo p)) (Ret (-1))))
         else
           Sys (Net (Bind soc (ai_addr info))) (\<lambda>r.
           if rv r < 0
           then perror ''bind'' (close_fd soc (call (Net (Freeaddrinfo p)) (Ret (-1))))
           else
             Sys (Net (Listen soc)) (\<lambda>r.
             if rv r < 0 then perror ''listen'' (Ret (-1))
             else
               Sys (Ev (Event_new (rptr rbase) soc [EV_READ, EV_PERSIST] ''accept_cb'' (rptr rbase))) (\<lambda>re.
               Sys (Ev (Event_add (rptr re))) (\<lambda>r.
               if rv r \<noteq> 0 then syslog ''event_add failed'' [] (close_fd soc (Exit 1))
               else call (Ev (Event_dispatch (rptr rbase))) (Ret 0)))))))))"

definition rev_main :: "string \<Rightarrow> (char \<times> string) list \<Rightarrow> int cprog" where
  "rev_main = server_main rev_start_server"

subsection \<open>What the callbacks do\<close>

text \<open>The chunks read and the bytes written in a trace.\<close>

fun chunks :: "trace \<Rightarrow> byte list list" where
  "chunks [] = []"
| "chunks ((Bev (Bufferevent_read b n), r) # t) = (if rv r \<le> 0 then chunks t else rdat r # chunks t)"
| "chunks (_ # t) = chunks t"

fun written :: "trace \<Rightarrow> byte list list" where
  "written [] = []"
| "written ((Bev (Bufferevent_write b xs), r) # t) = xs # written t"
| "written (_ # t) = written t"

text \<open>The answer to a message that fits: its text reversed, its line end in order, NULs up to its length.\<close>

definition reversed :: "byte list \<Rightarrow> byte list" where
  "reversed xs = rev (body_of xs) @ line_end xs @
     replicate (length xs - length (body_of xs) - length (line_end xs)) 0"

lemma length_reversed: "length (reversed xs) = length xs"
  using body_count [of xs] line_end_le [of xs] by (simp add: reversed_def)

definition fits :: "byte list \<Rightarrow> bool" where
  "fits xs \<longleftrightarrow> 0 \<notin> set xs \<and> length xs < 256 \<and>
     (line_end xs = [] \<or> length (body_of xs) + length (line_end xs) < 255)"

lemma reverse_message_fits: "fits xs \<Longrightarrow> reverse_message xs = Some (reversed xs)"
  using reverse_message_plain [of xs 0] body_count [of xs] line_end_le [of xs]
  by (auto simp: fits_def reversed_def)

lemma fits_strlen: "fits xs \<Longrightarrow> strlen_c (overlay (replicate 256 0) xs) \<noteq> None"
  by (auto simp: fits_def strlen_c_eq overlay_def terminated_def)

text \<open>
  C3: what \<^verbatim>\<open>read_cb\<close> makes of one message without NUL bytes, with or without a
  terminating NUL.  Up to 255 bytes it gives the text reversed in front of one CR if there
  was one and one LF if there was one, padded with NULs to the length read; but if the
  text with its line end takes 255 bytes or more, the terminator is stored behind the array.
\<close>

theorem reverse_message_exact:
  assumes "0 \<notin> set xs" and "length xs + z < 256" and "z \<le> 1"
  shows "reverse_message (xs @ replicate z 0) =
     (if line_end xs \<noteq> [] \<and> 255 \<le> length (body_of xs) + length (line_end xs) then None
      else Some (reversed xs @ replicate z 0))"
proof -
  have le: "length (body_of xs) + length (line_end xs) \<le> length xs"
    using body_count [of xs] line_end_le [of xs] by linarith
  have pad: "take (length xs + z) (rev (body_of xs) @ line_end xs @
       replicate (256 - length (body_of xs) - length (line_end xs)) 0) = reversed xs @ replicate z 0"
  proof -
    have "min (length xs + z - length (body_of xs) - length (line_end xs))
        (256 - length (body_of xs) - length (line_end xs)) =
        (length xs - length (body_of xs) - length (line_end xs)) + z"
      using le assms(2) by linarith
    then have "take (length xs + z - length (body_of xs) - length (line_end xs))
        (replicate (256 - length (body_of xs) - length (line_end xs)) 0) =
        replicate (length xs - length (body_of xs) - length (line_end xs)) 0 @ replicate z (0 :: byte)"
      by (simp only: take_replicate replicate_add [symmetric])
    then show ?thesis using le by (simp add: reversed_def)
  qed
  show ?thesis using reverse_message_plain [OF assms] pad by (simp only:)
qed

text \<open>
  C4: a run of \<^verbatim>\<open>read_cb\<close> over messages that fit answers each chunk it read with that
  chunk reversed, in order, and returns unless it read as many chunks as it has fuel.
\<close>

theorem read_cb_reverses:
  assumes "exec (read_cb fuel bev data) out t" and "posix t" and "\<forall>xs \<in> set (chunks t). fits xs"
  shows "written t = map reversed (chunks t) \<and>
     (if length (chunks t) < fuel then out = Value () else out = Running)"
  using assms
proof (induction fuel arbitrary: t)
  case (Suc fuel)
  then show ?case
    using reverse_message_fits fits_strlen
    by (fastforce split: if_splits simp: need_def)
qed simp

subsection \<open>Resources\<close>

text \<open>
  A finished connection gives back its data and its bufferevent; a new one takes exactly
  these, provided the two allocations succeed.
\<close>

lemma event_cb_keeps:
  assumes "RMem data \<in> H" and "RBev bev \<in> H" and "RReg data \<notin> H"
  shows "keeps (event_cb bev events data) H (\<lambda>out H'. out = Value () \<and>
     H' = (if BEV_EVENT_EOF \<in> set events \<or> BEV_EVENT_ERROR \<in> set events
           then H - insert (RMem data) (settings data) - {RBev bev} else H))"
  using assms by (auto simp: event_cb_def Let_def)

lemma accept_cb_keeps:
  assumes "RFd soc \<in> H"
  shows "keeps_if allocating (accept_cb soc event base) H (\<lambda>out H'. out = Value () \<and>
     (\<exists>d. RMem d \<notin> H \<and>
        (H' = insert (RMem d) H \<or> (\<exists>b. RBev b \<notin> H \<and> H' = insert (RMem d) (insert (RBev b) H)))))"
  using assms
  by (auto simp: accept_cb_def get_addr_and_port_def allocating_def insert_Diff_if)

lemma rev_start_server_keeps:
  "keeps_if allocating (rev_start_server prt) {} (\<lambda>out H'.
     out = Exited 1
   \<or> (out = Value (-1) \<and> (H' = {} \<or> (\<exists>s p. H' = {RFd s, RInfo p})))
   \<or> (out = Value 0 \<and> (\<exists>s p e base. H' =
        {RReg e, RMem e, RSet e s [EV_READ, EV_PERSIST] ''accept_cb'' base, RFd s, RInfo p})))"
  by (auto simp: rev_start_server_def resolve_def first_info_def Let_def allocating_def
      insert_Diff_if live_RMem)

text \<open>
  When its allocations succeed, the server's \<^verbatim>\<open>start_server\<close> makes only permitted
  calls; it exits with 1, or fails with -1 holding nothing or (after a failed
  \<^verbatim>\<open>listen\<close>) the socket and the address list, or enters its loop holding the listening
  socket with its event, and the address list, which is never freed.
\<close>

theorem rev_start_server_outcomes:
  assumes "exec (rev_start_server prt) out t" and "documented {} t" and "admitted allocating t"
  shows "disciplined {} t \<and>
     (out = Exited 1
      \<or> (out = Value (-1) \<and> (held {} t = {} \<or> (\<exists>s p. held {} t = {RFd s, RInfo p})))
      \<or> (out = Value 0 \<and> (\<exists>s p e base. held {} t =
           {RReg e, RMem e, RSet e s [EV_READ, EV_PERSIST] ''accept_cb'' base, RFd s, RInfo p})))"
  using keeps_if_exec [OF rev_start_server_keeps assms] .

subsection \<open>Witnesses\<close>

theorem reverse_message_exact_witness:
  "reverse_message ([97, 98, CR, LF] @ replicate 1 0) = Some [98, 97, CR, LF, 0]
   \<and> reverse_message (replicate 254 97 @ [LF] @ replicate 0 0) = None"
proof -
  have "reverse_message ([97, 98, CR, LF] @ replicate 1 0) = Some (reversed [97, 98, CR, LF] @ replicate 1 0)"
    using reverse_message_exact [of "[97, 98, CR, LF]" 1] by (simp add: body_of_def line_end_def)
  then have "reverse_message ([97, 98, CR, LF] @ replicate 1 0) = Some [98, 97, CR, LF, 0]"
    by (simp add: reversed_def body_of_def line_end_def)
  moreover have "reverse_message ((replicate 254 97 @ [LF]) @ replicate 0 0) = None"
    using reverse_message_exact [of "replicate 254 97 @ [LF]" 0] by (simp add: body_of_def line_end_def)
  ultimately show ?thesis by simp
qed

definition rev_data :: userdata where
  "rev_data = \<lparr>ip_str = bytes ''::1'', port = 9\<rparr>"

definition rev_run :: trace where
  "rev_run = [(Bev (Bufferevent_read (Heap 2) 256), rbytes [97, 98, LF]),
     (Io (Fprintf Stdout ''DEBUB: from %s:%d, %s'' [PS (bytes ''::1''), PI 9, PS [97, 98, LF]]), resp0),
     (Bev (Bufferevent_write (Heap 2) [98, 97, LF]), resp0),
     (Bev (Bufferevent_read (Heap 2) 256), resp0)]"

theorem read_cb_reverses_witness: "written rev_run = [reversed [97, 98, LF]]"
proof -
  have fit: "fits [97, 98, LF]" by (simp add: fits_def body_of_def line_end_def)
  obtain n where n: "strlen_c (overlay (replicate 256 0) [97, 98, LF]) = Some n"
    using fits_strlen [OF fit] by blast
  have r: "reverse_message [97, 98, LF] = Some [98, 97, LF]"
    using reverse_message_fits [OF fit] by (simp add: reversed_def body_of_def line_end_def)
  have "exec (read_cb (Suc (Suc 0)) (Heap 2) rev_data) (Value ()) rev_run"
    by (simp add: rev_run_def rev_data_def resp0_def n r)
  moreover have "posix rev_run" by (simp add: rev_run_def resp0_def)
  moreover have "chunks rev_run = [[97, 98, LF]]" by (simp add: rev_run_def resp0_def)
  ultimately show ?thesis using read_cb_reverses [of "Suc (Suc 0)" "Heap 2" rev_data "Value ()" rev_run] fit by simp
qed

definition rev_start_run :: trace where
  "rev_start_run = snd (run (rev_start_server ''80'')
     [rpointer (Heap 9), resp0\<lparr>rptr := Heap 1, rinfos := [lo_info]\<rparr>, rbytes [], resp0, rint 3,
      resp0, resp0, rint (-1), resp0])"

theorem rev_start_server_outcomes_witness: "disciplined {} rev_start_run"
proof -
  have "exec (rev_start_server ''80'') (Value (-1)) rev_start_run"
    by (rule run_exec [of _ "[rpointer (Heap 9), resp0\<lparr>rptr := Heap 1, rinfos := [lo_info]\<rparr>, rbytes [],
          resp0, rint 3, resp0, resp0, rint (-1), resp0]"])
      (simp_all add: rev_start_run_def rev_start_server_def resolve_def first_info_def Let_def
        resp0_def lo_info_def)
  moreover have "documented {} rev_start_run" "admitted allocating rev_start_run"
    by (simp_all add: rev_start_run_def rev_start_server_def resolve_def first_info_def Let_def
        resp0_def lo_info_def allocating_def)
  ultimately show ?thesis using rev_start_server_outcomes by blast
qed

end
