(* ===== verification/Rot13.thy ===== *)
theory Rot13
  imports Event_Loop "HOL-Library.Sublist"
begin

text \<open>
  The rot13 line server, \<^verbatim>\<open>src/libevent/rot13/main.c\<close>.  Each connection has a buffer of
  \<^verbatim>\<open>MAX_LINE\<close> bytes with three counters: bytes from \<open>n_written\<close> to \<open>write_upto\<close> are
  ready to be sent, those up to \<open>buffer_used\<close> are collected.  A handler that frees its
  connection returns \<open>None\<close>, one that keeps it the updated state.  The theorems show that
  what is sent is the rot13 image of what was received, in order.
\<close>

subsection \<open>Data\<close>

definition MAX_LINE :: nat where
  "MAX_LINE = 16384"

definition rot13_char :: "byte \<Rightarrow> byte" where
  "rot13_char c =
     (if (97 \<le> c \<and> c \<le> 109) \<or> (65 \<le> c \<and> c \<le> 77) then c + 13
      else if (110 \<le> c \<and> c \<le> 122) \<or> (78 \<le> c \<and> c \<le> 90) then c - 13
      else c)"

record fd_state =
  buffer :: "byte list"
  buffer_used :: nat
  n_written :: nat
  write_upto :: nat
  read_event :: ptr
  write_event :: ptr

subsection \<open>Operations\<close>

text \<open>The new connection comes with its address; \<open>buf\<close> is what \<^verbatim>\<open>malloc\<close> left in the buffer.\<close>

definition alloc_fd_state :: "byte list \<Rightarrow> ptr \<Rightarrow> int \<Rightarrow> (ptr \<times> fd_state) option cprog" where
  "alloc_fd_state buf base fd =
     Sys (Proc Malloc) (\<lambda>rm.
     if rptr rm = Null then Ret None
     else
       Sys (Ev (Event_new base fd [EV_READ, EV_PERSIST] ''do_read'' (rptr rm))) (\<lambda>rr.
       if rptr rr = Null then call (Proc (Free (rptr rm))) (Ret None)
       else
         Sys (Ev (Event_new base fd [EV_WRITE, EV_PERSIST] ''do_write'' (rptr rm))) (\<lambda>rw.
         if rptr rw = Null
         then call (Ev (Event_free (rptr rr))) (call (Proc (Free (rptr rm))) (Ret None))
         else Ret (Some (rptr rm,
                \<lparr>buffer = buf, buffer_used = 0, n_written = 0, write_upto = 0,
                 read_event = rptr rr, write_event = rptr rw\<rparr>)))))"

definition free_fd_state :: "ptr \<Rightarrow> fd_state \<Rightarrow> 'a cprog \<Rightarrow> 'a cprog" where
  "free_fd_state p s k =
     call (Ev (Event_free (read_event s))) (
     call (Ev (Event_free (write_event s))) (
     call (Proc (Free p)) k))"

text \<open>The loop over the received bytes.\<close>

definition collect :: "byte \<Rightarrow> fd_state \<Rightarrow> fd_state" where
  "collect c s =
     (if buffer_used s < MAX_LINE
      then s\<lparr>buffer := (buffer s)[buffer_used s := rot13_char c], buffer_used := Suc (buffer_used s)\<rparr>
      else s)"

primrec absorb :: "byte list \<Rightarrow> fd_state \<Rightarrow> fd_state cprog" where
  "absorb [] s = Ret s"
| "absorb (c # cs) s =
     (let s = collect c s in
      if c = LF
      then if write_event s = Null then Fault AssertFailed
           else call (Ev (Event_add (write_event s))) (absorb cs (s\<lparr>write_upto := buffer_used s\<rparr>))
      else absorb cs s)"

primrec do_read :: "nat \<Rightarrow> int \<Rightarrow> ptr \<Rightarrow> fd_state \<Rightarrow> fd_state option cprog" where
  "do_read 0 fd p s = Spin"
| "do_read (Suc fuel) fd p s =
     (if write_event s = Null then Fault AssertFailed
      else
        Sys (Net (Recv fd 1024)) (\<lambda>r.
        if rv r \<le> 0
        then if rv r = 0 then free_fd_state p s (Ret None)
             else if rerr r = EAGAIN then Ret (Some s)
             else perror ''recv'' (free_fd_state p s (Ret None))
        else andthen (absorb (rdat r) s) (do_read fuel fd p)))"

primrec do_write :: "nat \<Rightarrow> int \<Rightarrow> ptr \<Rightarrow> fd_state \<Rightarrow> fd_state option cprog" where
  "do_write 0 fd p s = Spin"
| "do_write (Suc fuel) fd p s =
     (if n_written s < write_upto s
      then
        Sys (Net (Send fd (take (write_upto s - n_written s) (drop (n_written s) (buffer s))))) (\<lambda>r.
        if rv r < 0
        then if rerr r = EAGAIN then Ret (Some s) else free_fd_state p s (Ret None)
        else if rv r = 0 then Fault AssertFailed
        else do_write fuel fd p (s\<lparr>n_written := n_written s + nat (rv r)\<rparr>))
      else
        let s = (if n_written s = buffer_used s
                 then s\<lparr>n_written := 1, write_upto := 1, buffer_used := 1\<rparr> else s) in
        call (Ev (Event_del (write_event s))) (Ret (Some s)))"

definition do_accept :: "byte list \<Rightarrow> ptr \<Rightarrow> int \<Rightarrow> (ptr \<times> fd_state) option cprog" where
  "do_accept buf base listener =
     Sys (Net (Accept listener)) (\<lambda>r.
     let fd = rv r in
     if fd < 0 then perror ''accept'' (Ret None)
     else if FD_SETSIZE < fd then close_fd fd (Ret None)
     else
       call (Net (Set_nonblocking fd)) (
       andthen (alloc_fd_state buf base fd) (\<lambda>state.
       case state of
         None \<Rightarrow> Fault AssertFailed
       | Some (p, s) \<Rightarrow>
           if write_event s = Null then Fault AssertFailed
           else call (Ev (Event_add (read_event s))) (Ret (Some (p, s))))))"

text \<open>\<^verbatim>\<open>run\<close> and \<^verbatim>\<open>main\<close>; port 40713 in network order is \<open>0x9F 0x09\<close>.\<close>

definition any_address :: "byte list" where
  "any_address = [2, 0, 0x9F, 0x09, 0, 0, 0, 0]"

definition rot13_run :: "unit cprog" where
  "rot13_run =
     Sys (Ev Event_base_new) (\<lambda>rb.
     if rptr rb = Null then Ret ()
     else
       Sys (Net (Socket AF_INET SOCK_STREAM 0)) (\<lambda>rs.
       let listener = rv rs in
       call (Net (Set_nonblocking listener)) (
       call (Net (Setsockopt listener SO_REUSEADDR (OInt 1))) (
       Sys (Net (Bind listener any_address)) (\<lambda>r.
       if rv r < 0 then perror ''bind'' (Ret ())
       else
         Sys (Net (Listen listener)) (\<lambda>r.
         if rv r < 0 then perror ''listen'' (Ret ())
         else
           Sys (Ev (Event_new (rptr rb) listener [EV_READ, EV_PERSIST] ''do_accept'' (rptr rb))) (\<lambda>re.
           call (Ev (Event_add (rptr re))) (
           call (Ev (Event_dispatch (rptr rb))) (Ret ())))))))))"

definition rot13_main :: "int cprog" where
  "rot13_main = call (Io (Setbuf ''stdout'')) (andthen rot13_run (\<lambda>_. Ret 0))"

subsection \<open>The cipher\<close>

lemma rot13_char_word:
  "uint (rot13_char c) =
     (if (97 \<le> uint c \<and> uint c \<le> 109) \<or> (65 \<le> uint c \<and> uint c \<le> 77) then uint c + 13
      else if (110 \<le> uint c \<and> uint c \<le> 122) \<or> (78 \<le> uint c \<and> uint c \<le> 90) then uint c - 13
      else uint c)"
  unfolding rot13_char_def word_le_def
  by (auto simp: uint_plus_if' uint_sub_if')

lemma rot13_involution: "rot13_char (rot13_char c) = c"
proof -
  have "uint (rot13_char (rot13_char c)) = uint c"
    unfolding rot13_char_word [of "rot13_char c"] rot13_char_word [of c] by auto
  then show ?thesis by (simp only: word_uint_eq_iff)
qed

lemma rot13_LF [simp]: "rot13_char LF = LF"
  by (simp add: rot13_char_def)

lemma rot13_LF_iff [simp]: "rot13_char c = LF \<longleftrightarrow> c = LF"
  by (metis rot13_LF rot13_involution)

subsection \<open>The buffer\<close>

definition wf :: "fd_state \<Rightarrow> bool" where
  "wf s \<longleftrightarrow> length (buffer s) = MAX_LINE \<and> n_written s \<le> write_upto s \<and>
     write_upto s \<le> buffer_used s \<and> buffer_used s \<le> MAX_LINE \<and>
     read_event s \<noteq> Null \<and> write_event s \<noteq> Null"

text \<open>The collected bytes, the part of them that is ready, and the free space.\<close>

definition waiting :: "fd_state \<Rightarrow> byte list" where
  "waiting s = take (buffer_used s - n_written s) (drop (n_written s) (buffer s))"

definition ready :: "fd_state \<Rightarrow> byte list" where
  "ready s = take (write_upto s - n_written s) (waiting s)"

definition room :: "fd_state \<Rightarrow> nat" where
  "room s = MAX_LINE - buffer_used s"

text \<open>The whole lines of a byte sequence: everything up to the last LF.\<close>

definition lines_of :: "byte list \<Rightarrow> byte list" where
  "lines_of xs = rev (dropWhile (\<lambda>x. x \<noteq> LF) (rev xs))"

lemma lines_of_snoc [simp]: "lines_of (xs @ [c]) = (if c = LF then xs @ [c] else lines_of xs)"
  by (simp add: lines_of_def)

lemma lines_of_Nil [simp]: "lines_of [] = []"
  by (simp add: lines_of_def)

lemma lines_of_split: "\<exists>ys. xs = lines_of xs @ ys \<and> LF \<notin> set ys"
proof -
  have "xs = lines_of xs @ rev (takeWhile (\<lambda>x. x \<noteq> LF) (rev xs))"
    unfolding lines_of_def rev_append [symmetric] by simp
  moreover have "LF \<notin> set (rev (takeWhile (\<lambda>x. x \<noteq> LF) (rev xs)))"
    by (auto dest: set_takeWhileD)
  ultimately show ?thesis by blast
qed

lemma lines_of_drop:
  assumes "k \<le> length (lines_of xs)"
  shows "lines_of (drop k xs) = drop k (lines_of xs)"
proof (cases "lines_of xs" rule: rev_cases)
  case Nil
  with assms show ?thesis by simp
next
  case (snoc zs z)
  obtain ys where xs: "xs = lines_of xs @ ys" and ys: "LF \<notin> set ys" using lines_of_split by blast
  have "z = LF"
  proof -
    have "rev (lines_of xs) = dropWhile (\<lambda>x. x \<noteq> LF) (rev xs)" by (simp add: lines_of_def)
    with snoc show ?thesis by (metis (mono_tags, lifting) dropWhile_eq_Cons_conv rev_eq_Cons_iff rev_rev_ident)
  qed
  have tail: "lines_of (us @ ys) = lines_of us" for us
    using ys by (induction ys rule: rev_induct) (auto simp flip: append_assoc)
  have "drop k xs = drop k (lines_of xs) @ ys"
    using assms by (subst xs) simp
  then have "lines_of (drop k xs) = lines_of (drop k (lines_of xs))" by (simp add: tail)
  also have "\<dots> = drop k (lines_of xs)"
  proof (cases "k = length (lines_of xs)")
    case False
    with assms snoc have "k \<le> length zs" by simp
    then show ?thesis unfolding snoc \<open>z = LF\<close> by simp
  qed simp
  finally show ?thesis .
qed

lemma collect_wf: "wf s \<Longrightarrow> wf (collect c s)"
  by (auto simp: wf_def collect_def)

lemma collect_waiting:
  assumes "wf s"
  shows "waiting (collect c s) = waiting s @ (if room s = 0 then [] else [rot13_char c])"
proof (cases "room s = 0")
  case True
  then show ?thesis by (simp add: collect_def room_def)
next
  case False
  then have lt: "buffer_used s < MAX_LINE" by (simp add: room_def)
  let ?b = "(buffer s)[buffer_used s := rot13_char c]"
  have n: "n_written s \<le> buffer_used s" and l: "length (buffer s) = MAX_LINE"
    using assms by (auto simp: wf_def)
  have "take (Suc (buffer_used s) - n_written s) (drop (n_written s) ?b) =
      take (buffer_used s - n_written s) (drop (n_written s) ?b) @ [drop (n_written s) ?b ! (buffer_used s - n_written s)]"
    using n l lt by (simp add: Suc_diff_le take_Suc_conv_app_nth)
  also have "drop (n_written s) ?b ! (buffer_used s - n_written s) = rot13_char c"
    using n l lt by simp
  also have "take (buffer_used s - n_written s) (drop (n_written s) ?b) = waiting s"
    using n by (simp add: waiting_def drop_update_swap)
  finally show ?thesis using False lt by (simp add: waiting_def collect_def room_def)
qed

lemma collect_other [simp]:
  "n_written (collect c s) = n_written s" "write_upto (collect c s) = write_upto s"
  "read_event (collect c s) = read_event s" "write_event (collect c s) = write_event s"
  "room (collect c s) = room s - 1"
  by (auto simp: collect_def room_def)

text \<open>\<open>in_step\<close>: exactly the whole lines are ready.\<close>

definition in_step :: "fd_state \<Rightarrow> bool" where
  "in_step s \<longleftrightarrow> ready s = lines_of (waiting s)"

lemma length_waiting: "wf s \<Longrightarrow> length (waiting s) = buffer_used s - n_written s"
  by (auto simp: waiting_def wf_def min_def)

lemma mark_other [simp]:
  "waiting (s\<lparr>write_upto := n\<rparr>) = waiting s" "room (s\<lparr>write_upto := n\<rparr>) = room s"
  by (simp_all add: waiting_def room_def)

text \<open>Collecting a byte while there is room, and marking the end of a line.\<close>

lemma in_step_collect:
  assumes "wf s" and "in_step s" and "room s \<noteq> 0"
  shows "c \<noteq> LF \<Longrightarrow> in_step (collect c s)"
    and "in_step ((collect LF s)\<lparr>write_upto := buffer_used (collect LF s)\<rparr>)"
proof -
  have le: "write_upto s - n_written s \<le> length (waiting s)"
    using assms(1) length_waiting [OF assms(1)] by (auto simp: wf_def)
  show "in_step (collect c s)" if "c \<noteq> LF"
    using assms that le unfolding in_step_def ready_def by (simp add: collect_waiting)
  let ?s = "collect LF s"
  have w: "waiting (?s\<lparr>write_upto := buffer_used ?s\<rparr>) = waiting s @ [LF]"
    using assms(1,3) by (simp add: collect_waiting)
  have "length (waiting ?s) = buffer_used ?s - n_written s"
    using length_waiting [OF collect_wf [OF assms(1)]] by simp
  then show "in_step (?s\<lparr>write_upto := buffer_used ?s\<rparr>)"
    using assms(1,3) unfolding in_step_def ready_def w by (simp add: collect_waiting)
qed

lemma wf_mark: "wf s \<Longrightarrow> wf (s\<lparr>write_upto := buffer_used s\<rparr>)"
  by (auto simp: wf_def)

text \<open>The loop over received bytes never fails and collects as many as there is room for.\<close>

lemma absorb_exec:
  assumes "exec (absorb xs s) out t" and "wf s"
  shows "\<exists>s'. out = Value s' \<and> wf s' \<and> read_event s' = read_event s \<and> write_event s' = write_event s
     \<and> waiting s' = waiting s @ map rot13_char (take (room s) xs) \<and> room s' = room s - length xs
     \<and> (in_step s \<longrightarrow> length xs \<le> room s \<longrightarrow> in_step s')"
  using assms
proof (induction xs arbitrary: s t)
  case (Cons c cs)
  let ?c = "collect c s"
  let ?s = "if c = LF then ?c\<lparr>write_upto := buffer_used ?c\<rparr> else ?c"
  have w: "wf ?s" using collect_wf [OF Cons.prems(2)] wf_mark by simp
  have "write_event s \<noteq> Null" using Cons.prems(2) by (simp add: wf_def)
  with Cons.prems(1) obtain t' where "exec (absorb cs ?s) out t'"
    by (auto simp: Let_def split: if_splits)
  from Cons.IH [OF this w] obtain s' where s': "out = Value s'" "wf s'" "read_event s' = read_event ?s"
    "write_event s' = write_event ?s"
    "waiting s' = waiting ?s @ map rot13_char (take (room ?s) cs)" "room s' = room ?s - length cs"
    "in_step ?s \<longrightarrow> length cs \<le> room ?s \<longrightarrow> in_step s'" by blast
  have "waiting ?s = waiting s @ (if room s = 0 then [] else [rot13_char c])" and r: "room ?s = room s - 1"
    using collect_waiting [OF Cons.prems(2)] by simp_all
  then have "waiting s' = waiting s @ map rot13_char (take (room s) (c # cs))"
    using s'(5) by (cases "room s") simp_all
  moreover have "in_step ?s" if "in_step s" "room s \<noteq> 0"
    using in_step_collect [OF Cons.prems(2) that] by simp
  moreover have "room s' = room s - length (c # cs)" using s'(6) r by simp
  ultimately show ?case
    using s' r by (intro exI [of _ s']) auto
qed simp

subsection \<open>Reading and writing\<close>

text \<open>What a trace received, and what the kernel took of what it was sent.\<close>

fun received :: "trace \<Rightarrow> byte list" where
  "received [] = []"
| "received ((Net (Recv fd n), r) # t) = (if rv r \<le> 0 then [] else rdat r) @ received t"
| "received (_ # t) = received t"

fun taken :: "trace \<Rightarrow> byte list" where
  "taken [] = []"
| "taken ((Net (Send fd xs), r) # t) = (if rv r < 0 then [] else take (nat (rv r)) xs) @ taken t"
| "taken (_ # t) = taken t"

lemma received_append [simp]: "received (t1 @ t2) = received t1 @ received t2"
  by (induction t1 rule: received.induct) auto

lemma taken_append [simp]: "taken (t1 @ t2) = taken t1 @ taken t2"
  by (induction t1 rule: taken.induct) auto

lemma absorb_silent: "exec (absorb xs s) out t \<Longrightarrow> received t = [] \<and> taken t = []"
  by (induction xs arbitrary: s t) (auto simp: Let_def split: if_splits)

lemma do_read_exec:
  assumes "exec (do_read fuel fd p s) out t" and "posix t" and "wf s"
  shows "taken t = [] \<and> (out = Running \<or> out = Value None \<or>
     (\<exists>s'. out = Value (Some s') \<and> wf s' \<and>
        waiting s' = waiting s @ map rot13_char (take (room s) (received t)) \<and>
        (in_step s \<longrightarrow> length (received t) \<le> room s \<longrightarrow> in_step s')))"
  using assms
proof (induction fuel arbitrary: s t)
  case (Suc fuel)
  have "write_event s \<noteq> Null" using Suc.prems(3) by (simp add: wf_def)
  with Suc.prems(1) obtain r t1 where t: "t = (Net (Recv fd 1024), r) # t1" and
    x: "exec (if rv r \<le> 0
        then if rv r = 0 then free_fd_state p s (Ret None)
             else if rerr r = EAGAIN then Ret (Some s)
             else perror ''recv'' (free_fd_state p s (Ret None))
        else andthen (absorb (rdat r) s) (do_read fuel fd p)) out t1"
    by (auto simp: need_def)
  show ?case
  proof (cases "rv r \<le> 0")
    case True
    with x t Suc.prems(3) show ?thesis by (auto simp: free_fd_state_def split: if_splits)
  next
    case False
    with x have x': "exec (andthen (absorb (rdat r) s) (do_read fuel fd p)) out t1" by simp
    obtain s1 ta tb where a: "exec (absorb (rdat r) s) (Value s1) ta"
      and b: "exec (do_read fuel fd p s1) out tb" and t1: "t1 = ta @ tb"
      using x' absorb_exec [OF _ Suc.prems(3)] unfolding exec_andthen by fast
    from absorb_exec [OF a Suc.prems(3)] have s1: "wf s1"
      "waiting s1 = waiting s @ map rot13_char (take (room s) (rdat r))"
      "room s1 = room s - length (rdat r)"
      "in_step s \<longrightarrow> length (rdat r) \<le> room s \<longrightarrow> in_step s1" by auto
    have p: "posix tb" using Suc.prems(2) t t1 by simp
    have rec: "received t = rdat r @ received tb" and tk: "taken t = taken tb"
      using t t1 False absorb_silent [OF a] by simp_all
    from Suc.IH [OF b p s1(1)] tk show ?thesis
      unfolding rec using s1 by (auto simp: take_append)
  qed
qed simp

text \<open>One accepted send moves \<open>n_written\<close> over the bytes the kernel took.\<close>

lemma sent_step:
  assumes "wf s" and "k \<le> write_upto s - n_written s"
  shows "wf (s\<lparr>n_written := n_written s + k\<rparr>)"
    and "waiting (s\<lparr>n_written := n_written s + k\<rparr>) = drop k (waiting s)"
    and "in_step s \<Longrightarrow> in_step (s\<lparr>n_written := n_written s + k\<rparr>)"
proof -
  let ?s = "s\<lparr>n_written := n_written s + k\<rparr>"
  show "wf ?s" using assms by (auto simp: wf_def)
  show w: "waiting ?s = drop k (waiting s)"
    by (simp add: waiting_def drop_take diff_diff_add add.commute)
  assume i: "in_step s"
  have "length (ready s) = write_upto s - n_written s"
    using assms(1) length_waiting [OF assms(1)] by (auto simp: ready_def wf_def)
  with i assms(2) have "k \<le> length (lines_of (waiting s))" by (simp add: in_step_def)
  then have "lines_of (waiting ?s) = drop k (ready s)"
    using i w lines_of_drop by (simp add: in_step_def)
  also have "\<dots> = ready ?s" by (simp add: ready_def w drop_take diff_diff_add)
  finally show "in_step ?s" by (simp add: in_step_def)
qed

lemma write_reset:
  assumes "wf s" and "n_written s = write_upto s"
  defines "s' \<equiv> if n_written s = buffer_used s
                 then s\<lparr>n_written := 1, write_upto := 1, buffer_used := 1\<rparr> else s"
  shows "wf s'" and "waiting s' = waiting s" and "ready s' = []" and "in_step s \<Longrightarrow> in_step s'"
  using assms(1,2) unfolding s'_def
  by (auto simp: wf_def waiting_def ready_def in_step_def MAX_LINE_def)

lemma do_write_exec:
  assumes "exec (do_write fuel fd p s) out t" and "posix t" and "wf s"
  shows "received t = [] \<and> (out = Running \<or> out = Value None \<or> out = Undefined AssertFailed \<or>
     (\<exists>s'. out = Value (Some s') \<and> wf s' \<and> waiting s = taken t @ waiting s' \<and>
        (in_step s \<longrightarrow> in_step s') \<and>
        (ready s' = [] \<or> (\<exists>fd bs r. (Net (Send fd bs), r) \<in> set t \<and> rv r < 0 \<and> rerr r = EAGAIN))))"
  using assms
proof (induction fuel arbitrary: s t)
  case (Suc fuel)
  let ?bs = "take (write_upto s - n_written s) (drop (n_written s) (buffer s))"
  have bs: "?bs = ready s"
    using Suc.prems(3) by (auto simp: ready_def waiting_def wf_def min_def)
  show ?case
  proof (cases "n_written s < write_upto s")
    case False
    with Suc.prems(3) have e: "n_written s = write_upto s" by (auto simp: wf_def)
    let ?s = "if n_written s = buffer_used s
              then s\<lparr>n_written := 1, write_upto := 1, buffer_used := 1\<rparr> else s"
    from False Suc.prems(1) have "out = Value (Some ?s)" "received t = []" "taken t = []"
      by (auto simp: Let_def)
    with write_reset [OF Suc.prems(3) e] show ?thesis by auto
  next
    case True
    with Suc.prems(1) obtain r t1 where t: "t = (Net (Send fd ?bs), r) # t1" and
      x: "exec (if rv r < 0
        then if rerr r = EAGAIN then Ret (Some s) else free_fd_state p s (Ret None)
        else if rv r = 0 then Fault AssertFailed
        else do_write fuel fd p (s\<lparr>n_written := n_written s + nat (rv r)\<rparr>)) out t1"
      by auto
    show ?thesis
    proof (cases "rv r \<le> 0")
      case le: True
      with x t Suc.prems(3) show ?thesis by (auto simp: free_fd_state_def split: if_splits)
    next
      case gt: False
      let ?k = "nat (rv r)"
      from t gt Suc.prems(2) have "?k \<le> length ?bs" by simp
      then have k: "?k \<le> write_upto s - n_written s" by simp
      note step = sent_step [OF Suc.prems(3) k]
      from x gt have y: "exec (do_write fuel fd p (s\<lparr>n_written := n_written s + ?k\<rparr>)) out t1" by simp
      from t Suc.prems(2) have "posix t1" by simp
      note IH = Suc.IH [OF y this step(1)]
      have tk: "taken t = take ?k (waiting s) @ taken t1"
        using t gt k unfolding bs by (simp add: ready_def min_absorb1)
      have rec: "received t = []" using IH t by simp
      from IH consider (other) "out = Running \<or> out = Value None \<or> out = Undefined AssertFailed"
        | (kept) s' where "out = Value (Some s')" "wf s'"
          "waiting (s\<lparr>n_written := n_written s + ?k\<rparr>) = taken t1 @ waiting s'"
          "in_step (s\<lparr>n_written := n_written s + ?k\<rparr>) \<longrightarrow> in_step s'"
          "ready s' = [] \<or> (\<exists>fd bs r. (Net (Send fd bs), r) \<in> set t1 \<and> rv r < 0 \<and> rerr r = EAGAIN)"
        by blast
      then show ?thesis
      proof cases
        case other
        with rec show ?thesis by blast
      next
        case kept
        have "waiting s = taken t @ waiting s'"
          using tk kept(3) step(2) by (metis append_assoc append_take_drop_id)
        moreover have "in_step s \<longrightarrow> in_step s'" using kept(4) step(3) by blast
        moreover have "set t1 \<subseteq> set t" using t by auto
        ultimately show ?thesis using kept rec by blast
      qed
    qed
  qed
qed simp

subsection \<open>A connection\<close>

text \<open>
  The life of a connection: its state, everything received and everything sent so far,
  and whether each read found room for what it received.  Handlers fire in any order,
  with any documented responses.
\<close>

inductive connection :: "fd_state \<Rightarrow> byte list \<Rightarrow> byte list \<Rightarrow> bool \<Rightarrow> bool" where
  opened: "length buf = MAX_LINE \<Longrightarrow> e \<noteq> Null \<Longrightarrow> w \<noteq> Null \<Longrightarrow>
    connection \<lparr>buffer = buf, buffer_used = 0, n_written = 0, write_upto = 0,
                read_event = e, write_event = w\<rparr> [] [] True"
| reading: "connection s rcv snt ok \<Longrightarrow> exec (do_read fuel fd p s) (Value (Some s')) t \<Longrightarrow> posix t \<Longrightarrow>
    connection s' (rcv @ received t) snt (ok \<and> length (received t) \<le> room s)"
| writing: "connection s rcv snt ok \<Longrightarrow> exec (do_write fuel fd p s) (Value (Some s')) t \<Longrightarrow> posix t \<Longrightarrow>
    connection s' rcv (snt @ taken t) ok"

lemma connection_invariant:
  "connection s rcv snt ok \<Longrightarrow>
   wf s \<and> subseq (snt @ waiting s) (map rot13_char rcv) \<and>
   (ok \<longrightarrow> snt @ waiting s = map rot13_char rcv \<and> in_step s)"
proof (induction rule: connection.induct)
  case (opened buf e w)
  then show ?case
    by (simp add: wf_def waiting_def ready_def in_step_def)
next
  case (reading s rcv snt ok fuel fd p s' t)
  then have "wf s" by blast
  from do_read_exec [OF reading(2,3) this] have r: "wf s'"
    "waiting s' = waiting s @ map rot13_char (take (room s) (received t))"
    "in_step s \<longrightarrow> length (received t) \<le> room s \<longrightarrow> in_step s'" by auto
  have "subseq (map rot13_char (take (room s) (received t))) (map rot13_char (received t))"
    by (metis subseq_append_le_same_iff append_take_drop_id map_append prefix_imp_subseq prefixI)
  with reading.IH have "subseq (snt @ waiting s') (map rot13_char (rcv @ received t))"
    unfolding r(2) map_append append_assoc [symmetric] by (intro list_emb_append_mono) auto
  with r reading.IH show ?case by auto
next
  case (writing s rcv snt ok fuel fd p s' t)
  then have "wf s" by blast
  from do_write_exec [OF writing(2,3) this] have "wf s'" "waiting s = taken t @ waiting s'"
    "in_step s \<longrightarrow> in_step s'" by auto
  with writing.IH show ?case by auto
qed

text \<open>
  C16: on any connection, after any sequence of read and write events: what was sent followed
  by what is waiting is a subsequence of the rot13 image of what was received, so bytes are
  never reordered, altered or duplicated, and the positions stay within the buffer of 16384
  bytes.  If moreover every read found room in the buffer (\<open>ok\<close>), none is lost: the two are
  equal, and exactly the whole lines of the waiting bytes are ready to be sent.
\<close>

theorem connection_streams:
  assumes "connection s rcv snt ok"
  shows "subseq (snt @ waiting s) (map rot13_char rcv) \<and>
     (ok \<longrightarrow> snt @ waiting s = map rot13_char rcv \<and> ready s = lines_of (waiting s)) \<and>
     n_written s \<le> write_upto s \<and> write_upto s \<le> buffer_used s \<and> buffer_used s \<le> MAX_LINE"
  using connection_invariant [OF assms] by (auto simp: wf_def in_step_def)

text \<open>
  The cipher is its own inverse on every byte, and keeps line ends and everything that
  is not an ASCII letter.
\<close>

theorem rot13_char_spec:
  "rot13_char (rot13_char c) = c \<and> (rot13_char c = LF \<longleftrightarrow> c = LF) \<and>
   (\<not> (65 \<le> c \<and> c \<le> 90) \<and> \<not> (97 \<le> c \<and> c \<le> 122) \<longrightarrow> rot13_char c = c) \<and>
   (65 \<le> c \<and> c \<le> 90 \<longrightarrow> 65 \<le> rot13_char c \<and> rot13_char c \<le> 90 \<and> rot13_char c \<noteq> c) \<and>
   (97 \<le> c \<and> c \<le> 122 \<longrightarrow> 97 \<le> rot13_char c \<and> rot13_char c \<le> 122 \<and> rot13_char c \<noteq> c)"
proof -
  have eq: "rot13_char c = c \<longleftrightarrow> uint (rot13_char c) = uint c" by (simp only: word_uint_eq_iff)
  show ?thesis
    unfolding eq using rot13_involution [of c]
    by (auto simp: word_le_def rot13_char_word)
qed

lemma rot13_char_spec_witness: "rot13_char 32 = 32 \<and> rot13_char 77 \<noteq> 77"
  using rot13_char_spec [of 32] rot13_char_spec [of 77] by simp

subsection \<open>Resources\<close>

text \<open>What the handlers of a connection rely on: its descriptor, its block and its two events.\<close>

definition owns :: "res set \<Rightarrow> int \<Rightarrow> ptr \<Rightarrow> fd_state \<Rightarrow> bool" where
  "owns H fd p s \<longleftrightarrow>
     RFd fd \<in> H \<and> RMem p \<in> H \<and> RReg p \<notin> H \<and> p \<noteq> read_event s \<and> p \<noteq> write_event s \<and>
     read_event s \<noteq> Null \<and> write_event s \<noteq> Null \<and> read_event s \<noteq> write_event s \<and>
     RMem (read_event s) \<in> H \<and> RMem (write_event s) \<in> H \<and>
     (\<exists>fl cb a. RSet (write_event s) fd fl cb a \<in> H)"

text \<open>What is left of a ledger when a connection has been freed: the descriptor stays open.\<close>

definition released :: "res set \<Rightarrow> ptr \<Rightarrow> fd_state \<Rightarrow> res set" where
  "released H p s =
     H - insert (RReg (read_event s)) (insert (RMem (read_event s)) (settings (read_event s)))
       - insert (RReg (write_event s)) (insert (RMem (write_event s)) (settings (write_event s)))
       - insert (RMem p) (settings p)"

lemma released_descriptor: "RFd fd \<in> H \<Longrightarrow> RFd fd \<in> released H p s"
  by (simp add: released_def)

lemma released_insert: "released (insert (RReg (write_event s)) H) p s = released H p s"
  by (auto simp: released_def)

lemma free_fd_state_keeps:
  "owns H fd p s \<Longrightarrow> keeps (free_fd_state p s (Ret x)) H (\<lambda>out H'. out = Value x \<and> H' = released H p s)"
  by (auto simp: owns_def free_fd_state_def released_def)

lemma absorb_keeps:
  "owns H fd p s \<Longrightarrow> keeps (absorb xs s) H (\<lambda>out H'. \<exists>s'. out = Value s' \<and>
     write_event s' = write_event s \<and> read_event s' = read_event s \<and>
     (H' = H \<or> H' = insert (RReg (write_event s)) H))"
proof (induction xs arbitrary: s H)
  case (Cons c cs)
  let ?w = "write_event s"
  from Cons.prems have w: "?w \<noteq> Null" "live H ?w" "\<exists>fd fl cb a. RSet ?w fd fl cb a \<in> H"
    by (auto simp: owns_def live_RMem)
  have o: "owns G fd p s'" if "write_event s' = ?w" "read_event s' = read_event s"
      "G = H \<or> G = insert (RReg ?w) H" for s' G
    using Cons.prems that by (auto simp: owns_def)
  have IH: "keeps (absorb cs s') G (\<lambda>out H'. \<exists>s'. out = Value s' \<and> write_event s' = ?w \<and>
       read_event s' = read_event s \<and> (H' = H \<or> H' = insert (RReg ?w) H))"
    if "write_event s' = ?w" "read_event s' = read_event s" "G = H \<or> G = insert (RReg ?w) H" for s' G
    by (rule safe_mono [OF Cons.IH [OF o [OF that]]]) (use that in auto)
  show ?case using w IH by (auto simp: Let_def)
qed auto

lemma do_read_keeps:
  "owns H fd p s \<Longrightarrow> keeps (do_read fuel fd p s) H (\<lambda>out H'.
     (out = Value None \<longrightarrow> H' = released H p s) \<and> (\<forall>f. out \<noteq> Undefined f))"
proof (induction fuel arbitrary: s H)
  case (Suc fuel)
  have rest: "keeps (andthen (absorb xs s) (do_read fuel fd p)) H (\<lambda>out H'.
     (out = Value None \<longrightarrow> H' = released H p s) \<and> (\<forall>f. out \<noteq> Undefined f))" for xs
  proof (rule safe_andthen [OF absorb_keeps [OF Suc.prems]])
    fix s' :: fd_state and H'
    assume "\<exists>t. Value s' = Value t \<and> write_event t = write_event s \<and> read_event t = read_event s \<and>
      (H' = H \<or> H' = insert (RReg (write_event s)) H)"
    then have s': "write_event s' = write_event s" "read_event s' = read_event s"
      and H': "H' = H \<or> H' = insert (RReg (write_event s)) H" by auto
    from s' H' Suc.prems have "owns H' fd p s'" by (auto simp: owns_def)
    moreover from s' H' have "released H' p s' = released H p s"
      using released_insert by (auto simp: released_def)
    ultimately show "keeps (do_read fuel fd p s') H' (\<lambda>out H'.
       (out = Value None \<longrightarrow> H' = released H p s) \<and> (\<forall>f. out \<noteq> Undefined f))"
      using Suc.IH [of H' s'] by simp
  qed auto
  have "write_event s \<noteq> Null" "RFd fd \<in> H" using Suc.prems by (auto simp: owns_def)
  moreover have "keeps (free_fd_state p s (Ret None)) H (\<lambda>out H'.
     (out = Value None \<longrightarrow> H' = released H p s) \<and> (\<forall>f. out \<noteq> Undefined f))"
    by (rule safe_mono [OF free_fd_state_keeps [OF Suc.prems]]) auto
  ultimately show ?case using rest by auto
qed simp

text \<open>
  C34: the read handler makes only permitted calls on a connection it owns, and when it
  ends the connection it has freed both events and the state exactly once, but never
  closes the descriptor: it is still open in the final ledger.
\<close>

theorem do_read_leaks_descriptor:
  assumes "exec (do_read fuel fd p s) out t" and "documented H t" and "owns H fd p s"
  shows "disciplined H t \<and> (\<forall>f. out \<noteq> Undefined f) \<and>
     (out = Value None \<longrightarrow> held H t = released H p s \<and> RFd fd \<in> held H t)"
proof -
  have "RFd fd \<in> released H p s" using assms(3) released_descriptor by (simp add: owns_def)
  with keeps_exec [OF do_read_keeps [OF assms(3)] assms(1,2)] show ?thesis by auto
qed

subsection \<open>Witnesses\<close>

definition buf0 :: "byte list" where
  "buf0 = replicate MAX_LINE 0"

definition state0 :: fd_state where
  "state0 = \<lparr>buffer = buf0, buffer_used = 0, n_written = 0, write_upto = 0,
     read_event = Heap 2, write_event = Heap 3\<rparr>"

definition state1 :: fd_state where
  "state1 = state0\<lparr>buffer := buf0[0 := 110, 1 := LF], buffer_used := Suc (Suc 0), write_upto := Suc (Suc 0)\<rparr>"

definition again :: resp where
  "again = resp0\<lparr>rv := -1, rerr := EAGAIN\<rparr>"

definition read_run :: trace where
  "read_run = [(Net (Recv 5 1024), rbytes [97, LF]), (Ev (Event_add (Heap 3)), resp0),
     (Net (Recv 5 1024), again)]"

definition write_run :: trace where
  "write_run = [(Net (Send 5 (take (Suc (Suc 0)) (buffer state1))), rint 1),
     (Net (Send 5 (take (Suc 0) (drop (Suc 0) (buffer state1)))), again)]"

lemma connection_example: "connection (state1\<lparr>n_written := 1\<rparr>) [97, LF] [110] True"
proof -
  have 0: "connection state0 [] [] True"
    unfolding state0_def by (rule opened) (simp_all add: buf0_def)
  have c: "rot13_char 97 = 110" by (simp add: rot13_char_def)
  have r: "exec (do_read (Suc (Suc 0)) 5 (Heap 1) state0) (Value (Some state1)) read_run"
    by (simp add: state0_def state1_def read_run_def again_def resp0_def collect_def MAX_LINE_def Let_def
        c)
  have "posix read_run" by (simp add: read_run_def again_def resp0_def)
  from reading [OF 0 r this] have 1: "connection state1 [97, LF] [] True"
    by (simp add: read_run_def again_def resp0_def room_def state0_def MAX_LINE_def)
  have w: "exec (do_write (Suc (Suc 0)) 5 (Heap 1) state1) (Value (Some (state1\<lparr>n_written := 1\<rparr>))) write_run"
    by (simp add: write_run_def again_def resp0_def state1_def state0_def)
  have b: "buffer state1 = 110 # LF # replicate 16382 0"
  proof -
    have "buf0 = replicate (Suc (Suc 0)) 0 @ replicate 16382 0"
      unfolding buf0_def MAX_LINE_def replicate_add [symmetric] by simp
    then have z: "buf0 = 0 # 0 # replicate 16382 0" by simp
    have "buf0[0 := 110, 1 := LF] = 110 # LF # replicate 16382 0" by (subst z) simp
    then show ?thesis by (simp add: state1_def)
  qed
  have "posix write_run" by (simp add: write_run_def again_def resp0_def b)
  from writing [OF 1 w this] show ?thesis
    by (simp add: write_run_def again_def resp0_def b)
qed

theorem connection_streams_witness: "[110] @ waiting (state1\<lparr>n_written := 1\<rparr>) = map rot13_char [97, LF]"
  using connection_streams [OF connection_example] by blast

theorem do_read_leaks_descriptor_witness:
  "RFd 5 \<in> held {RFd 5, RMem (Heap 1), RMem (Heap 2), RMem (Heap 3),
     RSet (Heap 3) 5 [EV_WRITE, EV_PERSIST] ''do_write'' (Heap 1)}
     [(Net (Recv 5 1024), resp0), (Ev (Event_free (Heap 2)), resp0), (Ev (Event_free (Heap 3)), resp0),
      (Proc (Free (Heap 1)), resp0)]"
proof -
  let ?t = "[(Net (Recv 5 1024), resp0), (Ev (Event_free (Heap 2)), resp0),
    (Ev (Event_free (Heap 3)), resp0), (Proc (Free (Heap 1)), resp0)]"
  let ?H = "{RFd 5, RMem (Heap 1), RMem (Heap 2), RMem (Heap 3),
     RSet (Heap 3) 5 [EV_WRITE, EV_PERSIST] ''do_write'' (Heap 1)}"
  have "exec (do_read (Suc 0) 5 (Heap 1) state0) (Value None) ?t"
    by (simp add: state0_def free_fd_state_def resp0_def)
  moreover have "documented ?H ?t" by (simp add: resp0_def)
  moreover have "owns ?H 5 (Heap 1) state0" by (simp add: owns_def state0_def)
  ultimately show ?thesis using do_read_leaks_descriptor by blast
qed

end
