(* ===== verification/Refill.thy ===== *)
theory Refill
  imports Prelude
begin

text \<open>
  Buffered input as the scanners use it: a buffer with a current position, a function
  that makes more input available, and the bytes still to come.  The locale states what
  a scanner needs of it; the functions \<^verbatim>\<open>fill\<close>
  of \<^verbatim>\<open>re2c/scanner\<close>, \<^verbatim>\<open>tokenizer/scanner\<close> and \<^verbatim>\<open>re2c_lemon/any_parser/scanner\<close> are its
  instances.
\<close>

text \<open>Bytes stored at index \<open>i\<close> of an array, \<open>None\<close> when they do not fit.\<close>

definition blit :: "byte list \<Rightarrow> nat \<Rightarrow> byte list \<Rightarrow> byte list option" where
  "blit b i xs =
     (if i + length xs \<le> length b then Some (take i b @ xs @ drop (i + length xs) b) else None)"

lemma blit_Some:
  "i + length xs \<le> length b \<Longrightarrow> blit b i xs = Some (take i b @ xs @ drop (i + length xs) b)"
  by (simp add: blit_def)

lemma blit_props:
  assumes "blit b i xs = Some b'"
  shows "take (i + length xs) b' = take i b @ xs" and "length b' = length b"
    and "drop (i + length xs) b' = drop (i + length xs) b"
  using assms by (auto simp: blit_def min_absorb1 split: if_splits)

text \<open>\<^verbatim>\<open>memmove(buf, buf + from, n)\<close>.\<close>

definition slide :: "byte list \<Rightarrow> nat \<Rightarrow> nat \<Rightarrow> byte list" where
  "slide b from n = take n (drop from b) @ drop n b"

lemma length_slide: "from + n \<le> length b \<Longrightarrow> length (slide b from n) = length b"
  by (simp add: slide_def)

lemma take_slide: "from + n \<le> length b \<Longrightarrow> take n (slide b from n) = take n (drop from b)"
  by (simp add: slide_def)

locale refill =
  fixes fill :: "'s \<Rightarrow> nat \<Rightarrow> 's option"
    and upcoming :: "'s \<Rightarrow> byte list"   \<comment> \<open>from the start of the token on\<close>
    and eaten :: "'s \<Rightarrow> nat"             \<comment> \<open>bytes of the token already consumed\<close>
    and lookahead :: "'s \<Rightarrow> nat"        \<comment> \<open>bytes available from the current position\<close>
    and good :: "'s \<Rightarrow> bool"
  assumes fill_keeps: "good s \<Longrightarrow> fill s n = Some s' \<Longrightarrow>
      good s' \<and> upcoming s' = upcoming s \<and> eaten s' = eaten s \<and> lookahead s \<le> lookahead s'"
    and lookahead_real: "good s \<Longrightarrow> eaten s + lookahead s \<le> length (upcoming s)"
begin

text \<open>Any number of refills leaves the input as it was.\<close>

primrec refills :: "'s \<Rightarrow> nat list \<Rightarrow> 's option" where
  "refills s [] = Some s"
| "refills s (n # ns) = (case fill s n of None \<Rightarrow> None | Some s' \<Rightarrow> refills s' ns)"

lemma refills_keep:
  "good s \<Longrightarrow> refills s ns = Some s' \<Longrightarrow>
   good s' \<and> upcoming s' = upcoming s \<and> eaten s' = eaten s \<and> lookahead s \<le> lookahead s'"
proof (induction ns arbitrary: s)
  case (Cons n ns)
  then obtain s1 where f: "fill s n = Some s1" and r: "refills s1 ns = Some s'"
    by (auto split: option.splits)
  from fill_keeps [OF Cons.prems(1) f] Cons.IH [OF _ r] show ?case by auto
qed simp

text \<open>What lies in front of the current position is what lay there before the refill.\<close>

lemma window_kept:
  assumes "good s" and "refills s ns = Some s'" and "k \<le> lookahead s"
  shows "take k (drop (eaten s') (upcoming s')) = take k (drop (eaten s) (upcoming s))"
    and "k \<le> length (drop (eaten s') (upcoming s'))"
  using refills_keep [OF assms(1,2)] lookahead_real [of s'] assms(3) by auto

end

end
