(* ===== verification/Re2c_Scanner.thy ===== *)
theory Re2c_Scanner
  imports Refill
begin

text \<open>
  The TAP scanner \<^verbatim>\<open>src/re2c/scanner/scanner.c\<close>: the buffer refill, the generated automaton
  with one label per \<^verbatim>\<open>yyN\<close> of the C code, and \<^verbatim>\<open>Scanner_Scan\<close>.  Pointers into the buffer
  are indexes; \<open>rest\<close> is what the file has not delivered yet (\<^verbatim>\<open>fread\<close> of a file that can
  be read gives what is asked for, or all that is left).  \<open>next_token\<close> is the
  specification, the longest match of the rules; the automaton is proved to implement it.
\<close>

subsection \<open>The buffer\<close>

definition YYMAXFILL :: nat where
  "YYMAXFILL = 6"

definition BUFSIZE :: nat where
  "BUFSIZE = 4090"

record input =
  buf :: "byte list"
  lim :: nat
  cur :: nat
  tok :: nat
  mar :: int
  eof :: bool
  rest :: "byte list"

text \<open>\<^verbatim>\<open>fill\<close>: 0 on success, 1 at the end of input, 2 for a lexeme that is too long.\<close>

definition fill :: "input \<Rightarrow> nat \<Rightarrow> (int \<times> input) option" where
  "fill s need =
     (if eof s then Some (1, s)
      else
        (let shift = tok s; used = lim s - tok s in
         if shift < need then Some (2, s)
         else if BUFSIZE < used then None
         else
           (let got = take (BUFSIZE - used) (rest s);
                s1 = s\<lparr>lim := lim s - shift, cur := cur s - shift, tok := tok s - shift,
                       mar := mar s - int shift, rest := drop (BUFSIZE - used) (rest s)\<rparr> in
            case blit (slide (buf s) (tok s) used) (lim s1) got of
              None \<Rightarrow> None
            | Some b \<Rightarrow>
                (let s2 = s1\<lparr>buf := b, lim := lim s1 + length got\<rparr> in
                 if lim s2 < BUFSIZE
                 then (case blit b (lim s2) (replicate YYMAXFILL 0) of
                         None \<Rightarrow> None
                       | Some b \<Rightarrow> Some (0, s2\<lparr>eof := True, buf := b, lim := lim s2 + YYMAXFILL\<rparr>))
                 else Some (0, s2)))))"

subsection \<open>The automaton\<close>

datatype token = END | ANY | PLAN | TESTPOINT | NL

datatype label =
    Head | YY1 | YY2 | YY3 | YY4 | YY5 | YY6 | YY7 | YY8 | YY9 | YY10 | YY11 | YY12 | YY13
  | YY14 | YY15 | YY16 | YY17 | YY18 | YY19 | YY20 | YY21

datatype move = Goto label input | Token token input | Fail input

text \<open>\<^verbatim>\<open>*in->cur\<close>, \<^verbatim>\<open>++in->cur\<close> and the check in front of a read, with its refill.\<close>

definition adv :: "input \<Rightarrow> input" where
  "adv s = s\<lparr>cur := Suc (cur s)\<rparr>"

text \<open>\<^verbatim>\<open>in->mar = ++in->cur\<close>.\<close>

definition mark :: "input \<Rightarrow> input" where
  "mark s = (adv s)\<lparr>mar := int (Suc (cur s))\<rparr>"

definition branch :: "input \<Rightarrow> (byte \<Rightarrow> move) \<Rightarrow> move option" where
  "branch s f = (if cur s < length (buf s) then Some (f (buf s ! cur s)) else None)"

definition ensure :: "input \<Rightarrow> nat \<Rightarrow> (input \<Rightarrow> move option) \<Rightarrow> move option" where
  "ensure s n k =
     (if lim s - cur s < n
      then (case fill s n of
              None \<Rightarrow> None
            | Some (ret, s') \<Rightarrow> if ret \<noteq> 0 then Some (Fail s') else k s')
      else k s)"

definition is_ws :: "byte \<Rightarrow> bool" where
  "is_ws c \<longleftrightarrow> c = 9 \<or> c = 11 \<or> c = 32"

definition is_digit :: "byte \<Rightarrow> bool" where
  "is_digit c \<longleftrightarrow> c \<in> set (bytes ''0123456789'')"

definition is_digit1 :: "byte \<Rightarrow> bool" where
  "is_digit1 c \<longleftrightarrow> c \<in> set (bytes ''123456789'')"

text \<open>The first switch, on the byte a token starts with.\<close>

definition first_switch :: "input \<Rightarrow> byte \<Rightarrow> move" where
  "first_switch s c =
     (if c = 0 then Goto YY1 s
      else if is_ws c then Goto YY4 s
      else if c = LF then Goto YY6 s
      else if c = CR then Goto YY8 s
      else if c = of_char (CHR ''1'') then Goto YY9 s
      else if c = of_char (CHR ''n'') then Goto YY10 s
      else if c = of_char (CHR ''o'') then Goto YY11 s
      else Goto YY2 s)"

fun step :: "label \<Rightarrow> input \<Rightarrow> move option" where
  "step Head s =
     ensure (s\<lparr>tok := cur s\<rparr>) 6 (\<lambda>s. branch s (first_switch s))"
| "step YY1 s = Some (Token END (adv s))"
| "step YY2 s = Some (Goto YY3 (adv s))"
| "step YY3 s = Some (Token ANY s)"
| "step YY4 s =
     ensure (adv s) 1 (\<lambda>s. branch s (\<lambda>c. if is_ws c then Goto YY4 s else Goto YY5 s))"
| "step YY5 s = Some (Goto Head s)"
| "step YY6 s = Some (Goto YY7 (adv s))"
| "step YY7 s = Some (Token NL s)"
| "step YY8 s = (let s = adv s in branch s (\<lambda>c. if c = LF then Goto YY6 s else Goto YY7 s))"
| "step YY9 s = (let s = mark s in
     branch s (\<lambda>c. if c = of_char (CHR ''.'') then Goto YY12 s else Goto YY3 s))"
| "step YY10 s = (let s = mark s in
     branch s (\<lambda>c. if c = of_char (CHR ''o'') then Goto YY14 s else Goto YY3 s))"
| "step YY11 s = (let s = adv s in
     branch s (\<lambda>c. if c = of_char (CHR ''k'') then Goto YY15 s else Goto YY3 s))"
| "step YY12 s = (let s = adv s in
     branch s (\<lambda>c. if c = of_char (CHR ''.'') then Goto YY16 s else Goto YY13 s))"
| "step YY13 s = Some (Goto YY3 (s\<lparr>cur := nat (mar s)\<rparr>))"
| "step YY14 s = (let s = adv s in
     branch s (\<lambda>c. if c = of_char (CHR ''t'') then Goto YY17 s else Goto YY13 s))"
| "step YY15 s = Some (Token TESTPOINT (adv s))"
| "step YY16 s = (let s = adv s in
     branch s (\<lambda>c. if is_digit1 c then Goto YY18 s else Goto YY13 s))"
| "step YY17 s = (let s = adv s in
     branch s (\<lambda>c. if c = of_char (CHR '' '') then Goto YY20 s else Goto YY13 s))"
| "step YY18 s =
     ensure (adv s) 1 (\<lambda>s. branch s (\<lambda>c. if is_digit c then Goto YY18 s else Goto YY19 s))"
| "step YY19 s = Some (Token PLAN s)"
| "step YY20 s = (let s = adv s in
     branch s (\<lambda>c. if c = of_char (CHR ''o'') then Goto YY21 s else Goto YY13 s))"
| "step YY21 s = (let s = adv s in
     branch s (\<lambda>c. if c = of_char (CHR ''k'') then Goto YY15 s else Goto YY13 s))"

text \<open>\<^verbatim>\<open>lex\<close>: from the head of the loop to a token, with fuel.\<close>

datatype lexed = Lexed token input | Lex_error input | Lex_fault | Lex_fuel

primrec lex_from :: "nat \<Rightarrow> label \<Rightarrow> input \<Rightarrow> lexed" where
  "lex_from 0 l s = Lex_fuel"
| "lex_from (Suc n) l s =
     (case step l s of
        None \<Rightarrow> Lex_fault
      | Some (Fail s') \<Rightarrow> Lex_error s'
      | Some (Token t s') \<Rightarrow> Lexed t s'
      | Some (Goto l' s') \<Rightarrow> lex_from n l' s')"

definition lex :: "nat \<Rightarrow> input \<Rightarrow> lexed" where
  "lex fuel s = lex_from fuel Head s"

text \<open>
  \<^verbatim>\<open>Scanner_Init\<close> (over a file with the given contents, which \<^verbatim>\<open>Scanner_Open\<close> opens) and
  \<^verbatim>\<open>Scanner_Scan\<close>.  \<^verbatim>\<open>END\<close> is -1, the value \<^verbatim>\<open>lex\<close> also returns on an error, and
  \<^verbatim>\<open>ANY\<close> is 0; the other token numbers come from the generated \<^verbatim>\<open>parser.h\<close> and are the
  parameter \<open>code\<close>.
\<close>

definition Scanner_Init :: "byte list \<Rightarrow> byte list \<Rightarrow> input" where
  "Scanner_Init junk contents =
     \<lparr>buf = junk, lim = BUFSIZE, cur = BUFSIZE, tok = BUFSIZE, mar = 0, eof = False, rest = contents\<rparr>"

definition Scanner_GetBufSize :: int where
  "Scanner_GetBufSize = int BUFSIZE"






subsection \<open>The input behind the buffer\<close>

text \<open>
  What a scanner still has in front of it, from the current position and from the start
  of the token: the bytes in the buffer, then the rest of the file and the padding, unless
  the padding is in the buffer already.
\<close>

definition beyond :: "input \<Rightarrow> byte list" where
  "beyond s = (if eof s then [] else rest s @ replicate 6 0)"

definition view :: "input \<Rightarrow> byte list" where
  "view s = drop (cur s) (take (lim s) (buf s)) @ beyond s"

definition tview :: "input \<Rightarrow> byte list" where
  "tview s = drop (tok s) (take (lim s) (buf s)) @ beyond s"

definition sane :: "input \<Rightarrow> bool" where
  "sane s \<longleftrightarrow> length (buf s) = 4096 \<and> tok s \<le> cur s \<and> cur s \<le> lim s \<and>
     (if eof s then 6 \<le> lim s \<and> lim s \<le> 4096 \<and> buf s ! (lim s - 1) = 0 else lim s = BUFSIZE)"

lemma sane_bounds: "sane s \<Longrightarrow> lim s \<le> length (buf s) \<and> tok s \<le> cur s \<and> cur s \<le> lim s"
  by (auto simp: sane_def BUFSIZE_def split: if_splits)

lemma view_tview: "sane s \<Longrightarrow> view s = drop (cur s - tok s) (tview s)"
  using sane_bounds [of s] by (simp add: view_def tview_def)

lemma length_view: "sane s \<Longrightarrow> lim s - cur s \<le> length (view s)"
  using sane_bounds [of s] by (simp add: view_def)

text \<open>A successful refill: the token moves to the start of the buffer, the input is kept.\<close>

lemma fill_ok:
  assumes i: "sane s" and e: "\<not> eof s" and n: "need \<le> tok s"
  obtains s' where "fill s need = Some (0, s')" and "sane s'" and "tview s' = tview s"
    and "tok s' = 0" and "cur s' = cur s - tok s" and "mar s' = mar s - int (tok s)"
    and "lim s - cur s \<le> lim s' - cur s'"
    and "if eof s' then cur s' + 6 \<le> lim s' else lim s' = BUFSIZE"
proof -
  define u where "u = lim s - tok s"
  define D where "D = drop (tok s) (take (lim s) (buf s))"
  define got where "got = take (BUFSIZE - u) (rest s)"
  define B where "B = slide (buf s) (tok s) u"
  from i e have lim: "lim s = BUFSIZE" "length (buf s) = 4096" "tok s \<le> cur s" "cur s \<le> lim s"
    by (auto simp: sane_def)
  then have tu: "tok s + u = lim s" and u: "u \<le> BUFSIZE" by (auto simp: u_def)
  have lenB: "length B = 4096" unfolding B_def
    by (subst length_slide) (use tu lim in \<open>simp_all add: BUFSIZE_def\<close>)
  have tB: "take u B = D"
  proof -
    have "take u B = take u (drop (tok s) (buf s))"
      unfolding B_def using tu lim by (intro take_slide) (simp add: BUFSIZE_def)
    with tu show ?thesis by (simp add: D_def take_drop add.commute)
  qed
  have lg: "u + length got \<le> BUFSIZE" using u by (simp add: got_def)
  obtain b where b: "blit B u got = Some b"
    using lg lenB by (simp add: blit_Some BUFSIZE_def)
  have tb: "take (u + length got) b = D @ got" and lenb: "length b = 4096"
    using blit_props [OF b] tB lenB by simp_all
  define s2 where "s2 = s\<lparr>cur := cur s - tok s, tok := 0, mar := mar s - int (tok s),
      rest := drop (BUFSIZE - u) (rest s), buf := b, lim := u + length got\<rparr>"
  have t: "tview s = D @ rest s @ replicate 6 0" by (simp add: tview_def beyond_def e D_def)
  have u1: "lim s - tok s = u" by (simp add: u_def)
  show thesis
  proof (cases "u + length got < BUFSIZE")
    case False
    with lg have full: "u + length got = BUFSIZE" by simp
    have "fill s need = Some (0, s2)"
      using n e u b full by (simp add: fill_def Let_def s2_def u1 B_def got_def [symmetric])
    moreover have "sane s2" using lim full tu u lenb by (auto simp: sane_def s2_def e)
    moreover have "tview s2 = D @ got @ drop (BUFSIZE - u) (rest s) @ replicate 6 0"
      using tb by (simp add: tview_def beyond_def s2_def e)
    then have "tview s2 = tview s" by (simp add: t got_def)
    ultimately show thesis using that [of s2] lim full by (auto simp: s2_def e)
  next
    case True
    then have "length got < BUFSIZE - u" by simp
    then have got: "got = rest s" and nil: "drop (BUFSIZE - u) (rest s) = []"
      by (simp_all add: got_def min_def split: if_splits)
    obtain b' where b': "blit b (u + length got) (replicate YYMAXFILL 0) = Some b'"
      using True lenb by (simp add: blit_Some BUFSIZE_def YYMAXFILL_def)
    let ?n = "u + length got + YYMAXFILL"
    have tb': "take ?n b' = D @ got @ replicate 6 0" and lenb': "length b' = 4096"
      using blit_props [OF b'] tb lenb by (simp_all add: YYMAXFILL_def)
    define s3 where "s3 = s2\<lparr>eof := True, buf := b', lim := ?n\<rparr>"
    have "fill s need = Some (0, s3)"
      using n e u b True b' by (simp add: fill_def Let_def s2_def s3_def u1 B_def got_def [symmetric])
    moreover have "sane s3"
    proof -
      have "?n - 1 < length b'" using True lenb' by (simp add: BUFSIZE_def YYMAXFILL_def)
      then have "b' ! (?n - 1) = take ?n b' ! (?n - 1)" by (simp add: YYMAXFILL_def)
      also have "\<dots> = 0"
      proof -
        have "length D = u" unfolding tB [symmetric] using lenB u by (simp add: BUFSIZE_def)
        then show ?thesis unfolding tb' by (simp add: nth_append YYMAXFILL_def)
      qed
      finally show ?thesis using True lim tu lenb' by (auto simp: sane_def s3_def s2_def BUFSIZE_def YYMAXFILL_def)
    qed
    moreover have "tview s3 = take ?n b'" by (simp add: tview_def beyond_def s3_def s2_def)
    then have "tview s3 = tview s" unfolding t tb' using got by simp
    ultimately show thesis using that [of s3] lim tu by (auto simp: s3_def s2_def YYMAXFILL_def)
  qed
qed

text \<open>Reading the current byte, moving within the buffer.\<close>

lemma buf_view: "sane s \<Longrightarrow> cur s + i < lim s \<Longrightarrow> buf s ! (cur s + i) = view s ! i"
  using sane_bounds [of s] by (auto simp: view_def nth_append)

lemma buf_tview: "sane s \<Longrightarrow> j < lim s \<Longrightarrow> tok s \<le> j \<Longrightarrow> buf s ! j = tview s ! (j - tok s)"
  using sane_bounds [of s] by (auto simp: tview_def nth_append)

lemma branch_in [simp]: "sane s \<Longrightarrow> cur s < lim s \<Longrightarrow> branch s f = Some (f (tview s ! (cur s - tok s)))"
  using sane_bounds [of s] by (simp add: branch_def buf_tview)

lemma adv_sane: "sane s \<Longrightarrow> cur s < lim s \<Longrightarrow> sane (adv s)"
  by (auto simp: sane_def adv_def split: if_splits)

lemma adv_simps [simp]:
  "tview (adv s) = tview s" "cur (adv s) = Suc (cur s)" "lim (adv s) = lim s" "tok (adv s) = tok s"
  "eof (adv s) = eof s" "buf (adv s) = buf s" "mar (adv s) = mar s" "rest (adv s) = rest s"
  by (simp_all add: adv_def tview_def beyond_def)

lemma length_tview: "sane s \<Longrightarrow> lim s - tok s \<le> length (tview s)"
  using sane_bounds [of s] by (simp add: tview_def)

lemma eof_end:
  assumes "sane s" and "eof s"
  shows "length (tview s) = lim s - tok s" and "tok s < lim s \<Longrightarrow> tview s ! (lim s - tok s - 1) = 0"
proof -
  note b = sane_bounds [OF assms(1)]
  show l: "length (tview s) = lim s - tok s" using b assms(2) by (simp add: tview_def beyond_def)
  assume "tok s < lim s"
  with buf_tview [OF assms(1), of "lim s - 1"] b have "tview s ! (lim s - 1 - tok s) = buf s ! (lim s - 1)"
    by simp
  with assms show "tview s ! (lim s - tok s - 1) = 0" by (simp add: sane_def diff_commute)
qed

text \<open>
  The two loops of the automaton: from a byte that continues the run to its end, refilling
  on the way, as long as the run fits the buffer.
\<close>

lemma run_loop:
  assumes loop: "\<And>s. step L s = ensure (adv s) 1 (\<lambda>s. branch s (\<lambda>c. if P c then Goto L s else Goto L' s))"
    and P0: "\<not> P 0"
    and "sane s" and "cur s < lim s" and "cur s - tok s < e" and "e < BUFSIZE" and "e < length (tview s)"
    and "\<And>j. cur s - tok s \<le> j \<Longrightarrow> j < e \<Longrightarrow> P (tview s ! j)" and "\<not> P (tview s ! e)"
  obtains s' where "\<And>k. lex_from (e - (cur s - tok s) + k) L s = lex_from k L' s'"
    and "sane s'" and "tview s' = tview s" and "cur s' - tok s' = e"
  using assms(3-)
proof (induction "e - (cur s - tok s)" arbitrary: s thesis)
  case 0
  then show ?case by simp
next
  case (Suc m)
  note b = sane_bounds [OF Suc.prems(2)]
  have a: "sane (adv s)" using adv_sane Suc.prems(2,3) by blast
  have here: "P (tview s ! (cur s - tok s))" using Suc.prems(4,7) by blast
  have j: "Suc (cur s) - tok s = Suc (cur s - tok s)" using b by (simp add: Suc_diff_le)
  obtain s1 where s1: "sane s1" "tview s1 = tview s" "cur s1 - tok s1 = Suc (cur s - tok s)" "cur s1 < lim s1"
    and st: "step L s = Some (if P (tview s ! Suc (cur s - tok s)) then Goto L s1 else Goto L' s1)"
  proof (cases "Suc (cur s) < lim s")
    case True
    then have "step L s = Some (if P (tview s ! Suc (cur s - tok s)) then Goto L (adv s) else Goto L' (adv s))"
      using a j by (simp add: loop ensure_def)
    with True j a show thesis using that [of "adv s"] by simp
  next
    case False
    then have at_lim: "Suc (cur s) = lim s" using Suc.prems(3) by simp
    have ne: "\<not> eof s"
    proof
      assume "eof s"
      from eof_end(2) [OF Suc.prems(2) this] at_lim b have "tview s ! (cur s - tok s) = 0"
        by (metis Suc.prems(3) Suc_diff_le diff_Suc_1 le_less_trans)
      with here P0 show False by simp
    qed
    with Suc.prems(2) have "lim s = BUFSIZE" by (simp add: sane_def)
    with at_lim b Suc.prems(4,5) have "1 \<le> tok (adv s)" by simp
    then obtain s1 where f: "fill (adv s) 1 = Some (0, s1)" "sane s1" "tview s1 = tview s" "tok s1 = 0"
      "cur s1 = Suc (cur s) - tok s"
      and r: "if eof s1 then cur s1 + 6 \<le> lim s1 else lim s1 = BUFSIZE"
      using fill_ok [OF a, of 1] ne by (metis adv_simps(1,2,4,5))
    have lt: "cur s1 < lim s1" using r f(5) j Suc.prems(4,5) by (auto split: if_splits)
    have "step L s = Some (if P (tview s ! Suc (cur s - tok s)) then Goto L s1 else Goto L' s1)"
      using f lt at_lim j by (simp add: loop ensure_def)
    with f lt j show thesis using that [of s1] by simp
  qed
  show ?case
  proof (cases "Suc (cur s - tok s) = e")
    case True
    with st Suc.prems(8) have "step L s = Some (Goto L' s1)" by simp
    moreover from True have "e - (cur s - tok s) = Suc 0" by simp
    ultimately have "lex_from (e - (cur s - tok s) + k) L s = lex_from k L' s1" for k by simp
    with s1 True show ?thesis using Suc.prems(1) by metis
  next
    case False
    with Suc.prems(4) have lt: "Suc (cur s - tok s) < e" by simp
    with Suc.prems(7) have "P (tview s ! Suc (cur s - tok s))" by simp
    with st have go: "step L s = Some (Goto L s1)" by simp
    have m: "m = e - (cur s1 - tok s1)" using Suc.hyps(2) s1(3) by simp
    obtain s' where s': "\<And>k. lex_from (e - (cur s1 - tok s1) + k) L s1 = lex_from k L' s'"
      "sane s'" "tview s' = tview s1" "cur s' - tok s' = e"
      using Suc.hyps(1) [OF m, of thesis] s1 lt Suc.prems(5-8) by fastforce
    have "lex_from (e - (cur s - tok s) + k) L s = lex_from k L' s'" for k
      using s'(1) [of k] go m Suc.hyps(2) by (metis Suc_eq_plus1 add_Suc lex_from.simps(2) move.simps(10) option.simps(5))
    with s' s1 show ?thesis using Suc.prems(1) by metis
  qed
qed

subsection \<open>The specification\<close>

text \<open>
  The rules of \<^verbatim>\<open>scanner.re\<close>: which byte strings each matches.  White space is skipped.
\<close>

datatype rule = R_end | R_plan | R_testpoint | R_nl | R_ws | R_any

fun matches :: "rule \<Rightarrow> byte list \<Rightarrow> bool" where
  "matches R_end w = (w = [0])"
| "matches R_plan w = (\<exists>d ds. w = bytes ''1..'' @ d # ds \<and> 49 \<le> d \<and> d \<le> 57 \<and> (\<forall>x \<in> set ds. 48 \<le> x \<and> x \<le> 57))"
| "matches R_testpoint w = (w = bytes ''ok'' \<or> w = bytes ''not ok'')"
| "matches R_nl w = (w = [CR, LF] \<or> w = [CR] \<or> w = [LF])"
| "matches R_ws w = (w \<noteq> [] \<and> set w \<subseteq> {9, 11, 32})"
| "matches R_any w = (length w = 1)"

text \<open>The longest match in front of an input, as a rule and a length.\<close>

definition next_token :: "byte list \<Rightarrow> rule \<times> nat" where
  "next_token v =
     (let c = v ! 0 in
      if c = 0 then (R_end, 1)
      else if is_ws c then (R_ws, length (takeWhile is_ws v))
      else if c = LF then (R_nl, 1)
      else if c = CR then (R_nl, if v ! 1 = LF then 2 else 1)
      else if take 3 v = bytes ''1..'' \<and> is_digit1 (v ! 3)
      then (R_plan, 3 + length (takeWhile is_digit (drop 3 v)))
      else if take 6 v = bytes ''not ok'' then (R_testpoint, 6)
      else if take 2 v = bytes ''ok'' then (R_testpoint, 2)
      else (R_any, 1))"

fun token_of :: "rule \<Rightarrow> token" where
  "token_of R_end = END"
| "token_of R_plan = PLAN"
| "token_of R_testpoint = TESTPOINT"
| "token_of R_nl = NL"
| "token_of _ = ANY"

subsection \<open>The automaton follows the specification\<close>

lemma sane_updates [simp]:
  "sane (s\<lparr>mar := m\<rparr>) \<longleftrightarrow> sane s" "tview (s\<lparr>mar := m\<rparr>) = tview s"
  "tview (s\<lparr>cur := k\<rparr>) = tview s"
  by (simp_all add: sane_def tview_def beyond_def)

lemma sane_cur: "sane s \<Longrightarrow> tok s \<le> k \<Longrightarrow> k \<le> lim s \<Longrightarrow> sane (s\<lparr>cur := k\<rparr>)"
  by (auto simp: sane_def split: if_splits)

text \<open>How the run goes on after a move.\<close>

definition resume :: "nat \<Rightarrow> move option \<Rightarrow> lexed" where
  "resume n mv =
     (case mv of
        None \<Rightarrow> Lex_fault
      | Some (Fail s) \<Rightarrow> Lex_error s
      | Some (Token t s) \<Rightarrow> Lexed t s
      | Some (Goto l s) \<Rightarrow> lex_from n l s)"

lemma lex_from_Suc: "lex_from (Suc n) l s = resume n (step l s)"
  by (simp add: resume_def split: option.splits move.splits)

lemma resume_simps [simp]:
  "resume n (Some (Goto l s)) = lex_from n l s" "resume n (Some (Token t s)) = Lexed t s"
  "resume n (Some (Fail s)) = Lex_error s"
  by (simp_all add: resume_def)

text \<open>A state with a whole token start in the buffer: six bytes from the token on.\<close>

definition loaded :: "input \<Rightarrow> bool" where
  "loaded s \<longleftrightarrow> sane s \<and> tok s = cur s \<and> cur s + 6 \<le> lim s"

text \<open>The end of a token: its kind, and a state behind its \<open>n\<close> bytes on the same input.\<close>

definition ends :: "lexed \<Rightarrow> token \<Rightarrow> input \<Rightarrow> nat \<Rightarrow> bool" where
  "ends r t s n \<longleftrightarrow>
     (\<exists>s'. r = Lexed t s' \<and> sane s' \<and> tview s' = tview s \<and> cur s' = tok s' + n)"

lemma take3: "3 \<le> length v \<Longrightarrow> take 3 v = [v ! 0, v ! 1, v ! 2]"
  by (rule nth_equalityI) (auto simp: less_Suc_eq numeral_eq_Suc nth_Cons split: nat.splits)

lemma take2: "2 \<le> length v \<Longrightarrow> take 2 v = [v ! 0, v ! 1]"
  by (rule nth_equalityI) (auto simp: less_Suc_eq numeral_eq_Suc nth_Cons split: nat.splits)

lemma take6: "6 \<le> length v \<Longrightarrow> take 6 v = [v ! 0, v ! 1, v ! 2, v ! 3, v ! 4, v ! 5]"
  by (rule nth_equalityI) (auto simp: less_Suc_eq numeral_eq_Suc nth_Cons split: nat.splits)

text \<open>\<open>at s i u\<close>: \<open>u\<close> is on the input of \<open>s\<close>, \<open>i\<close> bytes behind the start of the token.\<close>

definition at :: "input \<Rightarrow> nat \<Rightarrow> input \<Rightarrow> bool" where
  "at s i u \<longleftrightarrow> loaded s \<and> sane u \<and> tview u = tview s \<and> tok u = tok s \<and> cur u = tok s + i \<and>
     lim u = lim s"

text \<open>With the marker set behind the first byte.\<close>

definition marked :: "input \<Rightarrow> nat \<Rightarrow> input \<Rightarrow> bool" where
  "marked s i u \<longleftrightarrow> at s i u \<and> mar u = int (tok s + 1)"

lemma at_start: "loaded s \<Longrightarrow> at s 0 s"
  by (simp add: at_def loaded_def)

lemma at_adv: "at s i u \<Longrightarrow> i < 6 \<Longrightarrow> at s (Suc i) (adv u)"
  by (auto simp: at_def loaded_def intro!: adv_sane)

lemma marked_adv: "marked s i u \<Longrightarrow> i < 6 \<Longrightarrow> marked s (Suc i) (adv u)"
  by (simp add: marked_def at_adv)

lemma at_mark: "at s 0 u \<Longrightarrow> marked s (Suc 0) (mark u)"
  using at_adv [of s 0 u] by (simp add: marked_def at_def mark_def)

lemma at_branch: "at s i u \<Longrightarrow> i < 6 \<Longrightarrow> branch u f = Some (f (tview s ! i))"
  by (auto simp: at_def loaded_def)

lemma at_ends: "at s i u \<Longrightarrow> ends (Lexed t u) t s i"
  by (auto simp: at_def ends_def)

lemma marked_at: "marked s i u \<Longrightarrow> at s i u"
  by (simp add: marked_def)

lemma from_YY3: "at s 1 u \<Longrightarrow> ends (lex_from (Suc n) YY3 u) ANY s 1"
  by (simp add: at_ends)

lemma from_YY13: "marked s i u \<Longrightarrow> ends (lex_from (Suc (Suc n)) YY13 u) ANY s 1"
  by (auto simp: marked_def at_def loaded_def ends_def intro!: exI [of _ "u\<lparr>cur := nat (mar u)\<rparr>"] sane_cur)

lemma from_YY15: "at s i u \<Longrightarrow> i < 6 \<Longrightarrow> ends (lex_from (Suc n) YY15 u) TESTPOINT s (Suc i)"
  using at_adv [of s i u] by (simp add: at_ends)

lemma from_YY21:
  assumes "marked s 4 u"
  shows "ends (lex_from (Suc (Suc (Suc n))) YY21 u)
     (if tview s ! 5 = of_char (CHR ''k'') then TESTPOINT else ANY) s
     (if tview s ! 5 = of_char (CHR ''k'') then 6 else 1)"
proof -
  from marked_adv [OF assms] have m: "marked s 5 (adv u)" by (auto simp: eval_nat_numeral)
  note a = at_branch [OF marked_at [OF m]]
  from from_YY15 [OF marked_at [OF m], of "Suc n"] from_YY13 [OF m, of n]
  show ?thesis by (auto simp add: lex_from_Suc a Let_def simp del: lex_from.simps split: if_splits)
qed

lemma from_YY20:
  assumes "marked s 3 u"
  shows "ends (lex_from (Suc (Suc (Suc (Suc n)))) YY20 u)
     (if tview s ! 4 = of_char (CHR ''o'') \<and> tview s ! 5 = of_char (CHR ''k'') then TESTPOINT else ANY) s
     (if tview s ! 4 = of_char (CHR ''o'') \<and> tview s ! 5 = of_char (CHR ''k'') then 6 else 1)"
proof -
  from marked_adv [OF assms] have m: "marked s 4 (adv u)" by (auto simp: eval_nat_numeral)
  note a = at_branch [OF marked_at [OF m]]
  from from_YY21 [OF m, of n] from_YY13 [OF m, of "Suc n"]
  show ?thesis by (auto simp add: lex_from_Suc [of _ YY20] a Let_def simp del: lex_from.simps split: if_splits)
qed

lemma from_YY17:
  assumes "marked s 2 u"
  shows "ends (lex_from (Suc (Suc (Suc (Suc (Suc n))))) YY17 u)
     (if tview s ! 3 = of_char (CHR '' '') \<and> tview s ! 4 = of_char (CHR ''o'')
        \<and> tview s ! 5 = of_char (CHR ''k'') then TESTPOINT else ANY) s
     (if tview s ! 3 = of_char (CHR '' '') \<and> tview s ! 4 = of_char (CHR ''o'')
        \<and> tview s ! 5 = of_char (CHR ''k'') then 6 else 1)"
proof -
  from marked_adv [OF assms] have m: "marked s 3 (adv u)" by (auto simp: eval_nat_numeral)
  note a = at_branch [OF marked_at [OF m]]
  from from_YY20 [OF m, of n] from_YY13 [OF m, of "Suc (Suc n)"]
  show ?thesis by (auto simp add: lex_from_Suc [of _ YY17] a Let_def simp del: lex_from.simps split: if_splits)
qed

lemma from_YY10:
  assumes "at s 0 u"
  shows "ends (lex_from (Suc (Suc (Suc (Suc (Suc (Suc (Suc n))))))) YY10 u)
     (if tview s ! 1 = of_char (CHR ''o'') \<and> tview s ! 2 = of_char (CHR ''t'') \<and>
        tview s ! 3 = of_char (CHR '' '') \<and> tview s ! 4 = of_char (CHR ''o'')
        \<and> tview s ! 5 = of_char (CHR ''k'') then TESTPOINT else ANY) s
     (if tview s ! 1 = of_char (CHR ''o'') \<and> tview s ! 2 = of_char (CHR ''t'') \<and>
        tview s ! 3 = of_char (CHR '' '') \<and> tview s ! 4 = of_char (CHR ''o'')
        \<and> tview s ! 5 = of_char (CHR ''k'') then 6 else 1)"
proof -
  let ?u1 = "mark u"
  have m1: "marked s 1 ?u1" using at_mark [OF assms] by simp
  note a1 = at_branch [OF marked_at [OF m1]]
  from marked_adv [OF m1] have m2: "marked s 2 (adv ?u1)" by (auto simp: eval_nat_numeral)
  note a2 = at_branch [OF marked_at [OF m2]]
  from from_YY17 [OF m2, of n] from_YY13 [OF m2, of "Suc (Suc (Suc n))"]
    from_YY3 [OF marked_at [OF m1]]
  show ?thesis
    by (auto simp add: lex_from_Suc [of _ YY10] lex_from_Suc [of _ YY14] a1 a2 Let_def simp del: lex_from.simps split: if_splits)
qed

lemma from_YY11:
  assumes "at s 0 u"
  shows "ends (lex_from (Suc (Suc n)) YY11 u)
     (if tview s ! 1 = of_char (CHR ''k'') then TESTPOINT else ANY) s
     (if tview s ! 1 = of_char (CHR ''k'') then 2 else 1)"
proof -
  have m: "at s 1 (adv u)" using at_adv [OF assms] by simp
  note a = at_branch [OF m]
  from from_YY15 [OF m, of n] from_YY3 [OF m, of n]
  show ?thesis by (auto simp add: lex_from_Suc [of _ YY11] a Let_def numeral_2_eq_2 simp del: lex_from.simps split: if_splits)
qed

text \<open>The digits of a plan: from \<^verbatim>\<open>YY9\<close> to the loop, or back to the marker.\<close>

lemma from_YY9:
  assumes "at s 0 u"
  shows "if tview s ! 1 = of_char (CHR ''.'') \<and> tview s ! 2 = of_char (CHR ''.'') \<and> is_digit1 (tview s ! 3)
     then \<exists>u'. marked s 3 u' \<and>
       lex_from (Suc (Suc (Suc n))) YY9 u = lex_from n YY18 u'
     else ends (lex_from (Suc (Suc (Suc (Suc (Suc n))))) YY9 u) ANY s 1"
proof -
  let ?u1 = "mark u"
  have m1: "marked s 1 ?u1" using at_mark [OF assms] by simp
  note a1 = at_branch [OF marked_at [OF m1]]
  from marked_adv [OF m1] have m2: "marked s 2 (adv ?u1)" by (simp add: eval_nat_numeral)
  note a2 = at_branch [OF marked_at [OF m2]]
  from marked_adv [OF m2] have m3: "marked s 3 (adv (adv ?u1))" by (simp add: eval_nat_numeral)
  note a3 = at_branch [OF marked_at [OF m3]]
  from from_YY13 [OF m2] from_YY13 [OF m3] from_YY3 [OF marked_at [OF m1]] m3
  show ?thesis
    by (auto simp: lex_from_Suc [of _ YY9] lex_from_Suc [of _ YY12] lex_from_Suc [of _ YY16] a1 a2 a3
        Let_def simp del: lex_from.simps)
qed

text \<open>More fuel changes nothing once there is a result.\<close>

lemma lex_from_mono: "lex_from m l s = r \<Longrightarrow> r \<noteq> Lex_fuel \<Longrightarrow> m \<le> m' \<Longrightarrow> lex_from m' l s = r"
proof (induction m arbitrary: l s m')
  case (Suc m)
  then obtain m'' where "m' = Suc m''" "m \<le> m''" by (cases m') auto
  with Suc show ?case by (auto split: option.splits move.splits)
qed simp

lemma ends_mono: "ends (lex_from m l s) t u n \<Longrightarrow> m \<le> m' \<Longrightarrow> ends (lex_from m' l s) t u n"
  unfolding ends_def using lex_from_mono by blast

text \<open>The lengths of the two runs, in the form the loops need.\<close>

lemma takeWhile_run:
  assumes "e = length (takeWhile P v)" and "e < length v"
  shows "\<And>j. j < e \<Longrightarrow> P (v ! j)" and "\<not> P (v ! e)"
proof -
  show "P (v ! j)" if "j < e" for j
    using that assms(1) takeWhile_nth [of j P v] nth_mem [of j "takeWhile P v"] set_takeWhileD by metis
  show "\<not> P (v ! e)" using assms nth_length_takeWhile [of P v] by simp
qed

text \<open>The input always ends in a NUL, which stops every run.\<close>

lemma tview_last:
  assumes "sane s" and "tok s < lim s"
  shows "tview s \<noteq> [] \<and> last (tview s) = 0"
proof (cases "eof s")
  case True
  from eof_end [OF assms(1) this] assms(2) show ?thesis
    by (metis diff_is_0_eq last_conv_nth length_0_conv not_less)
next
  case False
  then show ?thesis by (simp add: tview_def beyond_def)
qed

lemma run_stops:
  assumes "v \<noteq> []" and "last v = 0" and "\<not> P 0"
  shows "length (takeWhile P v) < length v"
proof (rule ccontr)
  assume "\<not> length (takeWhile P v) < length v"
  then have "takeWhile P v = v"
    by (metis length_takeWhile_le le_neq_implies_less takeWhile_eq_take take_all)
  with assms show False by (metis last_in_set takeWhile_eq_all_conv)
qed

lemma not_special [simp]: "\<not> is_ws 0" "\<not> is_digit 0" "is_digit1 c \<Longrightarrow> is_digit c"
  by (auto simp: is_ws_def is_digit_def is_digit1_def bytes_def)

text \<open>White space: from the first switch back to the head of the loop.\<close>

lemma white_space:
  assumes l: "loaded s" and t: "next_token (tview s) = (R_ws, n)" and n: "n < BUFSIZE"
  obtains s' where "\<And>k. lex_from (Suc n + k) YY4 s = lex_from k Head s'" and "sane s'"
    and "tview s' = tview s" and "cur s' = tok s' + n" and "0 < n" and "is_ws (tview s ! 0)"
    and "tview s ! 0 \<noteq> 0"
proof -
  from l have s: "sane s" "tok s = cur s" "cur s + 6 \<le> lim s" by (auto simp: loaded_def)
  from t have w: "is_ws (tview s ! 0)" and n': "n = length (takeWhile is_ws (tview s))"
    by (auto simp: next_token_def Let_def split: if_splits)
  from tview_last [OF s(1)] s have ne: "tview s \<noteq> []" and last0: "last (tview s) = 0" by simp_all
  have lt: "n < length (tview s)" unfolding n' using ne last0 by (rule run_stops) simp
  have pos: "0 < n" unfolding n' using ne w by (cases "tview s") auto
  note run = takeWhile_run [OF n' lt]
  obtain s' where s': "\<And>k. lex_from (n - (cur s - tok s) + k) YY4 s = lex_from k YY5 s'"
    "sane s'" "tview s' = tview s" "cur s' - tok s' = n"
  proof (rule run_loop [of YY4 is_ws YY5 s n])
    show "step YY4 s = ensure (adv s) 1 (\<lambda>s. branch s (\<lambda>c. if is_ws c then Goto YY4 s else Goto YY5 s))"
      for s by simp
  qed (use s n lt pos run in auto)
  have "lex_from (Suc n + k) YY4 s = lex_from k Head s'" for k
    using s'(1) [of "Suc k"] s(2) by simp
  moreover have "cur s' = tok s' + n" using s'(4) sane_bounds [OF s'(2)] pos by simp
  ultimately show thesis using that [of s'] s' pos w by force
qed

text \<open>Every other token.\<close>

lemma other_token:
  assumes l: "loaded s" and t: "next_token (tview s) = (r, n)" and "r \<noteq> R_ws" and n: "n < BUFSIZE"
  shows "ends (resume (n + 9) (Some (first_switch s (tview s ! 0)))) (token_of r) s n"
proof -
  let ?v = "tview s"
  from l have s: "sane s" "tok s = cur s" "cur s + 6 \<le> lim s" by (auto simp: loaded_def)
  have len: "6 \<le> length ?v" using length_tview [OF s(1)] s by simp
  have a0: "at s 0 s" using l by (rule at_start)
  have a1: "at s 1 (adv s)" using at_adv [OF a0] by simp
  let ?c = "?v ! 0"
  consider (nul) "?c = 0" | (nl) "?c = LF" | (cr) "?c = CR" | (one) "?c = 49" | (n) "?c = 110"
    | (o) "?c = 111" | (any) "?c \<notin> {0, LF, CR, 49, 110, 111}" by blast
  then show ?thesis
  proof cases
    case nul
    with t have r: "r = R_end" "n = 1" by (simp_all add: next_token_def Let_def)
    have f: "first_switch s ?c = Goto YY1 s" using nul by (simp add: first_switch_def)
    have e: "ends (lex_from (Suc 0) YY1 s) END s 1" using at_ends [OF a1] by simp
    show ?thesis unfolding f resume_simps r token_of.simps by (rule ends_mono [OF e]) simp
  next
    case nl
    with t have r: "r = R_nl" "n = 1" by (simp_all add: next_token_def Let_def is_ws_def)
    have f: "first_switch s ?c = Goto YY6 s" using nl by (simp add: first_switch_def is_ws_def)
    have e: "ends (lex_from (Suc (Suc 0)) YY6 s) NL s 1" using at_ends [OF a1] by simp
    show ?thesis unfolding f resume_simps r token_of.simps by (rule ends_mono [OF e]) simp
  next
    case cr
    with t have r: "r = R_nl" "n = (if ?v ! 1 = LF then 2 else 1)"
      by (simp_all add: next_token_def Let_def is_ws_def)
    have f: "first_switch s ?c = Goto YY8 s" using cr by (simp add: first_switch_def is_ws_def)
    have a2: "at s 2 (adv (adv s))" using at_adv [OF a1] by (simp add: numeral_2_eq_2)
    have "ends (lex_from (Suc (Suc (Suc 0))) YY8 s) NL s n"
      using at_ends [OF a1] at_ends [OF a2] at_branch [OF a1] r(2) by (simp add: Let_def)
    then show ?thesis unfolding f resume_simps r(1) token_of.simps by (rule ends_mono) simp
  next
    case n
    have f: "first_switch s ?c = Goto YY10 s" by (simp add: n first_switch_def is_ws_def)
    from n t assms(3) len have tr: "token_of r = (if ?v ! 1 = of_char (CHR ''o'') \<and> ?v ! 2 = of_char (CHR ''t'') \<and>
        ?v ! 3 = of_char (CHR '' '') \<and> ?v ! 4 = of_char (CHR ''o'') \<and> ?v ! 5 = of_char (CHR ''k'')
        then TESTPOINT else ANY)"
      and nn: "n = (if ?v ! 1 = of_char (CHR ''o'') \<and> ?v ! 2 = of_char (CHR ''t'') \<and>
        ?v ! 3 = of_char (CHR '' '') \<and> ?v ! 4 = of_char (CHR ''o'') \<and> ?v ! 5 = of_char (CHR ''k'')
        then 6 else 1)"
      by (auto simp: next_token_def Let_def is_ws_def take2 take3 take6 bytes_def split: if_splits)
    have e: "ends (lex_from (Suc (Suc (Suc (Suc (Suc (Suc (Suc 0))))))) YY10 s) (token_of r) s n"
      unfolding tr nn by (rule from_YY10 [OF a0])
    show ?thesis unfolding f resume_simps by (rule ends_mono [OF e]) simp
  next
    case o
    have f: "first_switch s ?c = Goto YY11 s" by (simp add: o first_switch_def is_ws_def)
    from o t assms(3) len have tr: "token_of r = (if ?v ! 1 = of_char (CHR ''k'') then TESTPOINT else ANY)"
      and nn: "n = (if ?v ! 1 = of_char (CHR ''k'') then 2 else 1)"
      by (auto simp: next_token_def Let_def is_ws_def take2 take3 take6 bytes_def split: if_splits)
    have e: "ends (lex_from (Suc (Suc 0)) YY11 s) (token_of r) s n"
      unfolding tr nn by (rule from_YY11 [OF a0])
    show ?thesis unfolding f resume_simps by (rule ends_mono [OF e]) simp
  next
    case any
    show ?thesis
    proof (cases "is_ws ?c")
      case True
      with any t assms(3) show ?thesis by (simp add: next_token_def Let_def)
    next
      case False
      with any t len have r: "r = R_any" "n = 1"
        by (auto simp: next_token_def Let_def take2 take3 take6 bytes_def)
      have f: "first_switch s ?c = Goto YY2 s" using any False by (simp add: first_switch_def)
      have e: "ends (lex_from (Suc (Suc 0)) YY2 s) ANY s 1" using at_ends [OF a1] by simp
      show ?thesis unfolding f resume_simps r token_of.simps by (rule ends_mono [OF e]) simp
    qed
  next
    case one
    have f: "first_switch s ?c = Goto YY9 s" by (simp add: one first_switch_def is_ws_def)
    show ?thesis
    proof (cases "?v ! 1 = of_char (CHR ''.'') \<and> ?v ! 2 = of_char (CHR ''.'') \<and> is_digit1 (?v ! 3)")
      case False
      with one t assms(3) len have r: "r = R_any" "n = 1"
        by (auto simp: next_token_def Let_def is_ws_def take2 take3 take6 bytes_def split: if_splits)
      have e: "ends (lex_from (Suc (Suc (Suc (Suc (Suc 0))))) YY9 s) ANY s 1"
        using from_YY9 [OF a0, of 0] False by (simp only: if_False)
      show ?thesis unfolding f resume_simps r token_of.simps by (rule ends_mono [OF e]) simp
    next
      case True
      let ?e = "length (takeWhile is_digit (drop 3 ?v))"
      from one t True len have r: "r = R_plan" and n': "n = 3 + ?e"
        by (auto simp: next_token_def Let_def is_ws_def take3 bytes_def split: if_splits)
      have nz: "\<not> is_digit 0" by simp
      from tview_last [OF s(1)] s have ne: "?v \<noteq> []" and last0: "last ?v = 0" by simp_all
      have ne3: "drop 3 ?v \<noteq> []" using len by simp
      have lt: "?e < length (drop 3 ?v)"
        using ne3 _ nz by (rule run_stops) (use ne3 last0 in simp)
      note run = takeWhile_run [OF refl lt]
      have pos: "0 < ?e"
      proof -
        have "drop 3 ?v = ?v ! 3 # drop 4 ?v" using len by (simp add: Cons_nth_drop_Suc eval_nat_numeral)
        with True show ?thesis by simp
      qed
      have ex: "\<exists>u'. marked s 3 u' \<and> lex_from (Suc (Suc (Suc k))) YY9 s = lex_from k YY18 u'" for k
        using from_YY9 [OF a0, of k] True by simp
      define fuel where "fuel = ?e + Suc 0"
      obtain u' where u': "marked s 3 u'" "lex_from (Suc (Suc (Suc fuel))) YY9 s = lex_from fuel YY18 u'"
        using ex by blast
      then have u: "sane u'" "tview u' = ?v" "tok u' = tok s" "cur u' = tok s + 3" "lim u' = lim s"
        by (auto simp: marked_def at_def)
      obtain s' where s': "\<And>k. lex_from (n - (cur u' - tok u') + k) YY18 u' = lex_from k YY19 s'"
        "sane s'" "tview s' = tview u'" "cur s' - tok s' = n"
      proof (rule run_loop [of YY18 is_digit YY19 u' n])
        show "step YY18 s = ensure (adv s) 1 (\<lambda>s. branch s (\<lambda>c. if is_digit c then Goto YY18 s else Goto YY19 s))"
          for s by simp
        show "is_digit (tview u' ! j)" if "cur u' - tok u' \<le> j" "j < n" for j
          using run(1) [of "j - 3"] that u n' len by simp
        show "\<not> is_digit (tview u' ! n)" using run(2) u n' lt by simp
      qed (use u s n lt pos n' in auto)
      have "lex_from fuel YY18 u' = Lexed PLAN s'"
        using s'(1) [of "Suc 0"] u n' by (simp add: fuel_def)
      moreover have "cur s' = tok s' + n" using s'(4) sane_bounds [OF s'(2)] n' by simp
      ultimately have e: "ends (lex_from (Suc (Suc (Suc fuel))) YY9 s) PLAN s n"
        using s' u u'(2) by (auto simp: ends_def)
      show ?thesis unfolding f resume_simps r token_of.simps
        by (rule ends_mono [OF e]) (simp add: fuel_def n')
    qed
  qed
qed

text \<open>The head of the loop: a refill if fewer than six bytes are left.\<close>

lemma ensure_at_eof: "eof s \<Longrightarrow> lim s - cur s < n \<Longrightarrow> ensure s n k = Some (Fail s)"
  by (simp add: ensure_def fill_def)

lemma head_step:
  assumes s: "sane s"
  shows "if length (view s) < 6 then \<exists>s'. step Head s = Some (Fail s')
     else \<exists>s1. loaded s1 \<and> tview s1 = view s \<and> step Head s = Some (first_switch s1 (tview s1 ! 0))"
proof -
  let ?s = "s\<lparr>tok := cur s\<rparr>"
  have b: "tok s \<le> cur s" "cur s \<le> lim s" using sane_bounds [OF s] by auto
  have s1: "sane ?s" using s by (auto simp: sane_def split: if_splits)
  have tv: "tview ?s = view s" by (simp add: tview_def view_def beyond_def)
  have same: "lim ?s = lim s" "cur ?s = cur s" "tok ?s = cur s" "eof ?s = eof s" by simp_all
  have enter: "step Head s = Some (first_switch u (tview u ! 0))"
    if l: "loaded u" and e: "ensure ?s 6 (\<lambda>s. branch s (first_switch s)) = branch u (first_switch u)" for u
  proof -
    from l have "branch u (first_switch u) = Some (first_switch u (tview u ! (cur u - tok u)))"
      by (simp add: loaded_def)
    with l e show ?thesis by (simp add: loaded_def)
  qed
  show ?thesis
  proof (cases "lim s - cur s < 6")
    case False
    then have l: "loaded ?s" using s1 b by (simp add: loaded_def)
    have nl: "\<not> length (view s) < 6" using length_view [OF s] False by simp
    have "ensure ?s 6 (\<lambda>s. branch s (first_switch s)) = branch ?s (first_switch ?s)"
      unfolding ensure_def same using False by (simp only: if_False)
    from enter [OF l this] have "step Head s = Some (first_switch ?s (tview ?s ! 0))" .
    with l tv have "\<exists>s1. loaded s1 \<and> tview s1 = view s \<and> step Head s = Some (first_switch s1 (tview s1 ! 0))"
      by blast
    with nl show ?thesis by (simp only: if_False)
  next
    case True
    show ?thesis
    proof (cases "eof s")
      case e: True
      then have "length (view s) = lim s - cur s" using sane_bounds [OF s] by (simp add: view_def beyond_def)
      with True have "length (view s) < 6" by simp
      moreover have "step Head s = Some (Fail ?s)"
        unfolding step.simps by (rule ensure_at_eof) (use e True in simp_all)
      ultimately show ?thesis by (simp only: if_True) blast
    next
      case False
      with s have "lim s = BUFSIZE" by (simp add: sane_def)
      with True have "6 \<le> tok ?s" by (simp add: BUFSIZE_def)
      moreover have "\<not> eof ?s" using False by simp
      ultimately obtain s' where f: "fill ?s 6 = Some (0, s')" "sane s'" "tview s' = tview ?s" "tok s' = 0"
        "cur s' = cur ?s - tok ?s" and r: "if eof s' then cur s' + 6 \<le> lim s' else lim s' = BUFSIZE"
        using fill_ok [OF s1] by metis
      from f(4,5) same have "cur s' = 0" by simp
      then have l: "loaded s'" using f(2,4) r by (auto simp: loaded_def BUFSIZE_def split: if_splits)
      have nl: "\<not> length (view s) < 6" using False by (simp add: view_def beyond_def)
      have "ensure ?s 6 (\<lambda>s. branch s (first_switch s)) = branch s' (first_switch s')"
        unfolding ensure_def same f(1) using True by simp
      from enter [OF l this] have "step Head s = Some (first_switch s' (tview s' ! 0))" .
      with l tv f(3) have "\<exists>s1. loaded s1 \<and> tview s1 = view s \<and> step Head s = Some (first_switch s1 (tview s1 ! 0))"
        by metis
      with nl show ?thesis by (simp only: if_False)
    qed
  qed
qed

text \<open>Scanning an input: white space is skipped; \<open>None\<close> when fewer than six bytes are left.\<close>

lemma next_token_pos: "next_token v = (r, n) \<Longrightarrow> v \<noteq> [] \<Longrightarrow> 0 < n"
  by (cases v) (auto simp: next_token_def Let_def split: if_splits)

function scan :: "byte list \<Rightarrow> (rule \<times> byte list) option" where
  "scan v =
     (if length v < 6 then None
      else let (r, n) = next_token v in if r = R_ws then scan (drop n v) else Some (r, drop n v))"
  by pat_completeness auto
termination
proof (relation "measure length", goal_cases)
  case (2 v p r n)
  then have "v \<noteq> []" by auto
  with 2 next_token_pos [of v r n] show ?case by simp
qed simp

declare scan.simps [simp del]

text \<open>No run of white space or digits is longer than the buffer.\<close>

definition short_runs :: "byte list \<Rightarrow> bool" where
  "short_runs v \<longleftrightarrow> (\<forall>i \<le> length v. length (takeWhile is_ws (drop i v)) < BUFSIZE \<and>
     length (takeWhile is_digit (drop i v)) + 3 < BUFSIZE)"

lemma short_runs_drop: "short_runs v \<Longrightarrow> short_runs (drop n v)"
  unfolding short_runs_def
  by (metis add.commute drop_all drop_drop le_add1 length_drop nat_le_linear take_all_iff takeWhile.simps(1))

lemma short_token:
  assumes s: "short_runs v" and t: "next_token v = (r, n)" and l: "6 \<le> length v"
  shows "n < BUFSIZE"
proof -
  have "length (takeWhile is_ws (drop 0 v)) < BUFSIZE"
    using s unfolding short_runs_def by blast
  moreover have "3 \<le> length v" using l by simp
  then have "length (takeWhile is_digit (drop 3 v)) + 3 < BUFSIZE"
    using s unfolding short_runs_def by blast
  ultimately show ?thesis using t
    by (auto simp: next_token_def Let_def BUFSIZE_def split: if_splits)
qed

lemma next_token_le:
  assumes t: "next_token v = (r, n)" and l: "6 \<le> length v"
  shows "n \<le> length v"
proof -
  have "length (takeWhile is_digit (drop 3 v)) \<le> length v - 3"
    using length_takeWhile_le [of is_digit "drop 3 v"] by simp
  with t l length_takeWhile_le [of is_ws v] show ?thesis
    by (auto simp: next_token_def Let_def split: if_splits)
qed

lemma view_after: "sane s' \<Longrightarrow> cur s' = tok s' + n \<Longrightarrow> view s' = drop n (tview s')"
  by (simp add: view_tview)

text \<open>The automaton with its refilled buffer against the specification.\<close>

lemma lex_refines_scan_aux:
  assumes "sane s" and "short_runs (view s)" and "3 * length (view s) + 10 \<le> fuel"
  shows "case scan (view s) of
     None \<Rightarrow> \<exists>s'. lex fuel s = Lex_error s'
   | Some (r, v') \<Rightarrow> \<exists>s'. lex fuel s = Lexed (token_of r) s' \<and> sane s' \<and> view s' = v'"
  using assms unfolding lex_def
proof (induction "length (view s)" arbitrary: s fuel rule: less_induct)
  case less
  from less.prems(3) obtain n0 where fuel: "fuel = Suc n0" by (cases fuel) auto
  show ?case
  proof (cases "length (view s) < 6")
    case True
    with head_step [OF less.prems(1)] show ?thesis
      by (auto simp: fuel lex_from_Suc scan.simps [of "view s"] simp del: step.simps lex_from.simps)
  next
    case False
    with head_step [OF less.prems(1)] obtain s1 where l: "loaded s1" and tv: "tview s1 = view s"
      and st: "step Head s = Some (first_switch s1 (tview s1 ! 0))" by auto
    obtain r n where t: "next_token (tview s1) = (r, n)" by (cases "next_token (tview s1)")
    have n: "n < BUFSIZE" using short_token [OF less.prems(2)] t tv False by simp
    have lexf: "lex_from fuel Head s = resume n0 (Some (first_switch s1 (tview s1 ! 0)))"
      by (simp only: fuel lex_from_Suc st)
    have n': "n \<le> length (view s)" using next_token_le [OF t] tv False by simp
    show ?thesis
    proof (cases "r = R_ws")
      case True
      then have t': "next_token (tview s1) = (R_ws, n)" using t by simp
      obtain s' where s': "\<And>k. lex_from (Suc n + k) YY4 s1 = lex_from k Head s'" "sane s'"
        "tview s' = tview s1" "cur s' = tok s' + n" "0 < n" "is_ws (tview s1 ! 0)" "tview s1 ! 0 \<noteq> 0"
        by (rule white_space [OF l t' n]) blast
      have v': "view s' = drop n (view s)" using view_after [OF s'(2,4)] s'(3) tv by simp
      have "first_switch s1 (tview s1 ! 0) = Goto YY4 s1" using s'(6,7) by (simp add: first_switch_def)
      with lexf have e: "lex_from fuel Head s = lex_from n0 YY4 s1" by simp
      have le: "Suc n \<le> n0" using less.prems(3) fuel n' by simp
      have "lex_from fuel Head s = lex_from (n0 - Suc n) Head s'"
        using s'(1) [of "n0 - Suc n"] le e by simp
      moreover have "length (view s') < length (view s)" using v' s'(5) n' by simp
      moreover have "3 * length (view s') + 10 \<le> n0 - Suc n"
        using v' less.prems(3) fuel n' s'(5) by simp
      moreover have "short_runs (view s')" using v' short_runs_drop less.prems(2) by simp
      moreover have "scan (view s) = scan (view s')"
        using False t tv True v' by (subst scan.simps) simp
      ultimately show ?thesis using less.hyps [of s' "n0 - Suc n"] s'(2) by (simp only:)
    next
      case other: False
      have "n + 9 \<le> n0" using less.prems(3) fuel n' False by linarith
      moreover have "ends (resume (n + 9) (Some (first_switch s1 (tview s1 ! 0)))) (token_of r) s1 n"
        by (rule other_token [OF l t other n])
      ultimately have "ends (resume n0 (Some (first_switch s1 (tview s1 ! 0)))) (token_of r) s1 n"
        using ends_mono by (cases "first_switch s1 (tview s1 ! 0)") auto
      then obtain s' where s': "lex_from fuel Head s = Lexed (token_of r) s'" "sane s'"
        "tview s' = tview s1" "cur s' = tok s' + n"
        unfolding lexf ends_def by blast
      have "view s' = drop n (view s)" using view_after [OF s'(2,4)] s'(3) tv by simp
      moreover have "scan (view s) = Some (r, drop n (view s))"
        using False t tv other by (subst scan.simps) simp
      ultimately show ?thesis using s' by simp
    qed
  qed
qed

subsection \<open>The longest match\<close>

lemma le_takeWhile_iff:
  "k \<le> length xs \<Longrightarrow> k \<le> length (takeWhile P xs) \<longleftrightarrow> (\<forall>x \<in> set (take k xs). P x)"
proof (induction xs arbitrary: k)
  case (Cons x xs)
  then show ?case by (cases k) auto
qed simp

text \<open>The order of the rules in \<^verbatim>\<open>scanner.re\<close>; the default rule comes last.\<close>

fun rank :: "rule \<Rightarrow> nat" where
  "rank R_end = 0" | "rank R_plan = 1" | "rank R_testpoint = 2" | "rank R_nl = 3"
| "rank R_ws = 4" | "rank R_any = 5"

text \<open>What a match in front of an input looks like, for each rule.\<close>

fun shape :: "rule \<Rightarrow> byte list \<Rightarrow> nat \<Rightarrow> bool" where
  "shape R_end v m = (v ! 0 = 0 \<and> m = 1)"
| "shape R_plan v m =
     (take 3 v = bytes ''1..'' \<and> is_digit1 (v ! 3) \<and> 3 < m \<and> m \<le> 3 + length (takeWhile is_digit (drop 3 v)))"
| "shape R_testpoint v m = (take 2 v = bytes ''ok'' \<and> m = 2 \<or> take 6 v = bytes ''not ok'' \<and> m = 6)"
| "shape R_nl v m = (v ! 0 = CR \<and> v ! 1 = LF \<and> m = 2 \<or> (v ! 0 = CR \<or> v ! 0 = LF) \<and> m = 1)"
| "shape R_ws v m = (0 < m \<and> is_ws (v ! 0) \<and> m \<le> length (takeWhile is_ws v))"
| "shape R_any v m = (m = 1)"

lemma is_digit1_digit: "is_digit1 c \<Longrightarrow> is_digit c"
  by (auto simp: is_digit_def is_digit1_def bytes_def)

lemma digit_ranges:
  "is_digit1 c \<longleftrightarrow> 49 \<le> c \<and> c \<le> 57" "is_digit c \<longleftrightarrow> 48 \<le> c \<and> c \<le> 57"
proof -
  have r: "a \<le> c \<and> c \<le> b \<longleftrightarrow> uint a \<le> uint c \<and> uint c \<le> uint b" for a b :: byte
    by (simp add: word_le_def)
  show "is_digit1 c \<longleftrightarrow> 49 \<le> c \<and> c \<le> 57" "is_digit c \<longleftrightarrow> 48 \<le> c \<and> c \<le> 57"
    unfolding r by (simp_all add: is_digit1_def is_digit_def bytes_def word_uint_eq_iff) presburger+
qed

lemma matches_classes [simp]:
  "matches R_plan w \<longleftrightarrow> (\<exists>d ds. w = bytes ''1..'' @ d # ds \<and> is_digit1 d \<and> (\<forall>x \<in> set ds. is_digit x))"
  "matches R_ws w \<longleftrightarrow> w \<noteq> [] \<and> (\<forall>x \<in> set w. is_ws x)"
  by (simp add: digit_ranges) (auto simp: is_ws_def)

declare matches.simps(2,5) [simp del]

lemma matches_shape:
  assumes "6 \<le> length v" and "m \<le> length v"
  shows "matches r (take m v) \<longleftrightarrow> shape r v m"
proof -
  obtain c0 c1 c2 c3 c4 c5 w where v: "v = c0 # c1 # c2 # c3 # c4 # c5 # w"
    using assms(1) by (auto simp: numeral_eq_Suc Suc_le_length_iff)
  have short: "m = 0 \<or> m = 1 \<or> m = 2 \<or> m = 3 \<or> (\<exists>k. m = Suc (Suc (Suc (Suc k))))" by presburger
  have six: "take m v = [a, b, c, d, e, f] \<longleftrightarrow> m = 6 \<and> [c0, c1, c2, c3, c4, c5] = [a, b, c, d, e, f]"
    for a b c d e f
    using assms(2) by (auto simp: v take_Cons' numeral_eq_Suc split: if_splits)
  have two: "take m v = [a, b] \<longleftrightarrow> m = 2 \<and> [c0, c1] = [a, b]" for a b
    using assms(2) by (auto simp: v take_Cons' split: if_splits)
  have one: "take m v = [a] \<longleftrightarrow> m = 1 \<and> c0 = a" for a
    using assms(2) by (auto simp: v take_Cons' split: if_splits)
  show ?thesis
  proof (cases r)
    case R_plan
    show ?thesis
    proof (cases "3 < m")
      case True
      then obtain k where m: "m = Suc (Suc (Suc (Suc k)))" using short by auto
      have k: "k \<le> length (c4 # c5 # w)" using assms(2) m v by simp
      show ?thesis using le_takeWhile_iff [OF k, of is_digit] is_digit1_digit [of c3]
        by (auto simp: R_plan v m bytes_def numeral_3_eq_3 simp del: takeWhile.simps(2))
           (auto)
    next
      case False
      have "length (take m v) \<le> 3" using False by simp
      then have "take m v \<noteq> bytes ''1..'' @ d # ds" for d ds
        by (intro notI) (drule arg_cong [of _ _ length], simp add: bytes_def)
      then show ?thesis using False by (auto simp: R_plan)
    qed
  next
    case R_ws
    show ?thesis using le_takeWhile_iff [OF assms(2), of is_ws]
      by (cases m) (auto simp: R_ws v)
  next
    case R_any
    with assms show ?thesis by auto
  next
    case R_end
    then show ?thesis using one by (auto simp: v)
  next
    case R_testpoint
    then show ?thesis unfolding matches.simps shape.simps using two six by (simp add: bytes_def v) blast
  next
    case R_nl
    then show ?thesis using one two by (auto simp: v)
  qed
qed

lemma ws_only: "is_ws c \<Longrightarrow> c \<noteq> 0 \<and> c \<noteq> CR \<and> c \<noteq> LF \<and> c \<noteq> 0x31 \<and> c \<noteq> 0x6E \<and> c \<noteq> 0x6F"
  by (auto simp: is_ws_def)

lemma next_token_longest:
  assumes l: "6 \<le> length v" and t: "next_token v = (r, n)"
  shows "shape r v n" and "shape r' v m \<Longrightarrow> m \<le> n \<and> (m = n \<longrightarrow> rank r \<le> rank r')"
proof -
  have t2: "take 2 v = [v ! 0, v ! 1]" by (rule take2) (use l in simp)
  have t3: "take 3 v = [v ! 0, v ! 1, v ! 2]" by (rule take3) (use l in simp)
  have t6: "take 6 v = [v ! 0, v ! 1, v ! 2, v ! 3, v ! 4, v ! 5]" by (rule take6) (use l in simp)
  have w: "is_ws (v ! 0) \<Longrightarrow> Suc 0 \<le> length (takeWhile is_ws v)" using l by (cases v) auto
  have d: "is_digit1 (v ! 3) \<Longrightarrow> Suc 0 \<le> length (takeWhile is_digit (drop 3 v))"
    using l is_digit1_digit [of "v ! 3"] by (cases "drop 3 v") (auto simp: nth_via_drop)
  note defs = next_token_def Let_def t2 t3 t6 bytes_def
  show "shape r v n"
    using t w d by (auto simp: defs split: if_splits)
  show "m \<le> n \<and> (m = n \<longrightarrow> rank r \<le> rank r')" if "shape r' v m"
  proof (cases "is_ws (v ! 0)")
    case True
    with t ws_only [OF True] have r: "r = R_ws" "n = length (takeWhile is_ws v)"
      by (simp_all add: next_token_def Let_def)
    then show ?thesis using that w [OF True] ws_only [OF True] True
      by (cases r') (auto simp: t2 t3 t6 bytes_def)
  next
    case False
    then show ?thesis using that t d by (cases r') (auto simp: defs split: if_splits)
  qed
qed

text \<open>
  \<open>r\<close> matches \<open>w\<close> in front of the input \<open>w @ v\<close>, no rule matches a longer front, and those
  that match the same come later in \<^verbatim>\<open>scanner.re\<close>.
\<close>

definition longest_match :: "rule \<Rightarrow> byte list \<Rightarrow> byte list \<Rightarrow> bool" where
  "longest_match r w v \<longleftrightarrow> matches r w \<and>
     (\<forall>r' m. m \<le> length (w @ v) \<and> matches r' (take m (w @ v)) \<longrightarrow>
        m \<le> length w \<and> (m = length w \<longrightarrow> rank r \<le> rank r'))"

lemma next_token_matches:
  assumes "6 \<le> length v" and "next_token v = (r, n)"
  shows "longest_match r (take n v) (drop n v)"
proof -
  have n: "n \<le> length v" by (rule next_token_le [OF assms(2,1)])
  have "m \<le> n \<and> (m = n \<longrightarrow> rank r \<le> rank r')" if "m \<le> length v" "matches r' (take m v)" for r' m
    using next_token_longest(2) [OF assms] matches_shape [OF assms(1) that(1)] that(2) by blast
  moreover have "matches r (take n v)"
    using next_token_longest(1) [OF assms] matches_shape [OF assms(1) n] by blast
  ultimately show ?thesis
    unfolding longest_match_def append_take_drop_id length_take min_absorb2 [OF n] by blast
qed

text \<open>White space in front of a token is skipped, all of it.\<close>

lemma scan_longest:
  "scan v = Some (r, v') \<Longrightarrow>
   \<exists>ws w. v = ws @ w @ v' \<and> set ws \<subseteq> {9, 11, 32} \<and> r \<noteq> R_ws \<and> longest_match r w v'"
proof (induction v rule: scan.induct)
  case (1 v)
  obtain q n where t: "next_token v = (q, n)" by (cases "next_token v")
  from "1.prems" have l: "\<not> length v < 6" by (auto simp: scan.simps [of v])
  then have m: "longest_match q (take n v) (drop n v)" using t by (simp add: next_token_matches)
  show ?case
  proof (cases "q = R_ws")
    case True
    with "1.prems" l t have "scan (drop n v) = Some (r, v')" by (simp add: scan.simps [of v])
    with "1.IH" [OF l t [symmetric] refl True] obtain ws w where
      w: "drop n v = ws @ w @ v'" "set ws \<subseteq> {9, 11, 32}" "r \<noteq> R_ws" "longest_match r w v'" by blast
    have "set (take n v) \<subseteq> {9, 11, 32}" using m True by (auto simp: longest_match_def is_ws_def)
    moreover have "v = (take n v @ ws) @ w @ v'" using w(1) by (metis append.assoc append_take_drop_id)
    ultimately show ?thesis using w by (intro exI [of _ "take n v @ ws"] exI [of _ w]) auto
  next
    case False
    with "1.prems" l t have "r = q" "v' = drop n v" by (simp_all add: scan.simps [of v])
    with m False show ?thesis by (intro exI [of _ "[]"] exI [of _ "take n v"]) simp
  qed
qed

subsection \<open>Whole files\<close>

lemma fresh_scanner:
  assumes "length junk = 4096"
  shows "sane (Scanner_Init junk contents)"
    and "view (Scanner_Init junk contents) = contents @ replicate 6 0"
  using assms by (simp_all add: sane_def Scanner_Init_def view_def beyond_def BUFSIZE_def)





text \<open>The tokens scanned until the first that stops the loop of \<^verbatim>\<open>main\<close>, and its return value.\<close>

definition proper :: "token \<Rightarrow> bool" where
  "proper t \<longleftrightarrow> t \<noteq> END \<and> t \<noteq> ANY"

lemma proper_simps [simp]:
  "\<not> proper END" "\<not> proper ANY" "proper PLAN" "proper TESTPOINT" "proper NL"
  by (simp_all add: proper_def)





text \<open>
  C19: from any sane state whose input has no run longer than the buffer, with fuel for three
  steps per byte, the automaton with its refilled buffer returns the next token of the
  specification and leaves exactly the input behind it; it fails exactly when fewer than
  six bytes are left, which happens only behind the terminating NUL.
\<close>

theorem lex_refines_scan:
  assumes "sane s" and "short_runs (view s)" and "3 * length (view s) + 10 \<le> fuel"
  shows "case scan (view s) of
     None \<Rightarrow> \<exists>s'. lex fuel s = Lex_error s'
   | Some (r, v') \<Rightarrow> \<exists>s'. lex fuel s = Lexed (token_of r) s' \<and> sane s' \<and> view s' = v'"
  by (rule lex_refines_scan_aux [OF assms])

text \<open>
  C20: what the automaton returns, in terms of the rules of \<^verbatim>\<open>scanner.re\<close>: from any sane state
  whose input has no run longer than the buffer, with fuel for three steps per byte, when
  it returns a token it has consumed only white space (tab, vertical tab, blank) and then
  the longest front of the input that some rule matches, and the token is that of the first
  rule in the file among those that match as much, which is not the one for white space.
\<close>

theorem lex_longest_match:
  assumes "sane s" and "short_runs (view s)" and "3 * length (view s) + 10 \<le> fuel"
    and "lex fuel s = Lexed t s'"
  shows "\<exists>ws w r. view s = ws @ w @ view s' \<and> set ws \<subseteq> {9, 11, 32} \<and>
     t = token_of r \<and> r \<noteq> R_ws \<and> longest_match r w (view s')"
proof (cases "scan (view s)")
  case None
  with lex_refines_scan_aux [OF assms(1-3)] assms(4) show ?thesis by simp
next
  case (Some p)
  obtain r v' where p: "p = (r, v')" by (cases p)
  with Some lex_refines_scan_aux [OF assms(1-3)] assms(4) have "t = token_of r" "view s' = v'" by auto
  with scan_longest [of "view s" r v'] Some p show ?thesis by blast
qed

lemma short_runs_small: "length v + 3 < BUFSIZE \<Longrightarrow> short_runs v"
  unfolding short_runs_def
  by (metis (no_types, lifting) add.commute add_leD2 add_mono_thms_linordered_semiring(1) diff_le_self
      le_refl length_drop length_takeWhile_le order.strict_trans1 order.trans)

definition ok_file :: "byte list" where
  "ok_file = bytes ''ok''"

definition zero_buffer :: "byte list" where
  "zero_buffer = replicate 4096 0"

lemma six_zeros: "replicate 6 (0 :: byte) = [0, 0, 0, 0, 0, 0]"
  by (simp add: numeral_eq_Suc)

lemma scan_ok_file: "scan (ok_file @ replicate 6 0) = Some (R_testpoint, replicate 6 0)"
proof -
  have "next_token (ok_file @ [0, 0, 0, 0, 0, 0]) = (R_testpoint, 2)"
    by (simp add: ok_file_def bytes_def next_token_def is_ws_def)
  then show ?thesis unfolding six_zeros by (subst scan.simps) (simp add: ok_file_def bytes_def)
qed


lemma ok_file_short: "short_runs (ok_file @ replicate 6 0)" "length ok_file = 2"
  by (simp_all add: short_runs_small ok_file_def bytes_def BUFSIZE_def)

lemma lex_refines_scan_witness:
  "\<exists>s'. lex 40 (Scanner_Init zero_buffer ok_file) = Lexed TESTPOINT s' \<and> view s' = replicate 6 0"
proof -
  have j: "length zero_buffer = 4096" by (simp add: zero_buffer_def)
  note fs = fresh_scanner [OF j, of ok_file]
  from lex_refines_scan [OF fs(1), of 40] show ?thesis
    by (auto simp: fs(2) ok_file_short scan_ok_file)
qed

lemma lex_longest_match_witness:
  "\<exists>s' ws w. lex 40 (Scanner_Init zero_buffer ok_file) = Lexed TESTPOINT s' \<and>
     ok_file @ replicate 6 0 = ws @ w @ view s' \<and> longest_match R_testpoint w (view s')"
proof -
  have j: "length zero_buffer = 4096" by (simp add: zero_buffer_def)
  note fs = fresh_scanner [OF j, of ok_file]
  have h: "short_runs (view (Scanner_Init zero_buffer ok_file))"
    "3 * length (view (Scanner_Init zero_buffer ok_file)) + 10 \<le> (40::nat)"
    by (simp_all add: fs(2) ok_file_short)
  from lex_refines_scan_aux [OF fs(1) h] obtain s' where
    l: "lex 40 (Scanner_Init zero_buffer ok_file) = Lexed TESTPOINT s'"
    by (auto simp: fs(2) scan_ok_file)
  have r: "r = R_testpoint" if "TESTPOINT = token_of r" for r using that by (cases r) simp_all
  from lex_longest_match [OF fs(1) h l] l r show ?thesis unfolding fs(2) by blast
qed







text \<open>The refill contract.\<close>

interpretation re2c: refill
  "\<lambda>s n. case fill s n of Some (ret, s') \<Rightarrow> if ret = 0 then Some s' else None | None \<Rightarrow> None"
  tview "\<lambda>s. cur s - tok s" "\<lambda>s. lim s - cur s" sane
proof unfold_locales
  show "sane s' \<and> tview s' = tview s \<and> cur s' - tok s' = cur s - tok s \<and> lim s - cur s \<le> lim s' - cur s'"
    if s: "sane s"
      and f: "(case fill s n of Some (ret, s') \<Rightarrow> if ret = 0 then Some s' else None | None \<Rightarrow> None) = Some s'"
    for s n s'
  proof -
    from f obtain f': "fill s n = Some (0, s')" by (auto split: option.splits if_splits)
    then have "\<not> eof s" "n \<le> tok s" by (auto simp: fill_def Let_def split: if_splits)
    from fill_ok [OF s this] f' show ?thesis by (metis diff_zero option.inject prod.inject)
  qed
  show "cur s - tok s + (lim s - cur s) \<le> length (tview s)" if "sane s" for s
    using length_tview [OF that] sane_bounds [OF that] by simp
qed

end
