(* ===== verification/Picocom_Map.thy ===== *)
theory Picocom_Map
  imports Prelude
begin

text \<open>
  The pure parts of the terminal program \<^verbatim>\<open>src/myterm/picocom/picocom.c\<close>: character mappings,
  their names on the command line, hexadecimal input, the cycling of the line settings and
  the demultiplexer this repository added to the program.  Strings are the bytes in front of
  their NUL; a failing \<^verbatim>\<open>assert\<close> is \<open>None\<close>.
\<close>

subsection \<open>Mappings\<close>

type_synonym cint = "32 word"

definition M_CRLF :: cint where "M_CRLF = push_bit 0 1"
definition M_CRCRLF :: cint where "M_CRCRLF = push_bit 1 1"
definition M_IGNCR :: cint where "M_IGNCR = push_bit 2 1"
definition M_LFCR :: cint where "M_LFCR = push_bit 3 1"
definition M_LFCRLF :: cint where "M_LFCRLF = push_bit 4 1"
definition M_IGNLF :: cint where "M_IGNLF = push_bit 5 1"
definition M_DELBS :: cint where "M_DELBS = push_bit 6 1"
definition M_BSDEL :: cint where "M_BSDEL = push_bit 7 1"
definition M_SPCHEX :: cint where "M_SPCHEX = push_bit 8 1"
definition M_TABHEX :: cint where "M_TABHEX = push_bit 9 1"
definition M_CRHEX :: cint where "M_CRHEX = push_bit 10 1"
definition M_LFHEX :: cint where "M_LFHEX = push_bit 11 1"
definition M_8BITHEX :: cint where "M_8BITHEX = push_bit 12 1"
definition M_NRMHEX :: cint where "M_NRMHEX = push_bit 13 1"
definition M_NFLAGS :: nat where "M_NFLAGS = 14"

definition M_I_DFL :: cint where "M_I_DFL = 0"
definition M_O_DFL :: cint where "M_O_DFL = 0"
definition M_E_DFL :: cint where "M_E_DFL = M_DELBS OR M_CRCRLF"

lemmas M_defs =
  M_CRLF_def M_CRCRLF_def M_IGNCR_def M_LFCR_def M_LFCRLF_def M_IGNLF_def M_DELBS_def M_BSDEL_def
  M_SPCHEX_def M_TABHEX_def M_CRHEX_def M_LFHEX_def M_8BITHEX_def M_NRMHEX_def

definition map_names :: "(byte list \<times> cint) list" where
  "map_names =
    [(bytes ''crlf'', M_CRLF), (bytes ''crcrlf'', M_CRCRLF), (bytes ''igncr'', M_IGNCR),
     (bytes ''lfcr'', M_LFCR), (bytes ''lfcrlf'', M_LFCRLF), (bytes ''ignlf'', M_IGNLF),
     (bytes ''delbs'', M_DELBS), (bytes ''bsdel'', M_BSDEL), (bytes ''spchex'', M_SPCHEX),
     (bytes ''tabhex'', M_TABHEX), (bytes ''crhex'', M_CRHEX), (bytes ''lfhex'', M_LFHEX),
     (bytes ''8bithex'', M_8BITHEX), (bytes ''nrmhex'', M_NRMHEX)]"

text \<open>The tokens \<^verbatim>\<open>strtok(s, ", \t")\<close> gives one after the other.\<close>

definition map_delim :: "byte \<Rightarrow> bool" where
  "map_delim c \<longleftrightarrow> c = 44 \<or> c = 32 \<or> c = 9"

function toks :: "byte list \<Rightarrow> byte list list" where
  "toks s =
     (case dropWhile map_delim s of
        [] \<Rightarrow> []
      | c # cs \<Rightarrow> takeWhile (\<lambda>x. \<not> map_delim x) (c # cs) # toks (dropWhile (\<lambda>x. \<not> map_delim x) (c # cs)))"
  by pat_completeness auto
termination
proof (relation "measure length", goal_cases)
  case (2 s c cs)
  have "\<not> map_delim c" using 2 hd_dropWhile [of map_delim s] by simp
  moreover have "length (c # cs) \<le> length s" using length_dropWhile_le [of map_delim s] 2 by simp
  ultimately show ?case using length_dropWhile_le [of "\<lambda>x. \<not> map_delim x" cs] by simp
qed simp

declare toks.simps [simp del]

text \<open>The loop of \<^verbatim>\<open>parse_map\<close> over the tokens, from the flags collected so far; -1 is an unknown name.\<close>

fun parse_toks :: "cint \<Rightarrow> byte list list \<Rightarrow> cint" where
  "parse_toks flags [] = flags"
| "parse_toks flags (t # ts) =
     (case map_of map_names t of
        Some f \<Rightarrow> parse_toks (flags OR f) ts
      | None \<Rightarrow> -1)"

definition parse_map :: "byte list \<Rightarrow> cint" where
  "parse_map s = parse_toks 0 (toks s)"

text \<open>What \<^verbatim>\<open>print_map\<close> prints.\<close>

definition print_map :: "cint \<Rightarrow> byte list" where
  "print_map flags =
     concat (map (\<lambda>i. if flags AND push_bit i 1 \<noteq> 0 then fst (map_names ! i) @ [44] else []) [0..<M_NFLAGS])
     @ [LF]"

definition M_MAXMAP :: nat where "M_MAXMAP = 4"

definition hexd :: "byte \<Rightarrow> byte" where
  "hexd n = bytes ''0123456789abcdef'' ! unat n"

definition map2hex :: "byte \<Rightarrow> byte list" where
  "map2hex c = [91, hexd (drop_bit 4 c), hexd (c AND 0x0f), 93]"

text \<open>The first switch of \<^verbatim>\<open>do_map\<close>: \<open>None\<close> is \<^verbatim>\<open>n = -1\<close>.\<close>

definition map_special :: "cint \<Rightarrow> byte \<Rightarrow> byte list option" where
  "map_special m c =
     (if c = 0x7f then (if m AND M_DELBS \<noteq> 0 then Some [0x08] else None)
      else if c = 0x08 then (if m AND M_BSDEL \<noteq> 0 then Some [0x7f] else None)
      else if c = 0x0d then
        (if m AND M_CRLF \<noteq> 0 then Some [0x0a]
         else if m AND M_CRCRLF \<noteq> 0 then Some [0x0d, 0x0a]
         else if m AND M_IGNCR \<noteq> 0 then Some []
         else if m AND M_CRHEX \<noteq> 0 then Some (map2hex c) else None)
      else if c = 0x0a then
        (if m AND M_LFCR \<noteq> 0 then Some [0x0d]
         else if m AND M_LFCRLF \<noteq> 0 then Some [0x0d, 0x0a]
         else if m AND M_IGNLF \<noteq> 0 then Some []
         else if m AND M_LFHEX \<noteq> 0 then Some (map2hex c) else None)
      else if c = 0x09 then (if m AND M_TABHEX \<noteq> 0 then Some (map2hex c) else None)
      else None)"

text \<open>The whole of \<^verbatim>\<open>do_map\<close>: the bytes it stores, \<open>None\<close> when its assertion fails.\<close>

definition do_map :: "cint \<Rightarrow> byte \<Rightarrow> byte list option" where
  "do_map m c =
     (let b = map_special m c;
          b = (if b = None \<and> m AND M_SPCHEX \<noteq> 0 \<and>
                  (c = 0x7f \<or> (c < 0x20 \<and> c \<noteq> 0x09 \<and> c \<noteq> 0x0a \<and> c \<noteq> 0x0d))
               then Some (map2hex c) else b);
          b = (if b = None \<and> m AND M_8BITHEX \<noteq> 0 \<and> c AND 0x80 \<noteq> 0 then Some (map2hex c) else b);
          b = (if b = None \<and> m AND M_NRMHEX \<noteq> 0 \<and> 0x20 \<le> c \<and> c < 0x7f then Some (map2hex c) else b);
          b = (case b of None \<Rightarrow> [c] | Some b \<Rightarrow> b) in
      if 0 < length b \<and> length b \<le> M_MAXMAP then Some b else None)"

subsection \<open>Hexadecimal input\<close>

definition hexisdelim :: "byte \<Rightarrow> bool" where
  "hexisdelim c \<longleftrightarrow> c \<in> set (bytes '' '' @ [CR] @ bytes '';:-_.,/'')"

definition hex2byte :: "byte \<Rightarrow> int" where
  "hex2byte c =
     (if 0x30 \<le> c \<and> c \<le> 0x39 then uint c - 0x30
      else if 0x41 \<le> c \<and> c \<le> 0x46 then uint c - 0x41 + 10
      else if 0x61 \<le> c \<and> c \<le> 0x66 then uint c - 0x61 + 10
      else -1)"

text \<open>The bytes stored from index \<open>i\<close> on; \<open>None\<close> is the result -1.\<close>

function hex2bin_from :: "nat \<Rightarrow> nat \<Rightarrow> byte list \<Rightarrow> byte list option" where
  "hex2bin_from sz i str =
     (if sz \<le> i then Some []
      else case str of
        [] \<Rightarrow> Some []
      | c # str \<Rightarrow>
          if hexisdelim c then hex2bin_from sz i str
          else if hex2byte c < 0 then None
          else case str of
            [] \<Rightarrow> None
          | c1 # str \<Rightarrow>
              if hex2byte c1 < 0 then None
              else map_option (Cons (push_bit 4 (word_of_int (hex2byte c)) OR word_of_int (hex2byte c1)))
                     (hex2bin_from sz (Suc i) str))"
  by pat_completeness auto
termination by (relation "measure (\<lambda>(sz, i, str). length str)") auto

declare hex2bin_from.simps [simp del]

definition hex2bin :: "nat \<Rightarrow> byte list \<Rightarrow> byte list option" where
  "hex2bin sz str = hex2bin_from sz 0 str"

subsection \<open>Line settings\<close>

datatype flowcntrl = FC_NONE | FC_RTSCTS | FC_XONXOFF | FC_OTHER | FC_ERROR
datatype parity = P_NONE | P_EVEN | P_ODD | P_MARK | P_SPACE | P_ERROR

fun flow_next :: "flowcntrl \<Rightarrow> flowcntrl" where
  "flow_next FC_NONE = FC_RTSCTS"
| "flow_next FC_RTSCTS = FC_XONXOFF"
| "flow_next FC_XONXOFF = FC_NONE"
| "flow_next _ = FC_NONE"

fun parity_next :: "parity \<Rightarrow> parity" where
  "parity_next P_NONE = P_EVEN"
| "parity_next P_EVEN = P_ODD"
| "parity_next P_ODD = P_NONE"
| "parity_next _ = P_NONE"

definition bits_next :: "int \<Rightarrow> int" where
  "bits_next bits = (if bits + 1 > 8 then 5 else bits + 1)"

definition stopbits_next :: "int \<Rightarrow> int" where
  "stopbits_next bits = (if bits + 1 > 2 then 1 else bits + 1)"

subsection \<open>The demultiplexer\<close>

text \<open>
  The loop over the bytes read from the port: \<open>0xFF\<close> makes the next byte the current mode, and the bytes of the
  wanted mode are shown.  The last component says whether the loop was left at a trailing
  \<open>0xFF\<close>; the source tests \<^verbatim>\<open>i == g_buff_rd_len\<close> for that.
\<close>

function demux_from :: "int \<Rightarrow> byte list \<Rightarrow> nat \<Rightarrow> int \<Rightarrow> byte list \<times> int \<times> bool" where
  "demux_from want buf i m =
     (if i < length buf
      then if i \<noteq> length buf - 1 \<and> buf ! i = 0xFF
           then demux_from want buf (i + 2) (uint (buf ! (i + 1)))
           else if i = length buf \<and> buf ! i = 0xFF then ([], m, True)
           else if want = m
           then (let (shown, r) = demux_from want buf (Suc i) m in (buf ! i # shown, r))
           else demux_from want buf (Suc i) m
      else ([], m, False))"
  by pat_completeness auto
termination by (relation "measure (\<lambda>(want, buf, i, m). length buf - i)") auto

declare demux_from.simps [simp del]

definition demux :: "int \<Rightarrow> int \<Rightarrow> byte list \<Rightarrow> byte list \<times> int \<times> bool" where
  "demux want m buf = demux_from want buf 0 m"

subsection \<open>Mapping as a table\<close>

text \<open>
  The reference: one rule per flag, in the order in which the flags take precedence, with
  the characters the rule is for and what it makes of them.
\<close>

definition special :: "byte \<Rightarrow> bool" where
  "special c \<longleftrightarrow> c = 0x7f \<or> (c < 0x20 \<and> c \<noteq> 0x09 \<and> c \<noteq> 0x0a \<and> c \<noteq> 0x0d)"

definition map_rules :: "(cint \<times> (byte \<Rightarrow> bool) \<times> (byte \<Rightarrow> byte list)) list" where
  "map_rules =
    [(M_DELBS, \<lambda>c. c = 0x7f, \<lambda>_. [0x08]), (M_BSDEL, \<lambda>c. c = 0x08, \<lambda>_. [0x7f]),
     (M_CRLF, \<lambda>c. c = CR, \<lambda>_. [LF]), (M_CRCRLF, \<lambda>c. c = CR, \<lambda>_. [CR, LF]),
     (M_IGNCR, \<lambda>c. c = CR, \<lambda>_. []), (M_CRHEX, \<lambda>c. c = CR, map2hex),
     (M_LFCR, \<lambda>c. c = LF, \<lambda>_. [CR]), (M_LFCRLF, \<lambda>c. c = LF, \<lambda>_. [CR, LF]),
     (M_IGNLF, \<lambda>c. c = LF, \<lambda>_. []), (M_LFHEX, \<lambda>c. c = LF, map2hex),
     (M_TABHEX, \<lambda>c. c = 0x09, map2hex),
     (M_SPCHEX, special, map2hex), (M_8BITHEX, \<lambda>c. c AND 0x80 \<noteq> 0, map2hex),
     (M_NRMHEX, \<lambda>c. 0x20 \<le> c \<and> c < 0x7f, map2hex)]"

definition mapped :: "cint \<Rightarrow> byte \<Rightarrow> byte list" where
  "mapped m c =
     (case find (\<lambda>(f, p, g). m AND f \<noteq> 0 \<and> p c) map_rules of
        None \<Rightarrow> [c]
      | Some (f, p, g) \<Rightarrow> g c)"

lemma length_map2hex [simp]: "length (map2hex c) = 4"
  by (simp add: map2hex_def)

lemma mapped_le: "length (mapped m c) \<le> M_MAXMAP"
proof -
  have "\<forall>(f, p, g) \<in> set map_rules. length (g c) \<le> M_MAXMAP"
    by (simp add: map_rules_def M_MAXMAP_def)
  then have "length (g c) \<le> M_MAXMAP" if "find P map_rules = Some (f, p, g)" for P f p g
    using that by (metis (no_types, lifting) case_prodD find_Some_iff nth_mem)
  then show ?thesis by (auto simp: mapped_def M_MAXMAP_def split: option.splits)
qed

text \<open>The classes of characters the later tests of \<^verbatim>\<open>do_map\<close> single out.\<close>

definition hexed :: "cint \<Rightarrow> byte \<Rightarrow> byte list" where
  "hexed m c =
     (if m AND M_SPCHEX \<noteq> 0 \<and> special c \<or> m AND M_8BITHEX \<noteq> 0 \<and> c AND 0x80 \<noteq> 0 \<or>
         m AND M_NRMHEX \<noteq> 0 \<and> 0x20 \<le> c \<and> c < 0x7f
      then map2hex c else [c])"

lemma do_map_hexed:
  "do_map m c =
     (let b = (case map_special m c of None \<Rightarrow> hexed m c | Some b \<Rightarrow> b) in
      if 0 < length b \<and> length b \<le> M_MAXMAP then Some b else None)"
proof (cases "map_special m c")
  case None
  show ?thesis unfolding do_map_def None hexed_def special_def [symmetric]
    by (cases "m AND M_SPCHEX \<noteq> 0 \<and> special c"; cases "m AND M_8BITHEX \<noteq> 0 \<and> c AND 0x80 \<noteq> 0";
        cases "m AND M_NRMHEX \<noteq> 0 \<and> 0x20 \<le> c \<and> c < 0x7f")
      (simp_all only: simp_thms if_True if_False Let_def option.case option.distinct)
qed (simp add: do_map_def)

lemma mapped_hexed:
  "mapped m c = (case map_special m c of None \<Rightarrow> hexed m c | Some b \<Rightarrow> b)"
proof -
  consider "c = 0x7f" | "c = 0x08" | "c = CR" | "c = LF" | "c = 0x09"
    | (other) "c \<noteq> 0x7f" "c \<noteq> 0x08" "c \<noteq> CR" "c \<noteq> LF" "c \<noteq> 0x09"
    by blast
  then show ?thesis
  proof cases
    case other
    then have "map_special m c = None" by (simp add: map_special_def)
    moreover have "mapped m c = hexed m c"
      using other by (cases "special c") (simp_all add: mapped_def map_rules_def hexed_def)
    ultimately show ?thesis by simp
  qed (simp_all add: map_special_def mapped_def map_rules_def hexed_def special_def)
qed

lemma do_map_mapped: "do_map m c = (if mapped m c = [] then None else Some (mapped m c))"
  using mapped_le [of m c] by (simp add: do_map_hexed mapped_hexed Let_def)

lemma mapped_Nil_iff:
  "mapped m c = [] \<longleftrightarrow>
      (c = CR \<and> m AND M_CRLF = 0 \<and> m AND M_CRCRLF = 0 \<and> m AND M_IGNCR \<noteq> 0) \<or>
      (c = LF \<and> m AND M_LFCR = 0 \<and> m AND M_LFCRLF = 0 \<and> m AND M_IGNLF \<noteq> 0)"
proof -
  have "hexed m d \<noteq> []" and "map2hex d \<noteq> []" for d by (simp_all add: hexed_def map2hex_def)
  then show ?thesis
    by (cases "c = CR"; cases "c = LF") (simp_all add: mapped_hexed map_special_def)
qed

text \<open>
  C21: \<^verbatim>\<open>do_map\<close> applies the first rule of the table that is switched on and fits, and leaves
  the character alone when there is none; it never stores more than the four bytes callers
  reserve.  Its assertion, which refuses an empty result, fails exactly when a carriage
  return or line feed is to be ignored, so the two flags that ignore abort the program.
\<close>

theorem do_map_table:
  "do_map m c = (if mapped m c = [] then None else Some (mapped m c)) \<and>
   length (mapped m c) \<le> M_MAXMAP \<and>
   (do_map m c = None \<longleftrightarrow>
      (c = CR \<and> m AND (M_CRLF OR M_CRCRLF) = 0 \<and> m AND M_IGNCR \<noteq> 0) \<or>
      (c = LF \<and> m AND (M_LFCR OR M_LFCRLF) = 0 \<and> m AND M_IGNLF \<noteq> 0))"
proof -
  have or0: "m AND (a OR b) = 0 \<longleftrightarrow> m AND a = 0 \<and> m AND b = 0" for a b :: cint
    by (simp add: bit.conj_disj_distrib or_eq_0_iff)
  show ?thesis using do_map_mapped [of m c] mapped_le [of m c] by (auto simp: or0 mapped_Nil_iff)
qed

subsection \<open>The names of the mappings\<close>

lemma toks_cons:
  assumes "n \<noteq> []" and "\<forall>x \<in> set n. \<not> map_delim x"
  shows "toks (n @ 44 # s) = n # toks s"
proof -
  obtain c cs where n: "n = c # cs" using assms(1) by (cases n) auto
  with assms(2) have "dropWhile map_delim (n @ 44 # s) = n @ 44 # s" by simp
  moreover have d: "map_delim 44" by (simp add: map_delim_def)
  have "takeWhile (\<lambda>x. \<not> map_delim x) (n @ 44 # s) = n"
    "dropWhile (\<lambda>x. \<not> map_delim x) (n @ 44 # s) = 44 # s"
    using assms(2) d by (simp_all add: takeWhile_append dropWhile_append)
  moreover have "toks (44 # s) = toks s"
    by (simp add: toks.simps [of "44 # s"] toks.simps [of s] d)
  ultimately show ?thesis by (subst toks.simps) (simp add: n)
qed

lemma toks_names:
  "\<forall>n \<in> set ns. n \<noteq> [] \<and> (\<forall>x \<in> set n. \<not> map_delim x) \<Longrightarrow>
   toks (concat (map (\<lambda>n. n @ [44]) ns) @ s) = ns @ toks s"
  by (induction ns) (simp_all add: toks_cons)

lemma toks_Nil [simp]: "toks [] = []"
  by (simp add: toks.simps)

lemma name_chars: "\<forall>n \<in> set (map fst map_names). n \<noteq> [] \<and> (\<forall>x \<in> set n. \<not> map_delim x)"
  by (simp add: map_names_def bytes_def map_delim_def)

lemma names_distinct: "distinct (map fst map_names)"
  by code_simp

lemma names_flags: "map snd map_names = map (\<lambda>i. push_bit i 1) [0..<M_NFLAGS]"
  by code_simp

lemma name_lookup:
  assumes "i < M_NFLAGS"
  shows "map_of map_names (fst (map_names ! i)) = Some (push_bit i 1)"
proof -
  have l: "length map_names = M_NFLAGS" using arg_cong [OF names_flags, of length] by simp
  have "snd (map_names ! i) = push_bit i 1"
    using arg_cong [OF names_flags, of "\<lambda>xs. xs ! i"] assms l by simp
  moreover have "map_names ! i \<in> set map_names" using assms l by simp
  ultimately show ?thesis using names_distinct by (metis map_of_eq_Some_iff prod.collapse)
qed

abbreviation map_name :: "nat \<Rightarrow> byte list" where
  "map_name i \<equiv> fst (map_names ! i)"

lemma parse_toks_names:
  "\<forall>i \<in> set is. i < M_NFLAGS \<Longrightarrow>
   parse_toks acc (map map_name is @ ts) = parse_toks (acc OR foldr (\<lambda>i a. push_bit i 1 OR a) is 0) ts"
  by (induction "is" arbitrary: acc) (simp_all add: name_lookup ac_simps)

lemma bit_foldr_or:
  "bit (foldr (\<lambda>i a. push_bit i 1 OR a) is 0 :: cint) n \<longleftrightarrow> n < 32 \<and> n \<in> set is"
  by (induction "is") (auto simp: bit_simps)

definition flag_set :: "cint \<Rightarrow> nat list" where
  "flag_set flags = filter (\<lambda>i. bit flags i) [0..<M_NFLAGS]"

lemma print_map_names:
  "print_map flags = concat (map (\<lambda>n. n @ [44]) (map map_name (flag_set flags))) @ [LF]"
proof -
  have "concat (map (\<lambda>i. if bit flags i then map_name i @ [44] else []) is) =
      concat (map (\<lambda>n. n @ [44]) (map map_name (filter (\<lambda>i. bit flags i) is)))" for "is"
    by (induction "is") auto
  then show ?thesis
    unfolding print_map_def flag_set_def bit_iff_and_push_bit_not_eq_0 [symmetric] by (simp only:)
qed

lemma flag_set_or:
  assumes "take_bit M_NFLAGS flags = flags"
  shows "foldr (\<lambda>i a. push_bit i 1 OR a) (flag_set flags) 0 = flags"
proof (rule bit_word_eqI)
  fix n assume "n < LENGTH(32)"
  moreover have "bit flags n \<Longrightarrow> n < M_NFLAGS"
    using arg_cong [OF assms, of "\<lambda>w. bit w n"] by (simp add: bit_take_bit_iff)
  ultimately show "bit (foldr (\<lambda>i a. push_bit i 1 OR a) (flag_set flags) 0 :: cint) n = bit flags n"
    unfolding bit_foldr_or by (auto simp: flag_set_def)
qed

text \<open>
  C22: the names \<^verbatim>\<open>print_map\<close> prints for a set of flags are read back by \<^verbatim>\<open>parse_map\<close> as
  exactly these flags, provided the line end it also prints is taken off: with it the last
  token is an unknown name and the whole option is refused.
\<close>

theorem parse_print_map:
  assumes "take_bit M_NFLAGS flags = flags"
  shows "parse_map (butlast (print_map flags)) = flags \<and> parse_map (print_map flags) = -1"
proof -
  let ?ns = "map map_name (flag_set flags)"
  have "\<forall>n \<in> set ?ns. n \<noteq> [] \<and> (\<forall>x \<in> set n. \<not> map_delim x)"
  proof
    fix n assume "n \<in> set ?ns"
    then obtain i where "i < M_NFLAGS" "n = map_name i" by (auto simp: flag_set_def)
    moreover have "length map_names = M_NFLAGS" using arg_cong [OF names_flags, of length] by simp
    ultimately have "n \<in> set (map fst map_names)" by simp
    with name_chars show "n \<noteq> [] \<and> (\<forall>x \<in> set n. \<not> map_delim x)" by blast
  qed
  note t = toks_names [OF this]
  have "\<forall>i \<in> set (flag_set flags). i < M_NFLAGS" by (simp add: flag_set_def)
  note p = parse_toks_names [OF this, of 0]
  have "toks (butlast (print_map flags)) = ?ns"
    using t [of "[]"] by (simp only: print_map_names butlast_snoc append_Nil2 toks_Nil)
  then have read_back: "parse_map (butlast (print_map flags)) = flags"
    using p [of "[]"] flag_set_or [OF assms] by (simp add: parse_map_def)
  have "toks [LF] = [[LF]]" by (simp add: toks.simps [of "[LF]"] map_delim_def)
  then have "toks (print_map flags) = ?ns @ [[LF]]"
    using t [of "[LF]"] by (simp only: print_map_names)
  moreover have "map_of map_names [LF] = None" by code_simp
  ultimately have "parse_map (print_map flags) = -1"
    using p [of "[[LF]]"] by (simp add: parse_map_def)
  with read_back show ?thesis ..
qed

lemma parse_print_map_witness:
  "parse_map (bytes ''delbs,'') = M_DELBS \<and> parse_map (print_map M_DELBS) = -1"
proof -
  have f: "take_bit M_NFLAGS M_DELBS = M_DELBS" by code_simp
  have "print_map M_DELBS = bytes ''delbs,'' @ [LF]" by code_simp
  with parse_print_map [OF f] show ?thesis by simp
qed

subsection \<open>Hexadecimal input is read back\<close>

text \<open>A byte as two digits behind any delimiters.\<close>

definition hex_of :: "byte list \<times> byte \<Rightarrow> byte list" where
  "hex_of p = fst p @ [hexd (drop_bit 4 (snd p)), hexd (snd p AND 0x0f)]"

lemma hexd_table: "\<forall>n < 16. hex2byte (hexd (word_of_nat n)) = int n \<and> \<not> hexisdelim (hexd (word_of_nat n))"
  by code_simp

lemma nibble: "(n :: byte) < 16 \<Longrightarrow> hex2byte (hexd n) = uint n \<and> \<not> hexisdelim (hexd n)"
proof -
  assume "n < 16"
  then have "unat n < 16" by (simp add: word_less_nat_alt)
  then show ?thesis using hexd_table [rule_format, of "unat n"] by simp
qed

lemma nibbles: "drop_bit 4 (b :: byte) < 16" "b AND 0x0f < 16"
proof -
  have "unat b < 256" using unsigned_less [of b, where ?'a = nat] by simp
  then show "drop_bit 4 b < 16" by (simp only: word_less_nat_alt unat_drop_bit_eq) (simp add: drop_bit_eq_div)
  have "b AND 0x0f = take_bit 4 b"
    by (simp add: take_bit_eq_mask mask_eq_exp_minus_1)
  then show "b AND 0x0f < 16"
    by (simp only:) (simp only: word_less_nat_alt unsigned_take_bit_eq, simp add: take_bit_eq_mod)
qed

lemma pack_nibbles: "push_bit 4 (drop_bit 4 b) OR (b AND 0x0f) = (b :: byte)"
proof -
  have "b AND 0x0f = take_bit 4 b"
    by (simp add: take_bit_eq_mask mask_eq_exp_minus_1)
  then show ?thesis by (simp only:) (rule bit_word_eqI, auto simp: bit_simps)
qed

lemma hex2bin_delims:
  "\<forall>c \<in> set d. hexisdelim c \<Longrightarrow> hex2bin_from sz i (d @ s) = hex2bin_from sz i s"
proof (induction d)
  case (Cons c d)
  then show ?case
    by (cases "sz \<le> i") (simp_all add: hex2bin_from.simps [of sz i "c # d @ s"] hex2bin_from.simps [of sz i s])
qed simp

lemma hex2bin_pair:
  assumes "i < sz"
  shows "hex2bin_from sz i (hexd (drop_bit 4 b) # hexd (b AND 0x0f) # s) =
     map_option (Cons b) (hex2bin_from sz (Suc i) s)"
  using assms nibble [OF nibbles(1), of b] nibble [OF nibbles(2), of b]
  by (subst hex2bin_from.simps) (simp add: pack_nibbles)

lemma hex2bin_bytes:
  assumes "\<forall>p \<in> set ps. \<forall>c \<in> set (fst p). hexisdelim c"
  shows "hex2bin_from sz i (concat (map hex_of ps) @ s) =
     (if length ps < sz - i then map_option ((@) (map snd ps)) (hex2bin_from sz (i + length ps) s)
      else Some (take (sz - i) (map snd ps)))"
  using assms
proof (induction ps arbitrary: i)
  case Nil
  show ?case
  proof (cases "i < sz")
    case True
    then show ?thesis by (cases "hex2bin_from sz i s") simp_all
  qed (simp add: hex2bin_from.simps [of sz i s])
next
  case (Cons p ps)
  show ?case
  proof (cases "i < sz")
    case False
    then show ?thesis by (simp add: hex2bin_from.simps [of sz i])
  next
    case True
    let ?rest = "concat (map hex_of ps) @ s"
    have "hex2bin_from sz i (hex_of p @ ?rest) =
        hex2bin_from sz i (hexd (drop_bit 4 (snd p)) # hexd (snd p AND 0x0f) # ?rest)"
      unfolding hex_of_def append_assoc using Cons.prems by (subst hex2bin_delims) simp_all
    also have "\<dots> = map_option (Cons (snd p)) (hex2bin_from sz (Suc i) ?rest)"
      by (rule hex2bin_pair [OF True])
    also have "hex2bin_from sz (Suc i) ?rest =
        (if length ps < sz - Suc i then map_option ((@) (map snd ps)) (hex2bin_from sz (Suc i + length ps) s)
         else Some (take (sz - Suc i) (map snd ps)))"
      using Cons.IH [of "Suc i"] Cons.prems by simp
    finally show ?thesis using True
      by (auto simp: option.map_comp comp_def Suc_diff_Suc [symmetric])
  qed
qed

lemma hex2bin_bound: "hex2bin_from sz i str = Some bs \<Longrightarrow> length bs \<le> sz - i"
proof (induction sz i str arbitrary: bs rule: hex2bin_from.induct)
  case (1 sz i str)
  show ?case
  proof (cases "sz \<le> i")
    case True
    with "1.prems" show ?thesis by (simp add: hex2bin_from.simps [of sz i])
  next
    case False
    show ?thesis
    proof (cases str)
      case Nil
      with "1.prems" False show ?thesis by (simp add: hex2bin_from.simps [of sz i])
    next
      case c: (Cons c cs)
      show ?thesis
      proof (cases "hexisdelim c")
        case True
        with "1.prems" False c have "hex2bin_from sz i cs = Some bs" by (subst (asm) hex2bin_from.simps) simp
        with "1.IH"(1) [OF False c True] show ?thesis .
      next
        case nd: False
        with "1.prems" False c obtain c1 cs1 bs' where ok: "\<not> hex2byte c < 0" "cs = c1 # cs1" "\<not> hex2byte c1 < 0"
          "hex2bin_from sz (Suc i) cs1 = Some bs'" "length bs = Suc (length bs')"
          by (subst (asm) hex2bin_from.simps) (auto split: if_splits list.splits)
        from "1.IH"(2) [OF False c nd ok(1-4)] ok(5) False show ?thesis by simp
      qed
    qed
  qed
qed

text \<open>
  C30: bytes written as pairs of hexadecimal digits with any delimiters in front of each are
  read back by \<^verbatim>\<open>hex2bin\<close>, silently cut to the size of the buffer; a digit without its
  partner is refused as long as the buffer has room; and no input stores more than the
  buffer holds.
\<close>

theorem hex2bin_roundtrip:
  assumes "\<forall>p \<in> set ps. \<forall>c \<in> set (fst p). hexisdelim c"
  shows "hex2bin sz (concat (map hex_of ps)) = Some (take sz (map snd ps)) \<and>
     (length ps < sz \<longrightarrow> n < 16 \<longrightarrow> hex2bin sz (concat (map hex_of ps) @ [hexd n]) = None) \<and>
     (hex2bin sz str = Some bs \<longrightarrow> length bs \<le> sz)"
proof (intro conjI impI)
  have "hex2bin_from sz i [] = Some []" for i by (simp add: hex2bin_from.simps)
  then show "hex2bin sz (concat (map hex_of ps)) = Some (take sz (map snd ps))"
    using hex2bin_bytes [OF assms, of sz 0 "[]"] by (auto simp: hex2bin_def)
  show "hex2bin sz (concat (map hex_of ps) @ [hexd n]) = None" if "length ps < sz" "n < 16"
  proof -
    have "hex2bin_from sz (length ps) [hexd n] = None"
      using that nibble [of n] by (simp add: hex2bin_from.simps)
    then show ?thesis using hex2bin_bytes [OF assms, of sz 0 "[hexd n]"] that by (simp add: hex2bin_def)
  qed
  show "length bs \<le> sz" if "hex2bin sz str = Some bs"
    using hex2bin_bound [of sz 0 str bs] that by (simp add: hex2bin_def)
qed

lemma hex2bin_roundtrip_witness:
  "hex2bin 8 (bytes ''c0 ff'') = Some [0xc0, 0xff] \<and> hex2bin 8 (bytes ''c0 ffe'') = None"
proof -
  let ?ps = "[([], 0xc0), ([32], 0xff)] :: (byte list \<times> byte) list"
  have h: "concat (map hex_of ?ps) = bytes ''c0 ff''" "[hexd 14] = bytes ''e''" by code_simp+
  have "hexisdelim 32" by code_simp
  with hex2bin_roundtrip [of ?ps 8 14] show ?thesis
    unfolding h by (simp add: bytes_def)
qed

subsection \<open>Multiplexed streams\<close>

text \<open>The reference: frames \<^verbatim>\<open>0xFF mode\<close> switch the mode, all else is data of the current mode.\<close>

fun frames :: "int \<Rightarrow> int \<Rightarrow> byte list \<Rightarrow> byte list \<times> int" where
  "frames want m [] = ([], m)"
| "frames want m [c] = (if want = m then [c] else [], m)"
| "frames want m (c # d # cs) =
     (if c = 0xFF then frames want (uint d) cs
      else let (shown, m') = frames want m (d # cs) in (if want = m then c # shown else shown, m'))"

lemma demux_from_frames:
  "demux_from want buf i m = (let (shown, m') = frames want m (drop i buf) in (shown, m', False))"
proof (induction want buf i m rule: demux_from.induct)
  case (1 want buf i m)
  consider "length buf \<le> i" | "Suc i = length buf" | (two) "Suc i < length buf" by linarith
  then show ?case
  proof cases
    case two
    then have d: "drop i buf = buf ! i # buf ! Suc i # drop (i + 2) buf"
      "drop (Suc i) buf = buf ! Suc i # drop (i + 2) buf"
      by (simp_all add: Cons_nth_drop_Suc)
    from two have "i < length buf" "i \<noteq> length buf - 1" "i \<noteq> length buf" by auto
    with 1 d show ?thesis by (subst demux_from.simps) (auto simp: split_beta Let_def)
  next
    case 2
    then have "drop i buf = [buf ! i]" "\<not> i \<noteq> length buf - 1" "i < length buf" "i \<noteq> length buf"
      by (simp_all add: Cons_nth_drop_Suc [symmetric])
    moreover have "demux_from w buf (Suc i) n = ([], n, False)" for w n
      using 2 by (simp add: demux_from.simps)
    ultimately show ?thesis by (subst demux_from.simps) (simp only:, simp)
  qed (subst demux_from.simps, simp)
qed

text \<open>A stretch that does not end between an escape and its mode.\<close>

fun whole :: "byte list \<Rightarrow> bool" where
  "whole [] = True"
| "whole [c] = (c \<noteq> 0xFF)"
| "whole (c # d # cs) = (if c = 0xFF then whole cs else whole (d # cs))"

lemma demux_frames: "demux want m buf = (let (shown, m') = frames want m buf in (shown, m', False))"
  by (simp add: demux_def demux_from_frames)

lemma frames_append:
  "whole xs \<Longrightarrow>
   frames want m (xs @ ys) =
     (let (a, m1) = frames want m xs; (b, m2) = frames want m1 ys in (a @ b, m2))"
proof (induction want m xs rule: frames.induct)
  case (2 want m c)
  then show ?case by (cases ys) (auto simp: split_beta Let_def)
qed (auto simp: split_beta)

lemma whole_append: "whole xs \<Longrightarrow> whole ys \<Longrightarrow> whole (xs @ ys)"
proof (induction xs rule: whole.induct)
  case (2 c)
  then show ?case by (cases ys) auto
qed auto

text \<open>The reads of a session one after the other, the mode carried from one to the next.\<close>

primrec demux_reads :: "int \<Rightarrow> int \<Rightarrow> byte list list \<Rightarrow> byte list \<times> int" where
  "demux_reads want m [] = ([], m)"
| "demux_reads want m (buf # bufs) =
     (let (a, m1, _) = demux want m buf; (b, m2) = demux_reads want m1 bufs in (a @ b, m2))"

lemma demux_reads_frames: "\<forall>b \<in> set bufs. whole b \<Longrightarrow> demux_reads want m bufs = frames want m (concat bufs)"
proof (induction bufs arbitrary: m)
  case (Cons b bufs)
  then show ?case by (simp add: demux_frames frames_append split_beta Let_def)
qed simp

text \<open>
  C25: the loop over the port's bytes computes the frame semantics of its buffer and is never
  left at a trailing escape, so nothing is held back for the next read.  When no read ends
  between a 0xFF and the mode behind it, the cutting of the stream into reads makes no
  difference; a read that does end there shows the 0xFF in the wanted mode, and the next
  read takes the mode byte for data.
\<close>

theorem demux_reads_independent:
  "demux want m buf = (let (shown, m') = frames want m buf in (shown, m', False)) \<and>
   ((\<forall>b \<in> set bufs. whole b) \<longrightarrow> demux_reads want m bufs = frames want m (concat bufs)) \<and>
   (d \<noteq> 0xFF \<longrightarrow> demux_reads want want [[0xFF], [d]] = ([0xFF, d], want) \<and>
     demux want want [0xFF, d] = ([], uint d, False))"
  using demux_reads_frames by (simp add: demux_frames)

lemma demux_reads_independent_witness:
  "demux_reads 0x10 0 [[0xFF, 0x10, 65], [66, 0xFF, 0x20, 67]] = ([65, 66], 0x20) \<and>
   demux 0x10 0x10 [0xFF, 0x20] = ([], 0x20, False)"
  using demux_reads_independent [of "0x10" 0 "[]" "[[0xFF, 0x10, 65], [66, 0xFF, 0x20, 67]]" 0]
    demux_reads_independent [of "0x10" 0 "[]" "[]" "0x20"] by simp

text \<open>Keys framed with a mode: three bytes for each.\<close>

definition framed :: "int \<Rightarrow> byte list \<Rightarrow> byte list" where
  "framed m cs = concat (map (\<lambda>c. [0xFF, word_of_int m, c]) cs)"

lemma uint_mode: "0 \<le> m \<Longrightarrow> m < 0xFF \<Longrightarrow> uint (word_of_int m :: byte) = m"
  by (simp only: uint_word_of_int_eq) (simp add: take_bit_eq_mod)

lemma frames_framed:
  assumes "0 \<le> mode" and "mode < 0xFF" and "0xFF \<notin> set cs" and "cs \<noteq> []"
  shows "frames w m (framed mode cs) = (if w = mode then cs else [], mode)"
proof -
  have step: "frames w m ([0xFF, word_of_int mode, c] @ s) =
      (let (a, n) = frames w mode s in (if w = mode then c # a else a, n))" if "c \<noteq> 0xFF" for m c s
    using frames_append [of "[0xFF, word_of_int mode, c]" w m s] that uint_mode [OF assms(1,2)]
    by (simp add: split_beta)
  have "frames w m (framed mode cs) = (if w = mode then cs else [], if cs = [] then m else mode)"
    using assms(3)
  proof (induction cs arbitrary: m)
    case (Cons c cs)
    then show ?case using step by (simp add: framed_def)
  qed (simp add: framed_def)
  with assms(4) show ?thesis by simp
qed

text \<open>A key 0xFF is not protected: it swallows the frame behind it.\<close>

lemma frames_escape_key:
  assumes "0 \<le> mode" and "mode < 0xFF" and "d \<noteq> 0xFF"
  shows "frames mode m (framed mode [0xFF, d]) = ([], 0xFF)"
proof -
  have "(word_of_int mode :: byte) \<noteq> 0xFF" using uint_mode [OF assms(1,2)] assms(2) by auto
  with assms(3) show ?thesis using assms(2) uint_mode [OF assms(1,2)] by (simp add: framed_def)
qed

end
