(* ===== verification/Picocom_Term.thy ===== *)
theory Picocom_Term
  imports Picocom_Map Sys_Calls
begin

text \<open>
  The state of \<^verbatim>\<open>src/myterm/picocom/picocom.c\<close>, its calls to the operating system, to the
  terminal library \<^verbatim>\<open>term.c\<close> and to \<^verbatim>\<open>linenoise\<close> (neither is in the repository), and the
  functions that write: \<^verbatim>\<open>writen_ni\<close> of \<^verbatim>\<open>fdio.c\<close>, \<^verbatim>\<open>map_and_write\<close>, \<^verbatim>\<open>cleanup\<close>,
  \<^verbatim>\<open>fatal\<close> and the output queue \<^verbatim>\<open>tty_q_push\<close>.  The build of the \<^verbatim>\<open>Makefile\<close> is modelled:
  \<^verbatim>\<open>ENABLE_DEMUX\<close>, \<^verbatim>\<open>LINENOISE\<close> and \<^verbatim>\<open>USE_FLOCK\<close> on, \<^verbatim>\<open>UUCP_LOCK_DIR\<close> and
  \<^verbatim>\<open>NO_HELP\<close> off, \<^verbatim>\<open>TTY_Q_SZ\<close> 0.  A message is the call \<open>PPrintf\<close> with its text, without
  the line ends around it, and its arguments; the text of an \<^verbatim>\<open>errno\<close> is not among them.
\<close>

subsection \<open>Calls\<close>

text \<open>The operations of the terminal library, on the descriptor they are called with.\<close>

datatype termop =
    T_drain | T_flush | T_fake_flush | T_set_hupcl bool | T_apply bool | T_erase | T_remove
  | T_add | T_set_raw | T_set int parity int int flowcntrl bool | T_refresh | T_pulse_dtr
  | T_lower_dtr | T_raise_dtr | T_lower_rts | T_raise_rts | T_get_mctl | T_break
  | T_set_baudrate int | T_get_baudrate | T_set_flowcntrl flowcntrl | T_get_flowcntrl
  | T_set_parity parity | T_get_parity | T_set_databits int | T_get_databits
  | T_set_stopbits int | T_get_stopbits

datatype pcall =
    PRead int nat
  | PWrite int "byte list"
  | PSelect bool bool bool "(int \<times> int) option"
  | PPrintf int string "parg list"        \<comment> \<open>\<^verbatim>\<open>fd_printf\<close>, \<^verbatim>\<open>printf\<close>: messages\<close>
  | PTerm termop int
  | PRealloc int
  | PSignalled                            \<comment> \<open>reading \<^verbatim>\<open>sig_exit\<close>, which a handler sets\<close>
  | PLinenoise string
  | PLib string "parg list"               \<comment> \<open>other libc calls\<close>

text \<open>How a child ended, for \<^verbatim>\<open>waitpid\<close>.\<close>

datatype status = Exited_with int | Killed_by int | Other_status

text \<open>
  Responses: the return value, the bytes delivered, \<^verbatim>\<open>errno\<close>, what \<^verbatim>\<open>select\<close> found ready
  (stdin, the port for reading, the port for writing), a string or NULL, settings, a status.
\<close>

record presp =
  pv :: int
  pdat :: "byte list"
  perr :: errno
  psel :: "bool \<times> bool \<times> bool"
  pstr :: "byte list option"
  pflow :: flowcntrl
  ppar :: parity
  pstat :: status

definition presp0 :: presp where
  "presp0 = \<lparr>pv = 0, pdat = [], perr = EOTHER, psel = (False, False, False), pstr = None,
     pflow = FC_NONE, ppar = P_NONE, pstat = Other_status\<rparr>"

type_synonym 'a pprog = "(pcall, presp, 'a) prog"

subsection \<open>State\<close>

record opts =
  o_port :: "byte list"
  o_baud :: int
  o_flow :: flowcntrl
  o_parity :: parity
  o_databits :: int
  o_stopbits :: int
  o_lecho :: bool
  o_noinit :: bool
  o_noreset :: bool
  o_hangup :: bool
  o_nolock :: bool
  o_escape :: byte
  o_noescape :: bool
  o_send_cmd :: "byte list"
  o_receive_cmd :: "byte list"
  o_imap :: cint
  o_omap :: cint
  o_emap :: cint
  o_log_filename :: "byte list option"
  o_initstring :: "byte list option"
  o_exit_after :: int
  o_exit :: bool
  o_lower_rts :: bool
  o_lower_dtr :: bool
  o_raise_rts :: bool
  o_raise_dtr :: bool
  o_mode :: int
  o_quiet :: bool

definition CKEY :: "byte \<Rightarrow> byte" where
  "CKEY c = c AND 0x1f"

definition KEYC :: "byte \<Rightarrow> byte" where
  "KEYC k = k OR 0x60"

definition opts_default :: opts where
  "opts_default =
     \<lparr>o_port = [], o_baud = 9600, o_flow = FC_NONE, o_parity = P_NONE, o_databits = 8, o_stopbits = 1,
      o_lecho = False, o_noinit = False, o_noreset = False, o_hangup = False, o_nolock = False,
      o_escape = CKEY (of_char (CHR ''a'')), o_noescape = False,
      o_send_cmd = bytes ''sz -vv'', o_receive_cmd = bytes ''rz -vv -E'',
      o_imap = M_I_DFL, o_omap = M_O_DFL, o_emap = M_E_DFL, o_log_filename = None, o_initstring = None,
      o_exit_after = -1, o_exit = False, o_lower_rts = False, o_lower_dtr = False,
      o_raise_rts = False, o_raise_dtr = False, o_mode = 0xFF, o_quiet = False\<rparr>"

text \<open>
  The output queue \<^verbatim>\<open>tty_q\<close> is its size and the bytes in use; the program's state adds the
  descriptors, the believed state of the modem lines and the size of a write.
\<close>

record pico =
  opts :: opts
  tty_fd :: int
  log_fd :: int
  rts_up :: bool
  dtr_up :: bool
  q_sz :: int
  q_data :: "byte list"
  tty_write_sz :: int

definition STI :: int where "STI = 0"
definition STO :: int where "STO = 1"
definition STE :: int where "STE = 2"
definition TTY_Q_SZ_MIN :: int where "TTY_Q_SZ_MIN = 256"
definition TTY_Q_SZ :: int where "TTY_Q_SZ = 0"
definition STI_RD_SZ :: nat where "STI_RD_SZ = 16"
definition TTY_RD_SZ :: nat where "TTY_RD_SZ = 128"

definition pico_default :: pico where
  "pico_default = \<lparr>opts = opts_default, tty_fd = -1, log_fd = -1, rts_up = True, dtr_up = True,
     q_sz = 0, q_data = [], tty_write_sz = 0\<rparr>"

definition set_tty_write_sz :: "int \<Rightarrow> pico \<Rightarrow> pico" where
  "set_tty_write_sz baud s =
     (let n = baud div 10 in s\<lparr>tty_write_sz := (if n < 8 then 8 else n)\<rparr>)"

abbreviation set_opts :: "(opts \<Rightarrow> opts) \<Rightarrow> pico \<Rightarrow> pico" where
  "set_opts f s \<equiv> s\<lparr>opts := f (opts s)\<rparr>"

subsection \<open>Writing\<close>

text \<open>
  \<^verbatim>\<open>writen_ni\<close>: both loops, with fuel for each \<^verbatim>\<open>write\<close>; the result is the number of bytes
  written.
\<close>

primrec writen_ni_from :: "nat \<Rightarrow> int \<Rightarrow> byte list \<Rightarrow> nat \<Rightarrow> nat pprog" where
  "writen_ni_from 0 fd p w = Spin"
| "writen_ni_from (Suc fuel) fd p w =
     (if p = [] then Ret w
      else
        Sys (PWrite fd p) (\<lambda>r.
        if pv r < 0 \<and> perr r = EINTR then writen_ni_from fuel fd p w
        else if pv r \<le> 0 then Ret w
        else writen_ni_from fuel fd (drop (nat (pv r)) p) (w + nat (pv r))))"

definition writen_ni :: "nat \<Rightarrow> int \<Rightarrow> byte list \<Rightarrow> nat pprog" where
  "writen_ni fuel fd buff = writen_ni_from fuel fd buff 0"

text \<open>
  \<^verbatim>\<open>fd_vprintf\<close>, given what \<^verbatim>\<open>vsnprintf\<close> was to print: only 255 bytes of it are in the buffer
  of 256, but the length passed on is that of the whole text.
\<close>

definition fd_vprintf :: "nat \<Rightarrow> int \<Rightarrow> byte list \<Rightarrow> nat pprog" where
  "fd_vprintf fuel fd text =
     (if 256 < length text then Fault OutOfBounds
      else writen_ni fuel fd (take (length text) (take 255 text @ [0])))"

abbreviation printf_to :: "int \<Rightarrow> string \<Rightarrow> parg list \<Rightarrow> 'a pprog \<Rightarrow> 'a pprog" where
  "printf_to fd f as k \<equiv> call (PPrintf fd f as) k"

text \<open>Messages one after the other.\<close>

primrec say :: "int \<Rightarrow> (string \<times> parg list) list \<Rightarrow> 'a pprog \<Rightarrow> 'a pprog" where
  "say fd [] k = k"
| "say fd (m # ms) k = printf_to fd (fst m) (snd m) (say fd ms k)"

definition pinfo :: "pico \<Rightarrow> string \<Rightarrow> parg list \<Rightarrow> 'a pprog \<Rightarrow> 'a pprog" where
  "pinfo s f as k = (if o_quiet (opts s) then k else printf_to STO f as k)"

abbreviation term_do :: "termop \<Rightarrow> int \<Rightarrow> 'a pprog \<Rightarrow> 'a pprog" where
  "term_do c fd k \<equiv> call (PTerm c fd) k"

definition cleanup :: "bool \<Rightarrow> bool \<Rightarrow> bool \<Rightarrow> pico \<Rightarrow> (pico \<Rightarrow> 'a pprog) \<Rightarrow> 'a pprog" where
  "cleanup drain noreset hup s k =
     (let finish = (\<lambda>s.
        call (PLib ''cleanup_history'' [])
        ((if o_initstring (opts s) \<noteq> None then call (PLib ''free'' [PS (bytes ''initstring'')]) else id)
        ((if q_sz s \<noteq> 0 then call (PLib ''free'' [PS (bytes ''tty_q.buff'')]) else id)
        (let s = set_opts (o_initstring_update (\<lambda>_. None)) s in
         call (PLib ''free'' [PS (bytes ''port'')])
         (if o_log_filename (opts s) \<noteq> None
          then call (PLib ''free'' [PS (bytes ''log_filename'')])
                 (call (PLib ''close'' [PI (log_fd s)]) (k s))
          else k s))))) in
      if 0 \<le> tty_fd s
      then
        (if drain then term_do T_drain (tty_fd s) else id)
        (term_do T_flush (tty_fd s)
        ((if o_flow (opts s) \<noteq> FC_NONE then term_do T_fake_flush (tty_fd s) else id)
        (term_do (T_set_hupcl (\<not> noreset \<or> hup)) (tty_fd s)
        (term_do (T_apply True) (tty_fd s)
        (if noreset
         then pinfo s ''Skipping tty reset...'' [] (
              term_do T_erase (tty_fd s) (
              call (PLib ''flock'' [PI (tty_fd s)]) (
              call (PLib ''close'' [PI (tty_fd s)]) (
              finish (s\<lparr>tty_fd := -1\<rparr>)))))
         else finish s)))))
      else finish s)"

definition fatal :: "string \<Rightarrow> parg list \<Rightarrow> pico \<Rightarrow> 'a pprog" where
  "fatal f as s =
     printf_to STE ''FATAL: '' [] (printf_to STE f as (printf_to STE [] [] (
     cleanup False (o_noreset (opts s)) (o_hangup (opts s)) s (\<lambda>_. Exit 1))))"

definition map_and_write :: "nat \<Rightarrow> int \<Rightarrow> cint \<Rightarrow> byte \<Rightarrow> pico \<Rightarrow> unit pprog" where
  "map_and_write fuel fd m c s =
     need (do_map m c) AssertFailed (\<lambda>b.
     if b \<noteq> []
     then andthen (writen_ni fuel fd b) (\<lambda>w.
          if w < length b then fatal ''write to stdout failed: %s'' [] s else Ret ())
     else Ret ())"

subsection \<open>The output queue\<close>

text \<open>
  The growing loop of \<^verbatim>\<open>tty_q_push\<close>: the size doubles until the longest replacement fits;
  \<open>False\<close> is the early return.  \<open>grow_fuel\<close> doublings exhaust the range of \<^verbatim>\<open>int\<close>.
\<close>

definition INT_MAX :: int where "INT_MAX = 2147483647"

definition grow_fuel :: nat where "grow_fuel = 32"

primrec grow :: "nat \<Rightarrow> pico \<Rightarrow> (bool \<times> pico) pprog" where
  "grow 0 s = Spin"
| "grow (Suc n) s =
     (if q_sz s < int (length (q_data s)) + int M_MAXMAP
      then
        (let sz = q_sz s * 2 in
         if INT_MAX < sz then Fault Overflowed
         else if TTY_Q_SZ \<noteq> 0 \<and> TTY_Q_SZ < sz then Ret (False, s)
         else Sys (PRealloc sz) (\<lambda>r. if pv r = 0 then Ret (False, s) else grow n (s\<lparr>q_sz := sz\<rparr>)))
      else Ret (True, s))"

text \<open>The number of bytes taken, and the state; \<open>i\<close> bytes were taken before.\<close>

primrec push_from :: "nat \<Rightarrow> byte list \<Rightarrow> nat \<Rightarrow> pico \<Rightarrow> (nat \<times> pico) pprog" where
  "push_from fuel [] i s = Ret (i, s)"
| "push_from fuel (c # cs) i s =
     andthen (grow grow_fuel s) (\<lambda>(ok, s).
     if \<not> ok then Ret (i, s)
     else
         need (do_map (o_omap (opts s)) c) AssertFailed (\<lambda>b.
         if q_sz s < int (length (q_data s) + length b) then Fault OutOfBounds
         else
           (let s = s\<lparr>q_data := q_data s @ b\<rparr> in
            andthen (if o_lecho (opts s) then map_and_write fuel STO (o_emap (opts s)) c s else Ret ()) (\<lambda>_.
            push_from fuel cs (Suc i) s))))"

definition tty_q_push :: "nat \<Rightarrow> byte list \<Rightarrow> pico \<Rightarrow> (nat \<times> pico) pprog" where
  "tty_q_push fuel cs s = push_from fuel cs 0 s"

text \<open>The pattern around a push of one byte: the bell when the queue is full.\<close>

definition push_or_bell :: "nat \<Rightarrow> byte \<Rightarrow> pico \<Rightarrow> pico pprog" where
  "push_or_bell fuel c s =
     andthen (tty_q_push fuel [c] s) (\<lambda>(n, s).
     if n \<noteq> 1 then printf_to STO [CHR 0x07] [] (Ret s) else Ret s)"

subsection \<open>Streams\<close>

text \<open>
  What a run moved: the bytes typed, those sent to the port, those the port delivered and
  those shown; messages are not counted.  \<open>p_ok\<close> is what POSIX says of the answers: no
  transfer is longer than asked for, and only what was waited for is ready.
\<close>

record streams =
  typed :: "byte list"
  sent :: "byte list"
  got :: "byte list"
  shown :: "byte list"

definition no_bytes :: streams where
  "no_bytes = \<lparr>typed = [], sent = [], got = [], shown = []\<rparr>"

fun p_ok :: "pcall \<Rightarrow> presp \<Rightarrow> bool" where
  "p_ok (PWrite fd bs) r = (pv r \<le> int (length bs))"
| "p_ok (PRead fd n) r = (pv r \<le> int n \<and> (0 \<le> pv r \<longrightarrow> length (pdat r) = nat (pv r)))"
| "p_ok (PSelect a b c t) r =
     ((fst (psel r) \<longrightarrow> a) \<and> (fst (snd (psel r)) \<longrightarrow> b) \<and> (snd (snd (psel r)) \<longrightarrow> c))"
| "p_ok _ r = True"

fun stream_step :: "int \<Rightarrow> streams \<Rightarrow> pcall \<Rightarrow> presp \<Rightarrow> streams" where
  "stream_step tty h (PRead fd n) r =
     (if pv r \<le> 0 then h
      else if fd = STI then h\<lparr>typed := typed h @ pdat r\<rparr>
      else if fd = tty then h\<lparr>got := got h @ pdat r\<rparr> else h)"
| "stream_step tty h (PWrite fd bs) r =
     (if fd = tty then h\<lparr>sent := sent h @ take (nat (pv r)) bs\<rparr>
      else if fd = STO then h\<lparr>shown := shown h @ take (nat (pv r)) bs\<rparr> else h)"
| "stream_step tty h _ r = h"

text \<open>The monitor of a session on a port; \<open>extra\<close> are further assumptions on the answers.\<close>

definition watching :: "int \<Rightarrow> (pcall \<Rightarrow> presp \<Rightarrow> bool) \<Rightarrow> (streams, pcall, presp) monitor" where
  "watching tty extra =
     \<lparr>m_ok = \<lambda>_ _. True, m_env = \<lambda>_ c r. p_ok c r \<and> extra c r, m_st = stream_step tty\<rparr>"

lemma watching_simps [simp]:
  "m_ok (watching tty extra) h c" "m_env (watching tty extra) h c r \<longleftrightarrow> p_ok c r \<and> extra c r"
  "m_st (watching tty extra) = stream_step tty"
  by (simp_all add: watching_def)

text \<open>Writing to a descriptor that counts.\<close>

fun push_stream :: "int \<Rightarrow> int \<Rightarrow> streams \<Rightarrow> byte list \<Rightarrow> streams" where
  "push_stream tty fd h bs =
     (if fd = tty then h\<lparr>sent := sent h @ bs\<rparr>
      else if fd = STO then h\<lparr>shown := shown h @ bs\<rparr> else h)"

lemma push_stream_append:
  "push_stream tty fd (push_stream tty fd h xs) ys = push_stream tty fd h (xs @ ys)"
  by simp

lemma push_stream_Nil: "push_stream tty fd h [] = h"
  by simp

lemma step_write: "stream_step tty h (PWrite fd bs) r = push_stream tty fd h (take (nat (pv r)) bs)"
  by simp

text \<open>
  The outcome of writing \<open>p\<close>, with \<open>w\<close> bytes written before: the bytes counted are the bytes
  that went out, from the front.
\<close>

definition wrote :: "int \<Rightarrow> int \<Rightarrow> streams \<Rightarrow> byte list \<Rightarrow> nat \<Rightarrow> (pcall, nat) outcome \<Rightarrow> streams \<Rightarrow> bool" where
  "wrote tty fd h p w out h' =
     (case out of
        Value n \<Rightarrow> w \<le> n \<and> n - w \<le> length p \<and> h' = push_stream tty fd h (take (n - w) p)
      | Running \<Rightarrow> \<exists>k \<le> length p. h' = push_stream tty fd h (take k p)
      | _ \<Rightarrow> False)"

lemma wrote_now: "wrote tty fd h p w (Value w) h" "wrote tty fd h p w Running h"
  by (auto simp: wrote_def intro: exI [of _ 0])

lemma take_more: "take n p @ take k (drop n p) = take (n + k) p"
  by (simp add: take_add)

lemma wrote_step:
  assumes n: "n \<le> length p" and o: "wrote tty fd (push_stream tty fd h (take n p)) (drop n p) (w + n) out h'"
  shows "wrote tty fd h p w out h'"
proof (cases out)
  case (Value m)
  with o have m: "w + n \<le> m" "m - (w + n) \<le> length p - n"
    "h' = push_stream tty fd h (take (n + (m - (w + n))) p)"
    by (simp_all add: wrote_def push_stream_append take_more del: push_stream.simps)
  moreover have "n + (m - (w + n)) = m - w" using m(1) by simp
  ultimately show ?thesis using Value n by (simp add: wrote_def del: push_stream.simps)
next
  case Running
  with o obtain k where "k \<le> length p - n" "h' = push_stream tty fd h (take (n + k) p)"
    by (auto simp: wrote_def push_stream_append take_more simp del: push_stream.simps)
  with Running n show ?thesis
    by (auto simp: wrote_def simp del: push_stream.simps intro!: exI [of _ "n + k"])
qed (use o in \<open>simp_all add: wrote_def\<close>)

lemma writen_ni_from_safe:
  "safe (watching tty extra) (writen_ni_from fuel fd p w) h (wrote tty fd h p w)"
proof (induction fuel arbitrary: p w h)
  case (Suc fuel)
  have "safe (watching tty extra) (writen_ni_from fuel fd (drop (nat (pv r)) p) (w + nat (pv r)))
      (stream_step tty h (PWrite fd p) r) (wrote tty fd h p w)"
    if "pv r \<le> int (length p)" for r
    unfolding step_write using that
    by (intro safe_mono [OF Suc.IH]) (rule wrote_step [of "nat (pv r)"], simp_all)
  moreover have "stream_step tty h (PWrite fd p) r = h" if "pv r \<le> 0" for r
    using that by (simp add: step_write)
  ultimately show ?case using Suc.IH
    by (simp add: wrote_now del: stream_step.simps)
qed (simp add: wrote_now)

lemma writen_ni_safe: "safe (watching tty extra) (writen_ni fuel fd p) h (wrote tty fd h p 0)"
  unfolding writen_ni_def by (rule writen_ni_from_safe)

text \<open>How often a run was interrupted; how far a write got when it was not cut short.\<close>

definition interrupts :: "(pcall \<times> presp) list \<Rightarrow> nat" where
  "interrupts t = length (filter (\<lambda>(c, r). pv r < 0 \<and> perr r = EINTR) t)"

lemma writen_ni_ends:
  assumes "exec (writen_ni_from fuel fd p w) out t" and "\<forall>(c, r) \<in> set t. p_ok c r"
    and "length p + interrupts t < fuel"
  shows "\<exists>n. out = Value n \<and> (n < w + length p \<longrightarrow> t \<noteq> [] \<and> pv (snd (last t)) \<le> 0)"
  using assms
proof (induction fuel arbitrary: p w t)
  case (Suc fuel)
  show ?case
  proof (cases "p = []")
    case False
    with Suc.prems(1) obtain r t' where t: "t = (PWrite fd p, r) # t'"
      and k: "exec (if pv r < 0 \<and> perr r = EINTR then writen_ni_from fuel fd p w
         else if pv r \<le> 0 then Ret w
         else writen_ni_from fuel fd (drop (nat (pv r)) p) (w + nat (pv r))) out t'" by auto
    have ok: "pv r \<le> int (length p)" "\<forall>(c, r) \<in> set t'. p_ok c r" using Suc.prems(2) t by auto
    consider "pv r < 0" "perr r = EINTR" | "pv r \<le> 0" "\<not> (pv r < 0 \<and> perr r = EINTR)" | "0 < pv r"
      by linarith
    then show ?thesis
    proof cases
      case 1
      with k Suc.IH [of p w t'] ok Suc.prems(3) t obtain n where n: "out = Value n"
        "n < w + length p \<longrightarrow> t' \<noteq> [] \<and> pv (snd (last t')) \<le> 0" by (auto simp: interrupts_def)
      then show ?thesis using t by auto
    next
      case 2
      with k t show ?thesis by auto
    next
      case 3
      let ?n = "nat (pv r)"
      have "exec (writen_ni_from fuel fd (drop ?n p) (w + ?n)) out t'" using k 3 by simp
      moreover have "interrupts t = interrupts t'" using t 3 by (simp add: interrupts_def)
      then have "length (drop ?n p) + interrupts t' < fuel" using Suc.prems(3) 3 ok(1) by simp
      ultimately obtain n where "out = Value n"
        "n < w + ?n + length (drop ?n p) \<longrightarrow> t' \<noteq> [] \<and> pv (snd (last t')) \<le> 0"
        using Suc.IH ok(2) by blast
      then show ?thesis using t ok(1) 3 by auto
    qed
  qed (use Suc.prems(1) in auto)
qed simp

lemma honest_watching: "(\<forall>(c, r) \<in> set t. p_ok c r \<and> extra c r) \<longleftrightarrow> honest (watching tty extra) h t"
  by (induction t arbitrary: h) auto

text \<open>
  C26: with fuel for each byte and each interruption \<^verbatim>\<open>writen_ni\<close> returns; the number it
  returns is the number of bytes that went out, these are the front of the buffer in order,
  and it is less than the whole only when the last write failed.
\<close>

theorem writen_ni_complete:
  assumes "exec (writen_ni fuel fd p) out t" and "\<forall>(c, r) \<in> set t. p_ok c r"
    and "length p + interrupts t < fuel"
  shows "\<exists>n \<le> length p. out = Value n \<and>
     sent (end_state (watching fd (\<lambda>_ _. True)) no_bytes t) = take n p \<and>
     (n < length p \<longrightarrow> t \<noteq> [] \<and> pv (snd (last t)) \<le> 0)"
proof -
  obtain n where n: "out = Value n" "n < length p \<longrightarrow> t \<noteq> [] \<and> pv (snd (last t)) \<le> 0"
    using writen_ni_ends [of fuel fd p 0 out t] assms by (auto simp: writen_ni_def)
  have "honest (watching fd (\<lambda>_ _. True)) no_bytes t"
    using honest_watching [of t "\<lambda>_ _. True"] assms(2) by auto
  with safe_exec(2) [OF assms(1) writen_ni_safe] have
    "wrote fd fd no_bytes p 0 out (end_state (watching fd (\<lambda>_ _. True)) no_bytes t)" by blast
  with n show ?thesis by (auto simp: wrote_def no_bytes_def)
qed

lemma writen_ni_complete_witness:
  "\<exists>n \<le> 3. fst (run (writen_ni 10 1 [1, 2, 3]) [presp0\<lparr>pv := 2\<rparr>, presp0\<lparr>pv := -1, perr := EINTR\<rparr>, presp0\<lparr>pv := 1\<rparr>])
     = Value n \<and> n = 3"
proof -
  let ?rs = "[presp0\<lparr>pv := 2\<rparr>, presp0\<lparr>pv := -1, perr := EINTR\<rparr>, presp0\<lparr>pv := 1\<rparr>]"
  let ?t = "[(PWrite 1 [1, 2, 3], ?rs ! 0), (PWrite 1 [3], ?rs ! 1), (PWrite 1 [3], ?rs ! 2)]"
  have r: "run (writen_ni 10 1 [1, 2, 3]) ?rs = (Value 3, ?t)"
    by (simp add: writen_ni_def presp0_def numeral_eq_Suc)
  then have "exec (writen_ni 10 1 [1, 2, 3]) (Value 3) ?t" using run_exec [OF r] by simp
  from writen_ni_complete [OF this] show ?thesis unfolding r
    by (auto simp: presp0_def interrupts_def)
qed

subsection \<open>The queue keeps everything in order\<close>

text \<open>The queue is well formed: what is in use fits, and there is room to double.\<close>

definition q_ok :: "pico \<Rightarrow> bool" where
  "q_ok s \<longleftrightarrow> TTY_Q_SZ_MIN \<le> q_sz s \<and> int (length (q_data s)) \<le> q_sz s"

definition q_grown :: "pico \<Rightarrow> pico \<Rightarrow> bool" where
  "q_grown s s' \<longleftrightarrow> (\<exists>n. s' = s\<lparr>q_sz := n\<rparr> \<and> q_sz s \<le> n)"

lemma q_grown_refl [simp]: "q_grown s s"
  unfolding q_grown_def by (rule exI [of _ "q_sz s"]) simp

lemma q_grown_upd: "q_sz s \<le> n \<Longrightarrow> q_grown s (s\<lparr>q_sz := n\<rparr>)"
  by (auto simp: q_grown_def)

text \<open>Growing: one doubling is enough, and nothing but the size changes.\<close>

lemma grow_two:
  assumes "q_ok s"
  shows "safe (watching tty extra) (grow (Suc (Suc n)) s) h
     (\<lambda>out h'. h' = h \<and>
        (case out of
           Value (ok, s') \<Rightarrow> q_grown s s' \<and> (ok \<longrightarrow> int (length (q_data s)) + 4 \<le> q_sz s') \<and>
             (\<not> ok \<longrightarrow> s' = s \<and> (\<exists>r. pv r = 0 \<and> extra (PRealloc (q_sz s * 2)) r))
         | Undefined f \<Rightarrow> f = Overflowed \<and> INT_MAX < q_sz s * 2
         | _ \<Rightarrow> False))"
  using assms by (auto simp: q_ok_def TTY_Q_SZ_def TTY_Q_SZ_MIN_def M_MAXMAP_def Let_def intro!: q_grown_upd)

lemma grow_safe:
  assumes "q_ok s"
  shows "safe (watching tty extra) (grow grow_fuel s) h
     (\<lambda>out h'. h' = h \<and>
        (case out of
           Value (ok, s') \<Rightarrow> q_grown s s' \<and> (ok \<longrightarrow> int (length (q_data s)) + 4 \<le> q_sz s') \<and>
             (\<not> ok \<longrightarrow> s' = s \<and> (\<exists>r. pv r = 0 \<and> extra (PRealloc (q_sz s * 2)) r))
         | Undefined f \<Rightarrow> f = Overflowed \<and> INT_MAX < q_sz s * 2
         | _ \<Rightarrow> False))"
proof -
  have fuel: "grow_fuel = Suc (Suc 30)" by (simp add: grow_fuel_def)
  show ?thesis unfolding fuel by (rule grow_two [OF assms])
qed

text \<open>Memory that does not run out.\<close>

fun roomy :: "pcall \<Rightarrow> presp \<Rightarrow> bool" where
  "roomy (PRealloc n) r = (pv r \<noteq> 0)"
| "roomy _ r = True"

text \<open>What the queue becomes when bytes are taken in.\<close>

definition queued :: "byte list \<Rightarrow> pico \<Rightarrow> pico \<Rightarrow> bool" where
  "queued cs s s' \<longleftrightarrow> q_ok s' \<and>
     (\<exists>n. s' = s\<lparr>q_sz := n, q_data := q_data s @ concat (map (mapped (o_omap (opts s))) cs)\<rparr>)"

lemma queued_Nil: "q_ok s \<Longrightarrow> queued [] s s"
  by (auto simp: queued_def intro: exI [of _ "q_sz s"])

lemma queued_Cons: "queued [c] s s1 \<Longrightarrow> queued cs s1 s2 \<Longrightarrow> queued (c # cs) s s2"
  by (auto simp: queued_def)

lemma queued_append: "queued xs s s1 \<Longrightarrow> queued ys s1 s2 \<Longrightarrow> queued (xs @ ys) s s2"
  by (auto simp: queued_def)

lemma queued_opts: "queued cs s s' \<Longrightarrow> opts s' = opts s \<and> tty_fd s' = tty_fd s \<and> q_ok s'"
  by (auto simp: queued_def)

definition pushed :: "nat \<Rightarrow> byte list \<Rightarrow> pico \<Rightarrow> (pcall, nat \<times> pico) outcome \<Rightarrow> bool" where
  "pushed i cs s out \<longleftrightarrow>
     (case out of
        Value (n, s') \<Rightarrow> n = i + length cs \<and> queued cs s s'
      | Undefined f \<Rightarrow> f = Overflowed
      | _ \<Rightarrow> False)"

lemma push_from_safe:
  assumes "q_ok s" and "\<not> o_lecho (opts s)" and "\<And>c r. extra c r \<Longrightarrow> roomy c r"
    and "\<forall>c \<in> set cs. mapped (o_omap (opts s)) c \<noteq> []"
  shows "safe (watching tty extra) (push_from fuel cs i s) h (\<lambda>out h'. h' = h \<and> pushed i cs s out)"
  using assms(1,2,4)
proof (induction cs arbitrary: i s)
  case Nil
  then show ?case by (simp add: pushed_def queued_Nil)
next
  case (Cons c cs)
  show ?case unfolding push_from.simps
  proof (rule safe_andthen [OF grow_safe [OF Cons.prems(1)]])
    fix a h'
    assume "h' = h \<and> (case Value a of Value (ok, s') \<Rightarrow> q_grown s s' \<and>
        (ok \<longrightarrow> int (length (q_data s)) + 4 \<le> q_sz s') \<and>
        (\<not> ok \<longrightarrow> s' = s \<and> (\<exists>r. pv r = 0 \<and> extra (PRealloc (q_sz s * 2)) r))
      | Undefined f \<Rightarrow> f = Overflowed \<and> INT_MAX < q_sz s * 2 | _ \<Rightarrow> False)"
    then obtain s' where a: "a = (True, s')" "h' = h" and g: "q_grown s s'"
      and room: "int (length (q_data s)) + 4 \<le> q_sz s'"
      using assms(3) by (cases a) fastforce
    let ?b = "mapped (o_omap (opts s)) c"
    have b: "do_map (o_omap (opts s)) c = Some ?b" "length ?b \<le> 4"
      using Cons.prems(3) mapped_le [of "o_omap (opts s)" c] by (simp_all add: do_map_mapped M_MAXMAP_def)
    let ?s = "s'\<lparr>q_data := q_data s' @ ?b\<rparr>"
    from g have s': "opts s' = opts s" "q_data s' = q_data s" "TTY_Q_SZ_MIN \<le> q_sz s'"
      using Cons.prems(1) by (auto simp: q_grown_def q_ok_def)
    have q: "queued [c] s ?s"
      using g s' room b(2) by (auto simp: queued_def q_ok_def q_grown_def)
    have "safe (watching tty extra) (push_from fuel cs (Suc i) ?s) h
        (\<lambda>out h'. h' = h \<and> pushed (Suc i) cs ?s out)"
      using Cons.IH [of ?s] q Cons.prems s' by (auto simp: queued_def)
    then have "safe (watching tty extra) (push_from fuel cs (Suc i) ?s) h
        (\<lambda>out h'. h' = h \<and> pushed i (c # cs) s out)"
      by (rule safe_mono) (use q in \<open>auto simp: pushed_def split: outcome.splits intro: queued_Cons\<close>)
    then show "safe (watching tty extra) (case a of (ok, s) \<Rightarrow>
        if \<not> ok then Ret (i, s)
        else need (do_map (o_omap (opts s)) c) AssertFailed (\<lambda>b.
          if q_sz s < int (length (q_data s) + length b) then Fault OutOfBounds
          else let s = s\<lparr>q_data := q_data s @ b\<rparr> in
            andthen (if o_lecho (opts s) then map_and_write fuel STO (o_emap (opts s)) c s else Ret ())
              (\<lambda>_. push_from fuel cs (Suc i) s))) h'
        (\<lambda>out h'. h' = h \<and> pushed i (c # cs) s out)"
      using b room s' Cons.prems(2) by (simp add: a Let_def)
  qed (auto simp: pushed_def)
qed

text \<open>Ending the program moves no bytes.\<close>

lemma safe_True: "safe (watching tty extra) p h (\<lambda>_ _. True)"
  by (induction p arbitrary: h) auto

lemma pinfo_safe: "safe (watching tty extra) k h Q \<Longrightarrow> safe (watching tty extra) (pinfo s f as k) h Q"
  by (simp add: pinfo_def)

lemma cleanup_safe:
  assumes "\<And>s'. safe (watching tty extra) (k s') h Q"
  shows "safe (watching tty extra) (cleanup d n hup s k) h Q"
  using assms by (simp add: cleanup_def Let_def pinfo_def)

lemma fatal_safe: "Q (Exited 1) h \<Longrightarrow> safe (watching tty extra) (fatal f as s) h Q"
  by (simp add: fatal_def cleanup_safe)

text \<open>The queue under any answers: it stays well formed and nothing else changes.\<close>

definition queue_only :: "pico \<Rightarrow> pico \<Rightarrow> bool" where
  "queue_only s s' \<longleftrightarrow> q_ok s' \<and> opts s' = opts s \<and> tty_fd s' = tty_fd s \<and> log_fd s' = log_fd s \<and>
     rts_up s' = rts_up s \<and> dtr_up s' = dtr_up s \<and> tty_write_sz s' = tty_write_sz s"

lemma queue_only_refl: "q_ok s \<Longrightarrow> queue_only s s"
  by (simp add: queue_only_def)

lemma queue_only_trans: "queue_only s s1 \<Longrightarrow> queue_only s1 s2 \<Longrightarrow> queue_only s s2"
  by (auto simp: queue_only_def)

lemma push_from_any:
  assumes "q_ok s"
  shows "safe (watching tty extra) (push_from fuel cs i s) h
     (\<lambda>out _. \<forall>n s'. out = Value (n, s') \<longrightarrow> queue_only s s')"
  using assms
proof (induction cs arbitrary: i s h)
  case (Cons c cs)
  show ?case unfolding push_from.simps
  proof (rule safe_andthen [OF grow_safe [OF Cons.prems]])
    fix a h'
    assume "h' = h \<and> (case Value a of Value (ok, s') \<Rightarrow> q_grown s s' \<and>
        (ok \<longrightarrow> int (length (q_data s)) + 4 \<le> q_sz s') \<and>
        (\<not> ok \<longrightarrow> s' = s \<and> (\<exists>r. pv r = 0 \<and> extra (PRealloc (q_sz s * 2)) r))
      | Undefined f \<Rightarrow> f = Overflowed \<and> INT_MAX < q_sz s * 2 | _ \<Rightarrow> False)"
    then obtain ok s' where a: "a = (ok, s')" and g: "q_grown s s'" by (cases a) auto
    have q: "queue_only s s'" using g Cons.prems by (auto simp: q_grown_def queue_only_def q_ok_def)
    have step: "safe (watching tty extra)
        (andthen (if l then map_and_write fuel STO e c u else Ret ()) (\<lambda>_. push_from fuel cs (Suc i) u)) h''
        (\<lambda>out _. \<forall>n s2. out = Value (n, s2) \<longrightarrow> queue_only s s2)"
      if u: "queue_only s u" for l e u h''
    proof (rule safe_andthen [OF safe_True])
      fix x g
      have "q_ok u" using u by (simp add: queue_only_def)
      then have "safe (watching tty extra) (push_from fuel cs (Suc i) u) g
          (\<lambda>out _. \<forall>n s'. out = Value (n, s') \<longrightarrow> queue_only u s')"
        by (rule Cons.IH)
      then show "safe (watching tty extra) (push_from fuel cs (Suc i) u) g
          (\<lambda>out _. \<forall>n s2. out = Value (n, s2) \<longrightarrow> queue_only s s2)"
        by (rule safe_mono) (metis queue_only_trans [OF u])
    qed simp_all
    have "queue_only s (s'\<lparr>q_data := q_data s' @ b\<rparr>)"
      if "\<not> q_sz s' < int (length (q_data s') + length b)" for b
      using q that by (auto simp: queue_only_def q_ok_def)
    note step [OF this]
    moreover have "queue_only s s'" by (rule q)
    ultimately
    show "safe (watching tty extra) (case a of (ok, s) \<Rightarrow>
        if \<not> ok then Ret (i, s)
        else need (do_map (o_omap (opts s)) c) AssertFailed (\<lambda>b.
          if q_sz s < int (length (q_data s) + length b) then Fault OutOfBounds
          else let s = s\<lparr>q_data := q_data s @ b\<rparr> in
            andthen (if o_lecho (opts s) then map_and_write fuel STO (o_emap (opts s)) c s else Ret ())
              (\<lambda>_. push_from fuel cs (Suc i) s))) h'
        (\<lambda>out _. \<forall>n s2. out = Value (n, s2) \<longrightarrow> queue_only s s2)"
      by (simp add: a Let_def)
  qed auto
qed (simp add: queue_only_refl)

end
