(* ===== verification/Picocom_Command.thy ===== *)
theory Picocom_Command
  imports Picocom_Term
begin

text \<open>
  The command keys of \<^verbatim>\<open>src/myterm/picocom/picocom.c\<close>: the prompts, \<^verbatim>\<open>run_cmd\<close>,
  \<^verbatim>\<open>show_status\<close> and \<^verbatim>\<open>do_command\<close>, which gives back whether the program is to exit and
  the new state.
\<close>

subsection \<open>Keys\<close>

definition KEY_EXIT :: byte where "KEY_EXIT = CKEY (of_char (CHR ''x''))"
definition KEY_QUIT :: byte where "KEY_QUIT = CKEY (of_char (CHR ''q''))"
definition KEY_PULSE :: byte where "KEY_PULSE = CKEY (of_char (CHR ''p''))"
definition KEY_TOG_DTR :: byte where "KEY_TOG_DTR = CKEY (of_char (CHR ''t''))"
definition KEY_TOG_RTS :: byte where "KEY_TOG_RTS = CKEY (of_char (CHR ''g''))"
definition KEY_BAUD :: byte where "KEY_BAUD = CKEY (of_char (CHR ''b''))"
definition KEY_BAUD_UP :: byte where "KEY_BAUD_UP = CKEY (of_char (CHR ''u''))"
definition KEY_BAUD_DN :: byte where "KEY_BAUD_DN = CKEY (of_char (CHR ''d''))"
definition KEY_FLOW :: byte where "KEY_FLOW = CKEY (of_char (CHR ''f''))"
definition KEY_PARITY :: byte where "KEY_PARITY = CKEY (of_char (CHR ''y''))"
definition KEY_BITS :: byte where "KEY_BITS = CKEY (of_char (CHR ''i''))"
definition KEY_STOP :: byte where "KEY_STOP = CKEY (of_char (CHR ''j''))"
definition KEY_LECHO :: byte where "KEY_LECHO = CKEY (of_char (CHR ''c''))"
definition KEY_STATUS :: byte where "KEY_STATUS = CKEY (of_char (CHR ''v''))"
definition KEY_HELP :: byte where "KEY_HELP = CKEY (of_char (CHR ''h''))"
definition KEY_KEYS :: byte where "KEY_KEYS = CKEY (of_char (CHR ''k''))"
definition KEY_SEND :: byte where "KEY_SEND = CKEY (of_char (CHR ''s''))"
definition KEY_RECEIVE :: byte where "KEY_RECEIVE = CKEY (of_char (CHR ''r''))"
definition KEY_HEX :: byte where "KEY_HEX = CKEY (of_char (CHR ''w''))"
definition KEY_BREAK :: byte where "KEY_BREAK = CKEY 92"

text \<open>The keys of the demultiplexer, with the mode each selects.\<close>

definition mode_keys :: "(byte \<times> int) list" where
  "mode_keys =
     [(of_char (CHR ''1''), 0x10), (of_char (CHR ''2''), 0x20), (of_char (CHR ''3''), 0x30),
      (of_char (CHR ''4''), 0x40), (of_char (CHR ''5''), 0x50), (of_char (CHR ''6''), 0x60),
      (of_char (CHR ''7''), 0x70), (of_char (CHR ''8''), 0x80), (of_char (CHR ''9''), 0x90),
      (of_char (CHR ''0''), 0x00), (of_char (CHR ''-''), 0xFF)]"

lemmas key_defs =
  KEY_EXIT_def KEY_QUIT_def KEY_PULSE_def KEY_TOG_DTR_def KEY_TOG_RTS_def KEY_BAUD_def
  KEY_BAUD_UP_def KEY_BAUD_DN_def KEY_FLOW_def KEY_PARITY_def KEY_BITS_def KEY_STOP_def
  KEY_LECHO_def KEY_STATUS_def KEY_HELP_def KEY_KEYS_def KEY_SEND_def KEY_RECEIVE_def KEY_HEX_def
  KEY_BREAK_def

subsection \<open>Prompts\<close>

definition HEXBUF_SZ :: nat where "HEXBUF_SZ = 128"

text \<open>\<^verbatim>\<open>read_filename\<close>; the history keeps the name.\<close>

definition read_filename :: "byte list option pprog" where
  "read_filename =
     call (PLib ''linenoiseSetCompletionCallback'' []) (
     printf_to STO [] [] (
     Sys (PLinenoise ''*** file: '') (\<lambda>r.
     printf_to STO [] [] (
     call (PLib ''linenoiseSetCompletionCallback'' []) (
     case pstr r of
       None \<Rightarrow> Ret None
     | Some fname \<Rightarrow> call (PLib ''add_history'' [PS fname]) (Ret (Some fname)))))))"

text \<open>
  \<^verbatim>\<open>read_baud\<close>: the text is freed in the loop and then handed to the history.
  \<^verbatim>\<open>strtol\<close> is a call that gives the number, \<^verbatim>\<open>trailing\<close> tells whether it took the whole text.
\<close>

definition check_baud :: "bool \<Rightarrow> int \<Rightarrow> (bool \<Rightarrow> 'a pprog) \<Rightarrow> 'a pprog" where
  "check_baud trailing baud k =
     (if trailing then k False
      else Sys (PLib ''term_baud_ok'' [PI baud]) (\<lambda>r. k (pv r \<noteq> 0 \<and> baud \<noteq> 0)))"

primrec read_baud :: "nat \<Rightarrow> int pprog" where
  "read_baud 0 = Spin"
| "read_baud (Suc fuel) =
     printf_to STO [] [] (
     Sys (PLinenoise ''*** baud: '') (\<lambda>r.
     printf_to STO [] [] (
     case pstr r of
       None \<Rightarrow> Ret (-1)
     | Some text \<Rightarrow>
         Sys (PLib ''strtol'' [PS text]) (\<lambda>rn.
         Sys (PLib ''trailing'' [PS text]) (\<lambda>rt.
         check_baud (pv rt \<noteq> 0) (pv rn) (\<lambda>good.
         let baud = (if good then pv rn else -1) in
         (if good then id else printf_to STO ''*** Invalid baudrate!'' [])
         (call (PLib ''free'' [PS text])
         (if baud < 0 then read_baud fuel else Fault UseAfterFree))))))))"

primrec read_hex :: "nat \<Rightarrow> nat \<Rightarrow> byte list pprog" where
  "read_hex 0 sz = Spin"
| "read_hex (Suc fuel) sz =
     printf_to STO [] [] (
     Sys (PLinenoise ''*** hex: '') (\<lambda>r.
     printf_to STO [] [] (
     case pstr r of
       None \<Rightarrow> Ret []
     | Some hexstr \<Rightarrow>
         (case hex2bin sz hexstr of
            None \<Rightarrow> printf_to STO ''*** Invalid hex!'' [] (
                     call (PLib ''free'' [PS hexstr]) (read_hex fuel sz))
          | Some bs \<Rightarrow> call (PLib ''free'' [PS hexstr]) (Ret bs)))))"

subsection \<open>External commands\<close>

definition RUNCMD_ARGS_MAX :: int where "RUNCMD_ARGS_MAX = 32"
definition RUNCMD_EXEC_FAIL :: int where "RUNCMD_EXEC_FAIL = 126"

definition establish_child_signal_handlers :: "'a pprog \<Rightarrow> 'a pprog" where
  "establish_child_signal_handlers k =
     call (PLib ''sigaction'' [PS (bytes ''SIGINT SIG_DFL'')]) (
     call (PLib ''sigaction'' [PS (bytes ''SIGTERM SIG_DFL'')]) k)"

primrec wait_child :: "nat \<Rightarrow> int \<Rightarrow> (presp \<Rightarrow> 'a pprog) \<Rightarrow> 'a pprog" where
  "wait_child 0 pid k = Spin"
| "wait_child (Suc fuel) pid k =
     Sys (PLib ''waitpid'' [PI pid]) (\<lambda>r.
     if pv r < 0 \<and> perr r = EINTR then wait_child fuel pid k else k r)"

definition run_child :: "int \<Rightarrow> byte list \<Rightarrow> byte list \<Rightarrow> int pprog" where
  "run_child fd cmd args_extra =
     term_do T_drain STI (
     term_do T_remove STI (
     term_do T_erase fd (
     Sys (PLib ''fcntl'' [PS (bytes ''F_GETFL''), PI fd]) (\<lambda>rf.
     call (PLib ''fcntl'' [PS (bytes ''F_SETFL without O_NONBLOCK''), PI fd, PI (pv rf)]) (
     call (PLib ''close'' [PI STI]) (
     call (PLib ''close'' [PI STO]) (
     call (PLib ''dup2'' [PI fd, PI STI]) (
     call (PLib ''dup2'' [PI fd, PI STO]) (
     Sys (PLib ''split_quoted'' [PS cmd, PI RUNCMD_ARGS_MAX]) (\<lambda>r1.
     if pv r1 < 0 then printf_to STE ''Cannot parse command'' [] (Exit RUNCMD_EXEC_FAIL)
     else
       Sys (PLib ''split_quoted'' [PS args_extra, PI RUNCMD_ARGS_MAX]) (\<lambda>r2.
       if pv r2 < 0 then printf_to STE ''Cannot parse extra args'' [] (Exit RUNCMD_EXEC_FAIL)
       else
         Sys (PLib ''argc'' []) (\<lambda>ra.
         if pv ra < 1 then printf_to STE ''No command given'' [] (Exit RUNCMD_EXEC_FAIL)
         else
           printf_to STE ''$ %s %s'' [PS cmd, PS args_extra] (
           establish_child_signal_handlers (
           call (PLib ''sigprocmask'' [PS (bytes ''restore'')]) (
           call (PLib ''execvp'' []) (
           printf_to STE ''exec: %s'' [] (Exit RUNCMD_EXEC_FAIL)))))))))))))))))"

definition run_cmd :: "nat \<Rightarrow> int \<Rightarrow> byte list \<Rightarrow> byte list \<Rightarrow> int pprog" where
  "run_cmd fuel fd cmd args_extra =
     call (PLib ''sigaction'' [PS (bytes ''SIGINT SIG_IGN'')]) (
     call (PLib ''sigprocmask'' [PS (bytes ''block'')]) (
     Sys (PLib ''fork'' []) (\<lambda>r.
     if pv r < 0
     then call (PLib ''sigprocmask'' [PS (bytes ''restore'')]) (
          printf_to STO ''*** cannot fork: %s ***'' [] (Ret (-1)))
     else if pv r \<noteq> 0
     then call (PLib ''sigprocmask'' [PS (bytes ''restore'')]) (
          wait_child fuel (pv r) (\<lambda>w.
          term_do (T_apply False) STI (
          call (PLib ''sigaction'' [PS (bytes ''SIGINT restore'')]) (
          case pstat w of
            Exited_with n \<Rightarrow> printf_to STO ''*** exit status: %d ***'' [PI n] (Ret n)
          | Killed_by n \<Rightarrow> printf_to STO ''*** killed by signal: %d ***'' [PI n] (Ret (-1))
          | Other_status \<Rightarrow> printf_to STO ''*** abnormal termination: 0x%x ***'' [PI (pv w)] (Ret (-1))))))
     else run_child fd cmd args_extra)))"

subsection \<open>Status\<close>

definition flow_str :: "flowcntrl \<Rightarrow> byte list" where
  "flow_str f =
     (case f of FC_NONE \<Rightarrow> bytes ''none'' | FC_RTSCTS \<Rightarrow> bytes ''RTS/CTS'' | FC_XONXOFF \<Rightarrow> bytes ''xon/xoff''
      | FC_OTHER \<Rightarrow> bytes ''other'' | FC_ERROR \<Rightarrow> bytes ''invalid flow control mode'')"

definition parity_str :: "parity \<Rightarrow> byte list" where
  "parity_str p =
     (case p of P_NONE \<Rightarrow> bytes ''none'' | P_EVEN \<Rightarrow> bytes ''even'' | P_ODD \<Rightarrow> bytes ''odd''
      | P_MARK \<Rightarrow> bytes ''mark'' | P_SPACE \<Rightarrow> bytes ''space'' | P_ERROR \<Rightarrow> bytes ''invalid parity mode'')"

text \<open>A line of the report: with the real value behind the wanted one when they differ.\<close>

definition statline :: "bool \<Rightarrow> string \<Rightarrow> parg \<Rightarrow> parg \<Rightarrow> bool \<Rightarrow> int \<Rightarrow> (int \<Rightarrow> 'a pprog) \<Rightarrow> 'a pprog" where
  "statline quiet what want real same n k =
     (if same
      then (if quiet then k n else printf_to STO what [want] (k n))
      else (if quiet then k (n + 1) else printf_to STO what [want, real] (k (n + 1))))"

abbreviation updown :: "bool \<Rightarrow> parg" where
  "updown b \<equiv> PS (if b then bytes ''up'' else bytes ''down'')"

text \<open>
  \<^verbatim>\<open>show_status\<close>: the number of settings that differ from the wanted ones.  The modem lines
  come as bits whose places \<^verbatim>\<open>term.h\<close> defines; \<open>mctl_of\<close> reads an answer of
  \<^verbatim>\<open>term_get_mctl\<close> as \<open>None\<close> (failed or unavailable) or the state of DTR and RTS.
\<close>

definition mctl_of :: "presp \<Rightarrow> (bool \<times> bool) option" where
  "mctl_of r = (if 0 \<le> pv r \<and> fst (psel r) then Some (snd (psel r)) else None)"

definition show_status :: "bool \<Rightarrow> pico \<Rightarrow> (int \<Rightarrow> 'a pprog) \<Rightarrow> 'a pprog" where
  "show_status quiet s k =
     term_do T_refresh (tty_fd s) (
     Sys (PTerm T_get_baudrate (tty_fd s)) (\<lambda>rb.
     Sys (PTerm T_get_flowcntrl (tty_fd s)) (\<lambda>rf.
     Sys (PTerm T_get_parity (tty_fd s)) (\<lambda>rp.
     Sys (PTerm T_get_databits (tty_fd s)) (\<lambda>rd.
     Sys (PTerm T_get_stopbits (tty_fd s)) (\<lambda>rs.
     let opt = opts s in
     (if quiet then id else printf_to STO [] []) (
     statline quiet ''*** baud'' (PI (o_baud opt)) (PI (pv rb)) (pv rb = o_baud opt) 0 (\<lambda>n.
     statline quiet ''*** flow'' (PS (flow_str (o_flow opt))) (PS (flow_str (pflow rf))) (pflow rf = o_flow opt) n (\<lambda>n.
     statline quiet ''*** parity'' (PS (parity_str (o_parity opt))) (PS (parity_str (ppar rp))) (ppar rp = o_parity opt) n (\<lambda>n.
     statline quiet ''*** databits'' (PI (o_databits opt)) (PI (pv rd)) (pv rd = o_databits opt) n (\<lambda>n.
     statline quiet ''*** stopbits'' (PI (o_stopbits opt)) (PI (pv rs)) (pv rs = o_stopbits opt) n (\<lambda>n.
     Sys (PTerm T_get_mctl (tty_fd s)) (\<lambda>rm.
     case mctl_of rm of
       Some (dtr, rts) \<Rightarrow>
         statline quiet ''*** dtr'' (updown (dtr_up s)) (updown dtr) (dtr = dtr_up s) n (\<lambda>n.
         statline quiet ''*** rts'' (updown (rts_up s)) (updown rts) (rts = rts_up s) n (\<lambda>n.
         (if quiet then k n else printf_to STO ''*** mctl'' [PI (pv rm)] (k n))))
     | None \<Rightarrow>
         (if quiet then k n
          else printf_to STO ''*** dtr'' [updown (dtr_up s)] (
               printf_to STO ''*** rts'' [updown (rts_up s)] (k n))))))))))))))))"

definition key_help :: "opts \<Rightarrow> (string \<times> parg list) list" where
  "key_help opt =
     [('''', []), (''*** Picocom commands (all prefixed by [C-%c])'', [PI (uint (KEYC (o_escape opt)))]), ('''', []),
      (''*** [C-%c] : Exit picocom'', [PI (uint (KEYC KEY_EXIT))]),
      (''*** [C-%c] : Exit without reseting serial port'', [PI (uint (KEYC KEY_QUIT))]),
      (''*** [C-%c] : Set baudrate'', [PI (uint (KEYC KEY_BAUD))]),
      (''*** [C-%c] : Increase baudrate (baud-up)'', [PI (uint (KEYC KEY_BAUD_UP))]),
      (''*** [C-%c] : Decrease baudrate (baud-down)'', [PI (uint (KEYC KEY_BAUD_DN))]),
      (''*** [C-%c] : Change number of databits'', [PI (uint (KEYC KEY_BITS))]),
      (''*** [C-%c] : Change number of stopbits'', [PI (uint (KEYC KEY_STOP))]),
      (''*** [C-%c] : Change flow-control mode'', [PI (uint (KEYC KEY_FLOW))]),
      (''*** [C-%c] : Change parity mode'', [PI (uint (KEYC KEY_PARITY))]),
      (''*** [C-%c] : Pulse DTR'', [PI (uint (KEYC KEY_PULSE))]),
      (''*** [C-%c] : Toggle DTR'', [PI (uint (KEYC KEY_TOG_DTR))]),
      (''*** [C-%c] : Toggle RTS'', [PI (uint (KEYC KEY_TOG_RTS))]),
      (''*** [C-%c] : Send break'', [PI (uint (KEYC KEY_BREAK))]),
      (''*** [C-%c] : Toggle local echo'', [PI (uint (KEYC KEY_LECHO))]),
      (''*** [C-%c] : Write hex'', [PI (uint (KEYC KEY_HEX))]),
      (''*** [C-%c] : Send file'', [PI (uint (KEYC KEY_SEND))]),
      (''*** [C-%c] : Receive file'', [PI (uint (KEYC KEY_RECEIVE))]),
      (''*** [C-%c] : Show port settings'', [PI (uint (KEYC KEY_STATUS))]),
      (''*** [%c] : Mode 0x10'', [PI (of_char (CHR ''1''))]),
      (''*** [%c] : Mode 0x20'', [PI (of_char (CHR ''2''))]),
      (''*** [%c] : Mode 0x30'', [PI (of_char (CHR ''3''))]),
      (''*** [%c] : Mode 0x40'', [PI (of_char (CHR ''4''))]),
      (''*** [%c] : Mode 0x50'', [PI (of_char (CHR ''5''))]),
      (''*** [%c] : Mode 0x60'', [PI (of_char (CHR ''6''))]),
      (''*** [%c] : Mode 0x70'', [PI (of_char (CHR ''7''))]),
      (''*** [%c] : Mode 0x80'', [PI (of_char (CHR ''8''))]),
      (''*** [%c] : Mode 0x90'', [PI (of_char (CHR ''9''))]),
      (''*** [%c] : Mode 0x00'', [PI (of_char (CHR ''0''))]),
      (''*** [%c] : Mode 0xFF'', [PI (of_char (CHR ''-''))]),
      (''*** [C-%c] : Show this message'', [PI (uint (KEYC KEY_HELP))]),
      ('''', [])]"

definition show_keys :: "pico \<Rightarrow> 'a pprog \<Rightarrow> 'a pprog" where
  "show_keys s k = say STO (key_help (opts s)) k"

subsection \<open>Commands\<close>

definition baud_down :: "int \<Rightarrow> (int \<Rightarrow> 'a pprog) \<Rightarrow> 'a pprog" where
  "baud_down baud k =
     Sys (PLib ''term_baud_down'' [PI baud]) (\<lambda>r. k (if pv r = 0 then baud else pv r))"

definition baud_up :: "int \<Rightarrow> (int \<Rightarrow> 'a pprog) \<Rightarrow> 'a pprog" where
  "baud_up baud k = Sys (PLib ''term_baud_up'' [PI baud]) (\<lambda>r. k (pv r))"

text \<open>The pattern of every change of a line setting: set, empty the queue, flush, apply.\<close>

definition change_line :: "termop \<Rightarrow> pico \<Rightarrow> (pico \<Rightarrow> 'a pprog) \<Rightarrow> 'a pprog" where
  "change_line c s k =
     term_do c (tty_fd s) (
     term_do T_flush (tty_fd s) (
     term_do (T_apply True) (tty_fd s) (k (s\<lparr>q_data := []\<rparr>))))"

definition set_baud :: "int \<Rightarrow> pico \<Rightarrow> (bool \<times> pico) pprog" where
  "set_baud baud s =
     (let s = set_opts (o_baud_update (\<lambda>_. baud)) s in
      change_line (T_set_baudrate baud) s (\<lambda>s.
      Sys (PTerm T_get_baudrate (tty_fd s)) (\<lambda>r.
      printf_to STO ''*** baud'' (if pv r \<noteq> baud then [PI baud, PI (pv r)] else [PI baud])
      (Ret (False, set_tty_write_sz (pv r) s)))))"

text \<open>The modem line toggles: lowered when believed up, raised otherwise.\<close>

definition toggle_dtr :: "pico \<Rightarrow> (bool \<times> pico) pprog" where
  "toggle_dtr s =
     Sys (PTerm (if dtr_up s then T_lower_dtr else T_raise_dtr) (tty_fd s)) (\<lambda>r.
     let s = (if 0 \<le> pv r then s\<lparr>dtr_up := \<not> dtr_up s\<rparr> else s) in
     printf_to STO ''*** DTR: %s ***'' [updown (dtr_up s)] (Ret (False, s)))"

definition toggle_rts :: "pico \<Rightarrow> (bool \<times> pico) pprog" where
  "toggle_rts s =
     Sys (PTerm (if rts_up s then T_lower_rts else T_raise_rts) (tty_fd s)) (\<lambda>r.
     let s = (if 0 \<le> pv r then s\<lparr>rts_up := \<not> rts_up s\<rparr> else s) in
     printf_to STO ''*** RTS: %s ***'' [updown (rts_up s)] (Ret (False, s)))"

definition transfer :: "nat \<Rightarrow> byte list \<Rightarrow> pico \<Rightarrow> (bool \<times> pico) pprog" where
  "transfer fuel xfr_cmd s =
     (if xfr_cmd = [] then printf_to STO ''*** command disabled ***'' [] (Ret (False, s))
      else
        andthen read_filename (\<lambda>name.
        case name of
          None \<Rightarrow> printf_to STO ''*** cannot read filename ***'' [] (Ret (False, s))
        | Some fname \<Rightarrow>
            andthen (run_cmd fuel (tty_fd s) xfr_cmd fname) (\<lambda>_.
            call (PLib ''free'' [PS fname]) (Ret (False, s)))))"

definition write_hex :: "nat \<Rightarrow> pico \<Rightarrow> (bool \<times> pico) pprog" where
  "write_hex fuel s =
     andthen (read_hex fuel HEXBUF_SZ) (\<lambda>bs.
     andthen (tty_q_push fuel bs s) (\<lambda>(n, s).
     (if n \<noteq> length bs then printf_to STO ''*** output buffer full ***'' [] else id)
     (printf_to STO ''*** wrote %d bytes ***'' [PI (int (length bs))] (Ret (False, s)))))"

definition do_command :: "nat \<Rightarrow> byte \<Rightarrow> pico \<Rightarrow> (bool \<times> pico) pprog" where
  "do_command fuel c s =
     (if c = KEY_EXIT then Ret (True, s)
      else if map_of mode_keys c \<noteq> None
      then Ret (False, set_opts (o_mode_update (\<lambda>_. the (map_of mode_keys c))) s)
      else if c = KEY_QUIT then Ret (True, set_opts (o_noreset_update (\<lambda>_. True)) s)
      else if c = KEY_STATUS then show_status False s (\<lambda>_. Ret (False, s))
      else if c = KEY_HELP \<or> c = KEY_KEYS then show_keys s (Ret (False, s))
      else if c = KEY_PULSE then
        printf_to STO ''*** pulse DTR ***'' [] (
        Sys (PTerm T_pulse_dtr (tty_fd s)) (\<lambda>r.
        if pv r < 0 then printf_to STO ''*** FAILED'' [] (Ret (False, s))
        else Ret (False, s\<lparr>dtr_up := True\<rparr>)))
      else if c = KEY_TOG_DTR then toggle_dtr s
      else if c = KEY_TOG_RTS then toggle_rts s
      else if c = KEY_BAUD then
        andthen (read_baud fuel) (\<lambda>newbaud.
        if newbaud < 0 then printf_to STO ''*** cannot read baudrate ***'' [] (Ret (False, s))
        else set_baud newbaud s)
      else if c = KEY_BAUD_UP then baud_up (o_baud (opts s)) (\<lambda>b. set_baud b s)
      else if c = KEY_BAUD_DN then baud_down (o_baud (opts s)) (\<lambda>b. set_baud b s)
      else if c = KEY_FLOW then
        (let v = flow_next (o_flow (opts s)) in
         change_line (T_set_flowcntrl v) (set_opts (o_flow_update (\<lambda>_. v)) s) (\<lambda>s.
         Sys (PTerm T_get_flowcntrl (tty_fd s)) (\<lambda>r.
         printf_to STO ''*** flow'' (PS (flow_str v) # (if pflow r \<noteq> v then [PS (flow_str (pflow r))] else []))
         (Ret (False, s)))))
      else if c = KEY_PARITY then
        (let v = parity_next (o_parity (opts s)) in
         change_line (T_set_parity v) (set_opts (o_parity_update (\<lambda>_. v)) s) (\<lambda>s.
         Sys (PTerm T_get_parity (tty_fd s)) (\<lambda>r.
         printf_to STO ''*** parity'' (PS (parity_str v) # (if ppar r \<noteq> v then [PS (parity_str (ppar r))] else []))
         (Ret (False, s)))))
      else if c = KEY_BITS then
        (let v = bits_next (o_databits (opts s)) in
         change_line (T_set_databits v) (set_opts (o_databits_update (\<lambda>_. v)) s) (\<lambda>s.
         Sys (PTerm T_get_databits (tty_fd s)) (\<lambda>r.
         printf_to STO ''*** databits'' (PI v # (if pv r \<noteq> v then [PI (pv r)] else [])) (Ret (False, s)))))
      else if c = KEY_STOP then
        (let v = stopbits_next (o_stopbits (opts s)) in
         change_line (T_set_stopbits v) (set_opts (o_stopbits_update (\<lambda>_. v)) s) (\<lambda>s.
         Sys (PTerm T_get_stopbits (tty_fd s)) (\<lambda>r.
         printf_to STO ''*** stopbits'' (PI v # (if pv r \<noteq> v then [PI (pv r)] else [])) (Ret (False, s)))))
      else if c = KEY_LECHO then
        (let s = set_opts (o_lecho_update Not) s in
         printf_to STO ''*** local echo: %s ***'' [PI (if o_lecho (opts s) then 1 else 0)] (Ret (False, s)))
      else if c = KEY_SEND then transfer fuel (o_send_cmd (opts s)) s
      else if c = KEY_RECEIVE then transfer fuel (o_receive_cmd (opts s)) s
      else if c = KEY_HEX then write_hex fuel s
      else if c = KEY_BREAK then
        term_do T_break (tty_fd s) (printf_to STO ''*** break sent ***'' [] (Ret (False, s)))
      else Ret (False, s))"

subsection \<open>Settings stay valid\<close>

definition valid_opts :: "opts \<Rightarrow> bool" where
  "valid_opts opt \<longleftrightarrow>
     o_flow opt \<in> {FC_NONE, FC_RTSCTS, FC_XONXOFF} \<and> o_parity opt \<in> {P_NONE, P_EVEN, P_ODD} \<and>
     o_databits opt \<in> {5, 6, 7, 8} \<and> o_stopbits opt \<in> {1, 2}"

definition valid :: "pico \<Rightarrow> bool" where
  "valid s \<longleftrightarrow> valid_opts (opts s) \<and> q_ok s \<and> 8 \<le> tty_write_sz s"

text \<open>A command that keeps the settings valid whatever is answered.\<close>

definition keeps_valid :: "(bool \<times> pico) pprog \<Rightarrow> bool" where
  "keeps_valid p \<longleftrightarrow>
     (\<forall>tty extra h. safe (watching tty extra) p h (\<lambda>out _. \<forall>q s'. out = Value (q, s') \<longrightarrow> valid s'))"

named_theorems keeping "commands that keep the settings valid"

lemma keeps_Ret [keeping]: "valid s \<Longrightarrow> keeps_valid (Ret (q, s))"
  by (simp add: keeps_valid_def)

lemma keeps_Sys [keeping]: "(\<And>r. keeps_valid (k r)) \<Longrightarrow> keeps_valid (Sys c k)"
  by (simp add: keeps_valid_def)

lemma keeps_call [keeping]: "keeps_valid k \<Longrightarrow> keeps_valid (call c k)"
  by (simp add: keeps_valid_def)

lemma keeps_if [keeping]: "keeps_valid p \<Longrightarrow> keeps_valid q \<Longrightarrow> keeps_valid (if b then p else q)"
  by simp

lemma keeps_andthen: "(\<And>a. keeps_valid (k a)) \<Longrightarrow> keeps_valid (andthen p k)"
  unfolding keeps_valid_def by (intro allI safe_andthen [OF safe_True]) auto

lemma keeps_statline [keeping]:
  "(\<And>n. keeps_valid (k n)) \<Longrightarrow> keeps_valid (statline q f a b c n k)"
  by (simp add: statline_def keeping)

lemma keeps_show_status [keeping]: "(\<And>n. keeps_valid (k n)) \<Longrightarrow> keeps_valid (show_status q s k)"
  unfolding show_status_def Let_def id_def
  by (intro keeping) (auto intro!: keeping split: option.splits)

lemma keeps_say: "keeps_valid k \<Longrightarrow> keeps_valid (say fd ms k)"
  by (induction ms) (auto intro: keeping)

lemma keeps_show_keys [keeping]: "keeps_valid k \<Longrightarrow> keeps_valid (show_keys s k)"
  unfolding show_keys_def by (rule keeps_say)

lemma valid_queue: "valid s \<Longrightarrow> queue_only s s' \<Longrightarrow> valid s'"
  by (simp add: valid_def queue_only_def)

lemma keeps_push:
  assumes v: "valid s" and k: "\<And>n s'. valid s' \<Longrightarrow> keeps_valid (k (n, s'))"
  shows "keeps_valid (andthen (tty_q_push fuel cs s) k)"
  unfolding keeps_valid_def tty_q_push_def
proof (intro allI)
  fix tty extra h
  from v have q: "q_ok s" by (simp add: valid_def)
  show "safe (watching tty extra) (andthen (push_from fuel cs 0 s) k) h
      (\<lambda>out _. \<forall>q s'. out = Value (q, s') \<longrightarrow> valid s')"
    by (rule safe_andthen [OF push_from_any [OF q]])
      (use valid_queue [OF v] k in \<open>auto simp: keeps_valid_def\<close>)
qed

lemma valid_set [simp]:
  "valid s \<Longrightarrow> valid (s\<lparr>dtr_up := b\<rparr>)" "valid s \<Longrightarrow> valid (s\<lparr>rts_up := b\<rparr>)"
  "valid s \<Longrightarrow> valid (s\<lparr>q_data := []\<rparr>)" "valid s \<Longrightarrow> valid (set_tty_write_sz n s)"
  by (simp_all add: valid_def q_ok_def set_tty_write_sz_def Let_def TTY_Q_SZ_MIN_def)

lemma next_flow: "flow_next f \<in> {FC_NONE, FC_RTSCTS, FC_XONXOFF}"
  by (cases f) simp_all

lemma next_parity: "parity_next p \<in> {P_NONE, P_EVEN, P_ODD}"
  by (cases p) simp_all

lemma next_bits:
  "n \<in> {5, 6, 7, 8} \<Longrightarrow> bits_next n \<in> {5, 6, 7, 8}" "m \<in> {1, 2} \<Longrightarrow> stopbits_next m \<in> {1, 2}"
  by (auto simp: bits_next_def stopbits_next_def)

lemma valid_opts_set:
  "valid_opts opt \<Longrightarrow> valid_opts (opt\<lparr>o_baud := b\<rparr>)" "valid_opts opt \<Longrightarrow> valid_opts (opt\<lparr>o_mode := m\<rparr>)"
  "valid_opts opt \<Longrightarrow> valid_opts (opt\<lparr>o_noreset := x\<rparr>)" "valid_opts opt \<Longrightarrow> valid_opts (o_lecho_update g opt)"
  "valid_opts opt \<Longrightarrow> valid_opts (opt\<lparr>o_flow := flow_next f\<rparr>)"
  "valid_opts opt \<Longrightarrow> valid_opts (opt\<lparr>o_parity := parity_next p\<rparr>)"
  "valid_opts opt \<Longrightarrow> valid_opts (opt\<lparr>o_databits := bits_next (o_databits opt)\<rparr>)"
  "valid_opts opt \<Longrightarrow> valid_opts (opt\<lparr>o_stopbits := stopbits_next (o_stopbits opt)\<rparr>)"
  using next_flow next_parity next_bits by (simp_all add: valid_opts_def del: insert_iff)

lemma valid_set_opts: "valid s \<Longrightarrow> valid_opts (f (opts s)) \<Longrightarrow> valid (set_opts f s)"
  by (simp add: valid_def q_ok_def)

lemma valid_valid_opts: "valid s \<Longrightarrow> valid_opts (opts s)"
  by (simp add: valid_def)

lemma keeps_set_baud: "valid s \<Longrightarrow> keeps_valid (set_baud b s)"
  unfolding set_baud_def change_line_def Let_def
  by (intro keeping) (simp add: valid_set_opts valid_opts_set valid_valid_opts)

lemma keeps_toggles: "valid s \<Longrightarrow> keeps_valid (toggle_dtr s)" "valid s \<Longrightarrow> keeps_valid (toggle_rts s)"
  unfolding toggle_dtr_def toggle_rts_def Let_def by (intro keeping; simp)+

lemma keeps_transfer: "valid s \<Longrightarrow> keeps_valid (transfer fuel x s)"
  unfolding transfer_def
  by (auto intro!: keeping keeps_andthen split: option.splits)

lemma keeps_write_hex: "valid s \<Longrightarrow> keeps_valid (write_hex fuel s)"
  unfolding write_hex_def
  by (intro keeps_andthen keeps_push) (auto intro!: keeping)

lemma do_command_keeps:
  assumes v: "valid s"
  shows "keeps_valid (do_command fuel c s)"
proof -
  note o = valid_set_opts [OF v] valid_opts_set [OF valid_valid_opts [OF v]]
  show ?thesis
    unfolding do_command_def Let_def change_line_def baud_up_def baud_down_def
    by (intro keeping keeps_andthen keeps_set_baud keeps_toggles keeps_transfer keeps_write_hex v)
      (simp_all add: v o keeping)
qed

text \<open>
  C28: whatever command key is pressed, and whatever the user, the port and the system
  answer, the line settings stay ones the program can name, a write to the port stays
  at least eight bytes long, and the queue never holds more than its buffer.
\<close>

theorem do_command_valid:
  assumes "valid s" and "exec (do_command fuel c s) (Value (quit, s')) t"
    and "\<forall>(c, r) \<in> set t. p_ok c r"
  shows "valid s'"
proof -
  have "honest (watching 0 (\<lambda>_ _. True)) no_bytes t"
    using honest_watching [of t "\<lambda>_ _. True"] assms(3) by auto
  from safe_exec(2) [OF assms(2) _ this, of "\<lambda>out _. \<forall>q s'. out = Value (q, s') \<longrightarrow> valid s'"]
  show ?thesis using do_command_keeps [OF assms(1)] by (simp add: keeps_valid_def)
qed

definition running :: pico where
  "running = pico_default\<lparr>tty_fd := 3, q_sz := 256, tty_write_sz := 960\<rparr>"

lemma running_valid: "valid running"
  by (simp add: running_def valid_def valid_opts_def q_ok_def pico_default_def opts_default_def TTY_Q_SZ_MIN_def)

lemma do_command_valid_witness:
  "\<exists>s'. fst (run (do_command 1 KEY_BITS running) (replicate 5 presp0)) = Value (False, s') \<and>
     valid s' \<and> o_databits (opts s') = 5"
proof -
  let ?p = "do_command 1 KEY_BITS running" and ?s = "running\<lparr>opts := (opts running)\<lparr>o_databits := 5\<rparr>\<rparr>"
  obtain out t where r: "run ?p (replicate 5 presp0) = (out, t)" by fastforce
  have "fst (run ?p (replicate 5 presp0)) = Value (False, ?s)" by code_simp
  with r have out: "out = Value (False, ?s)" by simp
  have "list_all (\<lambda>(c, r). p_ok c r) (snd (run ?p (replicate 5 presp0)))" by code_simp
  with r have ok: "\<forall>(c, r) \<in> set t. p_ok c r" by (auto simp: list_all_iff)
  have "exec ?p (Value (False, ?s)) t" using run_exec [OF r] out by simp
  with do_command_valid [OF running_valid _ ok] r out show ?thesis by auto
qed

subsection \<open>The baud rate prompt\<close>

lemma read_baud_outcomes:
  "safe anything (read_baud fuel) ()
     (\<lambda>out _. out = Running \<or> out = Undefined UseAfterFree \<or> out = Value (-1))"
proof (induction fuel)
  case (Suc fuel)
  then show ?case by (simp add: check_baud_def Let_def split: option.split)
qed simp

text \<open>
  C38: the key that asks for a baud rate never sets one: the prompt hands the text it has just
  freed to the history as soon as a rate is accepted, so a run either gives up and leaves
  everything as it was, or is still asking, or is undefined.
\<close>

theorem baud_key_never_sets:
  assumes "exec (do_command fuel KEY_BAUD s) out t"
  shows "out = Running \<or> out = Undefined UseAfterFree \<or> out = Value (False, s)"
proof -
  have "do_command fuel KEY_BAUD s = andthen (read_baud fuel) (\<lambda>newbaud.
      if newbaud < 0 then printf_to STO ''*** cannot read baudrate ***'' [] (Ret (False, s))
      else set_baud newbaud s)"
  proof -
    have k: "KEY_BAUD \<noteq> KEY_EXIT" "map_of mode_keys KEY_BAUD = None" "KEY_BAUD \<noteq> KEY_QUIT"
      "KEY_BAUD \<noteq> KEY_STATUS" "KEY_BAUD \<noteq> KEY_HELP" "KEY_BAUD \<noteq> KEY_KEYS" "KEY_BAUD \<noteq> KEY_PULSE"
      "KEY_BAUD \<noteq> KEY_TOG_DTR" "KEY_BAUD \<noteq> KEY_TOG_RTS"
      by code_simp+
    show ?thesis unfolding do_command_def by (simp only: k if_False if_True simp_thms cong: if_weak_cong)
  qed
  moreover have "safe anything (andthen (read_baud fuel) (\<lambda>newbaud.
      if newbaud < 0 then printf_to STO ''*** cannot read baudrate ***'' [] (Ret (False, s))
      else set_baud newbaud s)) ()
      (\<lambda>out _. out = Running \<or> out = Undefined UseAfterFree \<or> out = Value (False, s))"
    by (rule safe_andthen [OF read_baud_outcomes]) auto
  ultimately have "safe anything (do_command fuel KEY_BAUD s) ()
      (\<lambda>out _. out = Running \<or> out = Undefined UseAfterFree \<or> out = Value (False, s))"
    by (simp only:)
  from outcome_exec [OF this assms] show ?thesis .
qed

lemma baud_key_never_sets_witness:
  "fst (run (do_command 1 KEY_BAUD running)
     [presp0, presp0\<lparr>pstr := Some (bytes ''9600'')\<rparr>, presp0, presp0\<lparr>pv := 9600\<rparr>, presp0, presp0\<lparr>pv := 1\<rparr>, presp0])
   = Undefined UseAfterFree"
proof -
  let ?rs = "[presp0, presp0\<lparr>pstr := Some (bytes ''9600'')\<rparr>, presp0, presp0\<lparr>pv := 9600\<rparr>, presp0, presp0\<lparr>pv := 1\<rparr>, presp0]"
  obtain out t where r: "run (do_command 1 KEY_BAUD running) ?rs = (out, t)" by fastforce
  have "case fst (run (do_command 1 KEY_BAUD running) ?rs) of Undefined f \<Rightarrow> True | _ \<Rightarrow> False" by code_simp
  with r obtain f where f: "out = Undefined f" by (auto split: outcome.splits)
  then have "exec (do_command 1 KEY_BAUD running) out t" using run_exec [OF r] by simp
  from baud_key_never_sets [OF this] f r show ?thesis by simp
qed

end
