(* ===== verification/Picocom_Loop.thy ===== *)
theory Picocom_Loop
  imports Picocom_Command "HOL-Library.Sublist"
begin

text \<open>
  The main loop of \<^verbatim>\<open>src/myterm/picocom/picocom.c\<close>: one pass waits with \<^verbatim>\<open>select\<close>, then takes
  keys, then bytes from the port, then writes the queue.  The parts of the loop body are
  definitions of their own; fuel bounds the passes and every inner retry loop.
\<close>

subsection \<open>State\<close>

datatype le_reason = LE_CMD | LE_IDLE | LE_STDIN | LE_SIGNAL

text \<open>
  The locals of \<^verbatim>\<open>loop\<close>: whether the next key is a command, whether stdin is closed, the mode
  of the bytes received, the bytes held in \<^verbatim>\<open>g_buff_rd\<close>; and the program's state.
\<close>

record session =
  in_command :: bool
  stdin_closed :: bool
  rd_mode :: int
  held :: "byte list"
  pico :: pico

definition msec2tv :: "int \<Rightarrow> int \<times> int" where
  "msec2tv ms = (ms div 1000, (ms mod 1000) * 1000)"

text \<open>A read that is tried again when a signal interrupts it.\<close>

primrec read_retry :: "nat \<Rightarrow> int \<Rightarrow> nat \<Rightarrow> (presp \<Rightarrow> 'a pprog) \<Rightarrow> 'a pprog" where
  "read_retry 0 fd n k = Spin"
| "read_retry (Suc fuel) fd n k =
     Sys (PRead fd n) (\<lambda>r. if pv r < 0 \<and> perr r = EINTR then read_retry fuel fd n k else k r)"

subsection \<open>Keys\<close>

definition key_byte :: "nat \<Rightarrow> byte \<Rightarrow> session \<Rightarrow> (bool \<times> session) pprog" where
  "key_byte fuel c l =
     (let s = pico l; opt = opts s; stay = (\<lambda>s. Ret (False, l\<lparr>in_command := False, pico := s\<rparr>)) in
      if in_command l
      then if c = o_escape opt
           then andthen (push_or_bell fuel c s) stay
           else andthen (do_command fuel c s) (\<lambda>(quit, s).
                if quit then Ret (True, l\<lparr>pico := s\<rparr>) else stay s)
      else if \<not> o_noescape opt \<and> c = o_escape opt
           then Ret (False, l\<lparr>in_command := True\<rparr>)
           else if o_mode opt \<noteq> 0xFF
           then andthen (push_or_bell fuel 0xFF s) (\<lambda>s.
                andthen (push_or_bell fuel (word_of_int (o_mode (opts s))) s) (\<lambda>s.
                andthen (push_or_bell fuel c s) stay))
           else andthen (push_or_bell fuel c s) stay)"

primrec keys :: "nat \<Rightarrow> byte list \<Rightarrow> session \<Rightarrow> (bool \<times> session) pprog" where
  "keys fuel [] l = Ret (False, l)"
| "keys fuel (c # cs) l =
     andthen (key_byte fuel c l) (\<lambda>(quit, l). if quit then Ret (True, l) else keys fuel cs l)"

definition stdin_part :: "nat \<Rightarrow> session \<Rightarrow> (bool \<times> session) pprog" where
  "stdin_part fuel l =
     read_retry fuel STI STI_RD_SZ (\<lambda>r.
     if pv r = 0
     then pinfo (pico l) ''** read zero bytes from stdin **'' [] (Ret (False, l\<lparr>stdin_closed := True\<rparr>))
     else if pv r < 0
     then if perr r \<noteq> EAGAIN then fatal ''read from stdin failed: %s'' [] (pico l) else Ret (False, l)
     else keys fuel (pdat r) l)"

subsection \<open>The port\<close>

primrec map_all :: "cint \<Rightarrow> byte list \<Rightarrow> byte list option" where
  "map_all m [] = Some []"
| "map_all m (c # cs) =
     (case do_map m c of
        None \<Rightarrow> None
      | Some b \<Rightarrow> map_option ((@) b) (map_all m cs))"

text \<open>Writing to the log, when there is one.\<close>

definition log_bytes :: "nat \<Rightarrow> bool \<Rightarrow> byte list \<Rightarrow> pico \<Rightarrow> unit pprog" where
  "log_bytes fuel b bs s =
     (if b then andthen (writen_ni fuel (log_fd s) bs) (\<lambda>w.
           if w < length bs then fatal ''write to logfile failed: %s'' [] s else Ret ())
      else Ret ())"

text \<open>
  The read goes to \<^verbatim>\<open>&g_buff_rd + g_buff_rd_len\<close>, a pointer to the whole array moved by whole
  arrays: behind the buffer as soon as a byte is held.
\<close>

definition port_part :: "nat \<Rightarrow> session \<Rightarrow> session pprog" where
  "port_part fuel l =
     (let s = pico l; opt = opts s in
      if held l \<noteq> [] then Fault OutOfBounds
      else
        read_retry fuel (tty_fd s) (TTY_RD_SZ - length (held l)) (\<lambda>r.
        if pv r = 0 then fatal ''read zero bytes from port'' [] s
        else if pv r < 0
        then if perr r \<noteq> EAGAIN then fatal ''read from port failed: %s'' [] s else Ret l
        else
          (let buf = held l @ pdat r in
           andthen (log_bytes fuel (o_log_filename opt \<noteq> None) buf s) (\<lambda>_.
           let (shown, m, trailing) =
                 (if o_mode opt \<noteq> 0xFF then demux (o_mode opt) (rd_mode l) buf else (buf, rd_mode l, False));
               l = l\<lparr>rd_mode := m, held := (if trailing then [0xFF] else [])\<rparr> in
           need (map_all (o_imap opt) shown) AssertFailed (\<lambda>out.
           if TTY_RD_SZ * M_MAXMAP < length out then Fault OutOfBounds
           else
             andthen (writen_ni fuel STO out) (\<lambda>w.
             if w < length out then fatal ''write to stdout failed: %s'' [] s else Ret l))))))"

primrec write_retry :: "nat \<Rightarrow> int \<Rightarrow> byte list \<Rightarrow> (presp \<Rightarrow> 'a pprog) \<Rightarrow> 'a pprog" where
  "write_retry 0 fd bs k = Spin"
| "write_retry (Suc fuel) fd bs k =
     Sys (PWrite fd bs) (\<lambda>r. if pv r < 0 \<and> perr r = EINTR then write_retry fuel fd bs k else k r)"

definition write_part :: "nat \<Rightarrow> session \<Rightarrow> session pprog" where
  "write_part fuel l =
     (let s = pico l;
          sz = (if int (length (q_data s)) < tty_write_sz s then int (length (q_data s)) else tty_write_sz s) in
      write_retry fuel (tty_fd s) (take (nat sz) (q_data s)) (\<lambda>r.
      if pv r \<le> 0 then fatal ''write to port failed: %s'' [] s
      else
        (let n = nat (pv r) in
         andthen (log_bytes fuel (o_lecho (opts s) \<and> o_log_filename (opts s) \<noteq> None) (take n (q_data s)) s) (\<lambda>_.
         Ret (l\<lparr>pico := s\<lparr>q_data := drop n (q_data s)\<rparr>\<rparr>)))))"

subsection \<open>The loop\<close>

primrec loop :: "nat \<Rightarrow> session \<Rightarrow> (le_reason \<times> session) pprog" where
  "loop 0 l = Spin"
| "loop (Suc fuel) l =
     Sys PSignalled (\<lambda>rs.
     if pv rs \<noteq> 0 then Ret (LE_SIGNAL, l)
     else
       (let s = pico l; opt = opts s; idle = (q_data s = []) in
        if idle \<and> o_exit_after opt < 0 \<and> stdin_closed l then Ret (LE_STDIN, l)
        else
          Sys (PSelect (\<not> stdin_closed l) (\<not> o_exit opt) (\<not> idle)
                 (if idle \<and> 0 \<le> o_exit_after opt then Some (msec2tv (o_exit_after opt)) else None)) (\<lambda>r.
          if pv r < 0
          then if perr r = EINTR then loop fuel l else fatal ''select failed: %d : %s'' [] s
          else if pv r = 0 then Ret (LE_IDLE, l)
          else
            (let (rd_stdin, rd_port, wr_port) = psel r in
             andthen (if rd_stdin then stdin_part fuel l else Ret (False, l)) (\<lambda>(quit, l).
             if quit then Ret (LE_CMD, l)
             else
               andthen (if rd_port then port_part fuel l else Ret l) (\<lambda>l.
               andthen (if wr_port then write_part fuel l else Ret l) (\<lambda>l. loop fuel l)))))))"

definition loop_start :: "pico \<Rightarrow> session" where
  "loop_start s =
     \<lparr>in_command = False, stdin_closed = o_exit (opts s), rd_mode = 0, held = [], pico = s\<rparr>"

subsection \<open>A transparent session\<close>

text \<open>The image of a stream under a mapping; a mapping that never ignores.\<close>

definition image_of :: "cint \<Rightarrow> byte list \<Rightarrow> byte list" where
  "image_of m cs = concat (map (mapped m) cs)"

lemma image_of_append [simp]: "image_of m (xs @ ys) = image_of m xs @ image_of m ys"
  by (simp add: image_of_def)

lemma image_of_Nil [simp]: "image_of m [] = []"
  by (simp add: image_of_def)

definition total_map :: "cint \<Rightarrow> bool" where
  "total_map m \<longleftrightarrow> mapped m CR \<noteq> [] \<and> mapped m LF \<noteq> []"

lemma total_map: "total_map m \<Longrightarrow> mapped m c \<noteq> []"
  using mapped_Nil_iff [of m c] by (auto simp: total_map_def)

lemma map_all_image: "total_map m \<Longrightarrow> map_all m cs = Some (image_of m cs)"
  using total_map by (induction cs) (auto simp: do_map_mapped image_of_def)

lemma image_of_le: "length (image_of m cs) \<le> length cs * M_MAXMAP"
proof (induction cs)
  case (Cons c cs)
  then show ?case using mapped_le [of m c] by (simp add: image_of_def)
qed simp

text \<open>Settings under which keys go to the port and bytes to the screen, mapped and no more.\<close>

definition transparent :: "opts \<Rightarrow> bool" where
  "transparent opt \<longleftrightarrow> o_noescape opt \<and> o_mode opt = 0xFF \<and> \<not> o_lecho opt \<and> o_log_filename opt = None \<and>
     total_map (o_imap opt) \<and> total_map (o_omap opt)"

text \<open>
  The invariant of the loop: what was sent and what is queued make up the queue at the start
  and all that was typed; what was shown is what the port delivered.  \<open>so_far\<close> is what is left
  of it when the program ends in the middle of a pass.
\<close>

definition follows :: "byte list \<Rightarrow> int \<Rightarrow> opts \<Rightarrow> streams \<Rightarrow> session \<Rightarrow> bool" where
  "follows q0 tty opt h l \<longleftrightarrow>
     opts (pico l) = opt \<and> tty_fd (pico l) = tty \<and> \<not> in_command l \<and> held l = [] \<and> q_ok (pico l) \<and>
     sent h @ q_data (pico l) = q0 @ image_of (o_omap opt) (typed h) \<and>
     shown h = image_of (o_imap opt) (got h)"

definition so_far :: "byte list \<Rightarrow> opts \<Rightarrow> streams \<Rightarrow> bool" where
  "so_far q0 opt h \<longleftrightarrow>
     prefix (sent h) (q0 @ image_of (o_omap opt) (typed h)) \<and> prefix (shown h) (image_of (o_imap opt) (got h))"

lemma follows_so_far: "follows q0 tty opt h l \<Longrightarrow> so_far q0 opt h"
  by (metis follows_def so_far_def prefixI prefix_order.refl)

definition typed_in :: "byte list \<Rightarrow> session \<Rightarrow> (pcall, bool \<times> session) outcome \<Rightarrow> bool" where
  "typed_in cs l out \<longleftrightarrow>
     (case out of
        Value (quit, l') \<Rightarrow> \<not> quit \<and> queued cs (pico l) (pico l') \<and> \<not> in_command l' \<and> held l' = held l
      | Undefined f \<Rightarrow> f = Overflowed
      | _ \<Rightarrow> False)"

lemma push_or_bell_safe:
  assumes "q_ok s" and "\<not> o_lecho (opts s)" and "total_map (o_omap (opts s))"
  shows "safe (watching tty roomy) (push_or_bell fuel c s) h
     (\<lambda>out h'. h' = h \<and> (case out of Value s' \<Rightarrow> queued [c] s s' | Undefined f \<Rightarrow> f = Overflowed | _ \<Rightarrow> False))"
proof -
  have "safe (watching tty roomy) (tty_q_push fuel [c] s) h (\<lambda>out h'. h' = h \<and> pushed 0 [c] s out)"
    unfolding tty_q_push_def using assms total_map by (intro push_from_safe) auto
  then show ?thesis unfolding push_or_bell_def
    by (rule safe_andthen) (auto simp: pushed_def)
qed

lemma key_byte_safe:
  assumes "q_ok (pico l)" and "transparent (opts (pico l))" and "\<not> in_command l"
  shows "safe (watching tty roomy) (key_byte fuel c l) h (\<lambda>out h'. h' = h \<and> typed_in [c] l out)"
proof -
  have eq: "key_byte fuel c l = andthen (push_or_bell fuel c (pico l))
      (\<lambda>s. Ret (False, l\<lparr>in_command := False, pico := s\<rparr>))"
    using assms by (simp add: key_byte_def Let_def transparent_def)
  show ?thesis unfolding eq
    by (rule safe_andthen [OF push_or_bell_safe]) (use assms in \<open>auto simp: transparent_def typed_in_def\<close>)
qed

lemma keys_safe:
  assumes "q_ok (pico l)" and "transparent (opts (pico l))" and "\<not> in_command l"
  shows "safe (watching tty roomy) (keys fuel cs l) h (\<lambda>out h'. h' = h \<and> typed_in cs l out)"
  using assms
proof (induction cs arbitrary: l)
  case Nil
  then show ?case by (simp add: typed_in_def queued_Nil)
next
  case (Cons c cs)
  show ?case unfolding keys.simps
  proof (rule safe_andthen [OF key_byte_safe [OF Cons.prems]])
    fix a h' assume a: "h' = h \<and> typed_in [c] l (Value a)"
    then obtain l' where l': "a = (False, l')" "queued [c] (pico l) (pico l')" "\<not> in_command l'" "held l' = held l"
      by (cases a) (auto simp: typed_in_def)
    have "safe (watching tty roomy) (keys fuel cs l') h (\<lambda>out h'. h' = h \<and> typed_in cs l' out)"
      using Cons.IH [of l'] queued_opts [OF l'(2)] l'(3) Cons.prems(2) by simp
    then have "safe (watching tty roomy) (keys fuel cs l') h (\<lambda>out h'. h' = h \<and> typed_in (c # cs) l out)"
      by (rule safe_mono) (use l' in \<open>auto simp: typed_in_def split: outcome.splits intro: queued_Cons\<close>)
    with a l'(1) show "safe (watching tty roomy) (case a of (quit, l) \<Rightarrow> if quit then Ret (True, l) else keys fuel cs l)
        h' (\<lambda>out h'. h' = h \<and> typed_in (c # cs) l out)" by simp
  qed (auto simp: typed_in_def)
qed

text \<open>What a part of a pass leaves behind: the invariant, or the streams so far.\<close>

definition part_post ::
  "byte list \<Rightarrow> int \<Rightarrow> opts \<Rightarrow> ('a \<Rightarrow> session) \<Rightarrow> (pcall, 'a) outcome \<Rightarrow> streams \<Rightarrow> bool"
where
  "part_post q0 tty opt f out h \<longleftrightarrow>
     (case out of
        Value a \<Rightarrow> follows q0 tty opt h (f a)
      | _ \<Rightarrow> so_far q0 opt h \<and> (\<forall>e. out = Undefined e \<longrightarrow> e = Overflowed) \<and> (\<forall>n. out = Exited n \<longrightarrow> n = 1))"

lemma part_post_simps [simp]:
  "part_post q0 tty opt f (Value a) h \<longleftrightarrow> follows q0 tty opt h (f a)"
  "part_post q0 tty opt f Running h \<longleftrightarrow> so_far q0 opt h"
  "part_post q0 tty opt f (Exited n) h \<longleftrightarrow> so_far q0 opt h \<and> n = 1"
  "part_post q0 tty opt f (Undefined e) h \<longleftrightarrow> so_far q0 opt h \<and> e = Overflowed"
  by (simp_all add: part_post_def)

lemma part_fatal: "so_far q0 opt h \<Longrightarrow> safe (watching tty extra) (fatal m as s) h (part_post q0 tty' opt f)"
  by (rule fatal_safe) simp

lemma read_retry_safe:
  assumes "Q Running h"
    and "\<And>r. p_ok (PRead fd n) r \<Longrightarrow> \<not> (pv r < 0 \<and> perr r = EINTR) \<Longrightarrow>
           safe (watching tty roomy) (k r) (stream_step tty h (PRead fd n) r) Q"
  shows "safe (watching tty roomy) (read_retry fuel fd n k) h Q"
proof (induction fuel)
  case (Suc fuel)
  have "stream_step tty h (PRead fd n) r = h" if "pv r < 0" for r
    using that by simp
  with Suc assms(2) show ?case by (auto simp del: stream_step.simps p_ok.simps)
qed (simp add: assms(1))

lemma write_retry_safe:
  assumes "Q Running h"
    and "\<And>r. p_ok (PWrite fd bs) r \<Longrightarrow> \<not> (pv r < 0 \<and> perr r = EINTR) \<Longrightarrow>
           safe (watching tty extra) (k r) (stream_step tty h (PWrite fd bs) r) Q"
  shows "safe (watching tty extra) (write_retry fuel fd bs k) h Q"
proof (induction fuel)
  case (Suc fuel)
  have "stream_step tty h (PWrite fd bs) r = h" if "pv r < 0" for r
    using that by simp
  with Suc assms(2) show ?case by (auto simp del: stream_step.simps p_ok.simps)
qed (simp add: assms(1))

lemma stdin_part_safe:
  assumes i: "follows q0 tty opt h l" and t: "transparent opt"
  shows "safe (watching tty roomy) (stdin_part fuel l) h
     (part_post q0 tty opt snd)"
  unfolding stdin_part_def
proof (rule read_retry_safe)
  show "part_post q0 tty opt snd Running h" using follows_so_far [OF i] by simp
  fix r assume r: "p_ok (PRead STI STI_RD_SZ) r"
  show "safe (watching tty roomy)
      (if pv r = 0 then pinfo (pico l) ''** read zero bytes from stdin **'' [] (Ret (False, l\<lparr>stdin_closed := True\<rparr>))
       else if pv r < 0 then if perr r \<noteq> EAGAIN then fatal ''read from stdin failed: %s'' [] (pico l) else Ret (False, l)
       else keys fuel (pdat r) l) (stream_step tty h (PRead STI STI_RD_SZ) r) (part_post q0 tty opt snd)"
  proof (cases "pv r \<le> 0")
    case True
    then show ?thesis using i follows_so_far [OF i]
      by (auto intro!: pinfo_safe part_fatal simp: follows_def)
  next
    case False
    let ?h = "h\<lparr>typed := typed h @ pdat r\<rparr>"
    have "safe (watching tty roomy) (keys fuel (pdat r) l) ?h
        (\<lambda>out h'. h' = ?h \<and> typed_in (pdat r) l out)"
      using i t by (intro keys_safe) (auto simp: follows_def)
    then have "safe (watching tty roomy) (keys fuel (pdat r) l) ?h (part_post q0 tty opt snd)"
    proof (rule safe_mono)
      fix out h' assume o: "h' = ?h \<and> typed_in (pdat r) l out"
      have s: "so_far q0 opt ?h"
        using follows_so_far [OF i] prefix_prefix [of "sent h" "q0 @ image_of (o_omap opt) (typed h)"]
        by (simp add: so_far_def)
      show "part_post q0 tty opt snd out h'"
      proof (cases out)
        case (Value a)
        then show ?thesis using o i
          by (cases a) (auto simp: typed_in_def queued_def follows_def image_of_def)
      qed (use o s in \<open>auto simp: typed_in_def\<close>)
    qed
    then show ?thesis using False by simp
  qed
qed

lemma port_part_safe:
  assumes i: "follows q0 tty opt h l" and t: "transparent opt" and tty: "tty \<noteq> STI" "tty \<noteq> STO"
  shows "safe (watching tty roomy) (port_part fuel l) h (part_post q0 tty opt (\<lambda>l. l))"
proof -
  have l: "held l = []" "opts (pico l) = opt" "tty_fd (pico l) = tty" using i by (auto simp: follows_def)
  have o: "o_log_filename opt = None" "o_mode opt = 0xFF" using t by (auto simp: transparent_def)
  let ?out = "\<lambda>r. image_of (o_imap opt) (pdat r)"
  have eq: "port_part fuel l =
      read_retry fuel tty TTY_RD_SZ (\<lambda>r.
        if pv r = 0 then fatal ''read zero bytes from port'' [] (pico l)
        else if pv r < 0
        then if perr r \<noteq> EAGAIN then fatal ''read from port failed: %s'' [] (pico l) else Ret l
        else if TTY_RD_SZ * M_MAXMAP < length (?out r) then Fault OutOfBounds
        else andthen (writen_ni fuel STO (?out r)) (\<lambda>w.
          if w < length (?out r) then fatal ''write to stdout failed: %s'' [] (pico l)
          else Ret (l\<lparr>rd_mode := rd_mode l, held := []\<rparr>)))"
    unfolding port_part_def using t
    by (simp add: l o Let_def log_bytes_def map_all_image transparent_def cong: if_cong)
  show ?thesis unfolding eq
  proof (rule read_retry_safe)
    show "part_post q0 tty opt (\<lambda>l. l) Running h" using follows_so_far [OF i] by simp
    fix r assume r: "p_ok (PRead tty TTY_RD_SZ) r"
    let ?h = "h\<lparr>got := got h @ pdat r\<rparr>"
    have s: "so_far q0 opt (?h\<lparr>shown := shown h @ take n (?out r)\<rparr>)" for n
      using i follows_so_far [OF i] by (auto simp: so_far_def follows_def take_is_prefix)
    have w: "safe (watching tty roomy) (andthen (writen_ni fuel STO (?out r)) (\<lambda>w.
          if w < length (?out r) then fatal ''write to stdout failed: %s'' [] (pico l)
          else Ret (l\<lparr>rd_mode := rd_mode l, held := []\<rparr>))) ?h (part_post q0 tty opt (\<lambda>l. l))"
      by (rule safe_andthen [OF writen_ni_safe])
        (use tty s i in \<open>auto simp: wrote_def follows_def intro!: part_fatal\<close>)
    have "length (?out r) \<le> TTY_RD_SZ * M_MAXMAP" if "0 \<le> pv r"
    proof -
      have "length (pdat r) \<le> TTY_RD_SZ" using r that by (simp add: nat_le_iff)
      then show ?thesis using image_of_le [of "o_imap opt" "pdat r"] mult_le_mono1 le_trans by blast
    qed
    then show "safe (watching tty roomy)
       (if pv r = 0 then fatal ''read zero bytes from port'' [] (pico l)
        else if pv r < 0
        then if perr r \<noteq> EAGAIN then fatal ''read from port failed: %s'' [] (pico l) else Ret l
        else if TTY_RD_SZ * M_MAXMAP < length (?out r) then Fault OutOfBounds
        else andthen (writen_ni fuel STO (?out r)) (\<lambda>w.
          if w < length (?out r) then fatal ''write to stdout failed: %s'' [] (pico l)
          else Ret (l\<lparr>rd_mode := rd_mode l, held := []\<rparr>)))
        (stream_step tty h (PRead tty TTY_RD_SZ) r) (part_post q0 tty opt (\<lambda>l. l))"
      using w i follows_so_far [OF i] tty by (auto intro!: part_fatal)
  qed
qed

lemma write_part_safe:
  assumes i: "follows q0 tty opt h l" and t: "transparent opt" and tty: "tty \<noteq> STI" "tty \<noteq> STO"
  shows "safe (watching tty roomy) (write_part fuel l) h (part_post q0 tty opt (\<lambda>l. l))"
proof -
  have l: "opts (pico l) = opt" "tty_fd (pico l) = tty" using i by (auto simp: follows_def)
  have o: "\<not> o_lecho opt" using t by (auto simp: transparent_def)
  show ?thesis unfolding write_part_def Let_def l
  proof (rule write_retry_safe)
    show "part_post q0 tty opt (\<lambda>l. l) Running h" using follows_so_far [OF i] by simp
    fix r
    let ?q = "q_data (pico l)"
    let ?bs = "take (nat (if int (length ?q) < tty_write_sz (pico l) then int (length ?q) else tty_write_sz (pico l))) ?q"
    assume r: "p_ok (PWrite tty ?bs) r"
    have "take (nat (pv r)) ?bs = take (nat (pv r)) ?q" if "0 < pv r"
      using r that by (simp add: min_def nat_le_iff split: if_splits)
    moreover have "sent h @ take n ?q @ drop n ?q = q0 @ image_of (o_omap opt) (typed h)" for n
      using i by (simp add: follows_def)
    moreover have "q_ok (pico l\<lparr>q_data := drop n ?q\<rparr>)" for n
      using i by (auto simp: follows_def q_ok_def)
    ultimately show "safe (watching tty roomy)
        (if pv r \<le> 0 then fatal ''write to port failed: %s'' [] (pico l)
         else andthen (log_bytes fuel (o_lecho opt \<and> o_log_filename opt \<noteq> None)
                (take (nat (pv r)) ?q) (pico l))
           (\<lambda>_. Ret (l\<lparr>pico := pico l\<lparr>q_data := drop (nat (pv r)) ?q\<rparr>\<rparr>)))
        (stream_step tty h (PWrite tty ?bs) r) (part_post q0 tty opt (\<lambda>l. l))"
      using follows_so_far [OF i] i o tty by (auto simp: log_bytes_def follows_def intro!: part_fatal)
  qed
qed

text \<open>One pass after the other.\<close>

lemma session_loop_safe:
  assumes i: "follows q0 tty opt h l" and t: "transparent opt" and tty: "tty \<noteq> STI" "tty \<noteq> STO"
  shows "safe (watching tty roomy) (loop fuel l) h (part_post q0 tty opt snd)"
  using i
proof (induction fuel arbitrary: h l)
  case 0
  then show ?case using follows_so_far by simp
next
  case (Suc fuel)
  note i = Suc.prems and IH = Suc.IH
  have rest: "safe (watching tty roomy)
      (andthen (if b2 then port_part fuel l else Ret l) (\<lambda>l.
       andthen (if b3 then write_part fuel l else Ret l) (\<lambda>l. loop fuel l))) h (part_post q0 tty opt snd)"
    if i: "follows q0 tty opt h l" for b2 b3 h l
  proof (rule safe_andthen)
    show "safe (watching tty roomy) (if b2 then port_part fuel l else Ret l) h (part_post q0 tty opt (\<lambda>l. l))"
      using port_part_safe [OF i t tty] i by simp
    fix l h assume "part_post q0 tty opt (\<lambda>l. l) (Value l) h"
    then have i: "follows q0 tty opt h l" by simp
    show "safe (watching tty roomy) (andthen (if b3 then write_part fuel l else Ret l) (\<lambda>l. loop fuel l)) h
        (part_post q0 tty opt snd)"
    proof (rule safe_andthen)
      show "safe (watching tty roomy) (if b3 then write_part fuel l else Ret l) h (part_post q0 tty opt (\<lambda>l. l))"
        using write_part_safe [OF i t tty] i by simp
    qed (use IH in simp_all)
  qed simp_all
  have pass: "safe (watching tty roomy)
      (andthen (if b1 then stdin_part fuel l else Ret (False, l)) (\<lambda>(quit, l).
       if quit then Ret (LE_CMD, l)
       else andthen (if b2 then port_part fuel l else Ret l) (\<lambda>l.
            andthen (if b3 then write_part fuel l else Ret l) (\<lambda>l. loop fuel l)))) h (part_post q0 tty opt snd)"
    for b1 b2 b3
  proof (rule safe_andthen)
    show "safe (watching tty roomy) (if b1 then stdin_part fuel l else Ret (False, l)) h (part_post q0 tty opt snd)"
      using stdin_part_safe [OF i t] i by simp
    fix a :: "bool \<times> session" and h' assume "part_post q0 tty opt snd (Value a) h'"
    then have i: "follows q0 tty opt h' (snd a)" by simp
    show "safe (watching tty roomy) (case a of (quit, l) \<Rightarrow>
       if quit then Ret (LE_CMD, l)
       else andthen (if b2 then port_part fuel l else Ret l) (\<lambda>l.
            andthen (if b3 then write_part fuel l else Ret l) (\<lambda>l. loop fuel l))) h' (part_post q0 tty opt snd)"
    proof (cases "fst a")
      case True
      with i show ?thesis by (cases a) simp
    next
      case False
      then show ?thesis using rest [OF i] by (simp only: case_prod_beta if_False)
    qed
  qed simp_all
  have pass': "safe (watching tty roomy)
      (case sel of (b1, b2, b3) \<Rightarrow>
       andthen (if b1 then stdin_part fuel l else Ret (False, l)) (\<lambda>(quit, l).
       if quit then Ret (LE_CMD, l)
       else andthen (if b2 then port_part fuel l else Ret l) (\<lambda>l.
            andthen (if b3 then write_part fuel l else Ret l) (\<lambda>l. loop fuel l)))) h (part_post q0 tty opt snd)"
    for sel
    using pass by (simp only: case_prod_beta)
  have stop: "part_post q0 tty opt snd (Value (reason, l)) h" for reason :: le_reason
    using i by simp
  have failed: "safe (watching tty roomy) (fatal m as s :: (le_reason \<times> session) pprog) h
      (part_post q0 tty opt snd)" for m as s
    by (rule part_fatal [OF follows_so_far [OF i]])
  show ?case unfolding loop.simps Let_def
    using pass' IH [OF i] stop failed
    by (simp split del: if_split del: part_post_simps)
qed

text \<open>
  C10: a session is a pair of pipes when there is no escape key, the plain mode (no framing),
  no local echo, no log file, maps that ignore neither CR nor LF, a port that is neither
  standard input nor output, and every \<^verbatim>\<open>realloc\<close> succeeds.  However it ends, what went to
  the port is a front of the initial queue followed by the mapped keys, and what was shown
  is a front of the mapped bytes of the port; when the loop returns, all that was not sent
  is still queued and all that arrived was shown.  The run can only end by returning, by
  exit status 1 after a failed call, or when the queue outgrows an \<^verbatim>\<open>int\<close>.
\<close>

theorem transparent_session:
  assumes "transparent (opts s)" and "q_ok s" and "tty_fd s \<noteq> STI" and "tty_fd s \<noteq> STO"
    and "exec (loop fuel (loop_start s)) out t"
    and "\<forall>(c, r) \<in> set t. p_ok c r \<and> roomy c r"
  shows "let h = end_state (watching (tty_fd s) roomy) no_bytes t;
             keys = q_data s @ image_of (o_omap (opts s)) (typed h);
             screen = image_of (o_imap (opts s)) (got h) in
     prefix (sent h) keys \<and> prefix (shown h) screen \<and>
     (case out of
        Value (reason, l) \<Rightarrow> sent h @ q_data (pico l) = keys \<and> shown h = screen
      | Exited n \<Rightarrow> n = 1
      | Undefined f \<Rightarrow> f = Overflowed
      | Running \<Rightarrow> True
      | Blocked c \<Rightarrow> False)"
proof -
  have i: "follows (q_data s) (tty_fd s) (opts s) no_bytes (loop_start s)"
    using assms(2) by (simp add: follows_def loop_start_def no_bytes_def)
  have "honest (watching (tty_fd s) roomy) no_bytes t"
    using honest_watching [of t roomy] assms(6) by blast
  with safe_exec(2) [OF assms(5) session_loop_safe [OF i assms(1,3,4)]]
  have p: "part_post (q_data s) (tty_fd s) (opts s) snd out (end_state (watching (tty_fd s) roomy) no_bytes t)"
    by blast
  show ?thesis
  proof (cases out)
    case (Value a)
    with p have f: "follows (q_data s) (tty_fd s) (opts s) (end_state (watching (tty_fd s) roomy) no_bytes t) (snd a)"
      by simp
    from follows_so_far [OF f] f Value show ?thesis
      by (cases a) (simp add: so_far_def follows_def Let_def)
  next
    case (Blocked c)
    with exec_not_blocked [OF assms(5), of c] show ?thesis by simp
  qed (use p in \<open>simp_all add: so_far_def Let_def\<close>)
qed

definition plain_terminal :: pico where
  "plain_terminal = running\<lparr>opts := (opts running)\<lparr>o_noescape := True\<rparr>\<rparr>"

definition short_session :: "presp list" where
  "short_session =
     [presp0, presp0\<lparr>pv := 1, psel := (True, False, False)\<rparr>, presp0\<lparr>pv := 2, pdat := [104, 105]\<rparr>,
      presp0, presp0\<lparr>pv := 1, psel := (False, False, True)\<rparr>, presp0\<lparr>pv := 2\<rparr>, presp0\<lparr>pv := 1\<rparr>]"

lemma transparent_session_witness:
  "let t = snd (run (loop 5 (loop_start plain_terminal)) short_session);
       h = end_state (watching 3 roomy) no_bytes t in
   typed h = [104, 105] \<and> prefix (sent h) (image_of 0 (typed h)) \<and> sent h = [104, 105]"
proof -
  let ?p = "loop 5 (loop_start plain_terminal)"
  obtain out t where r: "run ?p short_session = (out, t)" by fastforce
  have "case fst (run ?p short_session) of Value (LE_SIGNAL, l) \<Rightarrow> True | _ \<Rightarrow> False" by code_simp
  with r have "\<forall>c. out \<noteq> Blocked c" by (auto split: outcome.splits)
  then have e: "exec ?p out t" using run_exec [OF r] by simp
  have "list_all (\<lambda>(c, r). p_ok c r \<and> roomy c r) (snd (run ?p short_session))" by code_simp
  with r have ok: "\<forall>(c, r) \<in> set t. p_ok c r \<and> roomy c r" by (auto simp: list_all_iff)
  have s: "transparent (opts plain_terminal)" "q_ok plain_terminal" "tty_fd plain_terminal \<noteq> STI"
    "tty_fd plain_terminal \<noteq> STO" "tty_fd plain_terminal = 3" "q_data plain_terminal = []"
    "o_omap (opts plain_terminal) = 0" by code_simp+
  have "typed (end_state (watching 3 roomy) no_bytes (snd (run ?p short_session))) = [104, 105]"
    "sent (end_state (watching 3 roomy) no_bytes (snd (run ?p short_session))) = [104, 105]"
    by code_simp+
  with transparent_session [OF s(1-4) e ok] show ?thesis unfolding Let_def r by (simp add: s(5-7))
qed

subsection \<open>Framed keys\<close>






subsection \<open>The escape key\<close>

text \<open>Text as it has to be typed: the escape key twice for itself.\<close>

definition escaped :: "byte \<Rightarrow> byte list \<Rightarrow> byte list" where
  "escaped e cs = concat (map (\<lambda>c. if c = e then [c, c] else [c]) cs)"

lemma key_char_safe:
  assumes "q_ok (pico l)" and "o_mode (opts (pico l)) = 0xFF" and "\<not> o_lecho (opts (pico l))"
    and "total_map (o_omap (opts (pico l)))" and "\<not> in_command l" and "\<not> o_noescape (opts (pico l))"
  shows "safe (watching tty roomy)
     (keys fuel (if c = o_escape (opts (pico l)) then [c, c] else [c]) l) h (\<lambda>out h'. h' = h \<and> typed_in [c] l out)"
proof -
  let ?stay = "\<lambda>l s. Ret (False, l\<lparr>in_command := False, pico := s\<rparr>)"
  let ?fin = "\<lambda>(quit, l). if quit then Ret (True, l) else keys fuel [] l"
  have "keys fuel (if c = o_escape (opts (pico l)) then [c, c] else [c]) l =
      andthen (andthen (push_or_bell fuel c (pico l))
        (?stay (if c = o_escape (opts (pico l)) then l\<lparr>in_command := True\<rparr> else l))) ?fin"
    using assms by (simp add: key_byte_def Let_def)
  moreover have "safe (watching tty roomy) (andthen (andthen (push_or_bell fuel c (pico l)) (?stay l')) ?fin) h
      (\<lambda>out h'. h' = h \<and> typed_in [c] l out)" if "held l' = held l" for l'
  proof (rule safe_andthen)
    show "safe (watching tty roomy) (andthen (push_or_bell fuel c (pico l)) (?stay l')) h
        (\<lambda>out h'. h' = h \<and> typed_in [c] l out)"
      by (rule safe_andthen [OF push_or_bell_safe]) (use assms that in \<open>auto simp: typed_in_def\<close>)
  qed (auto simp: typed_in_def)
  ultimately show ?thesis by simp
qed

lemma keys_append:
  "keys fuel (xs @ ys) l = andthen (keys fuel xs l) (\<lambda>(quit, l). if quit then Ret (True, l) else keys fuel ys l)"
proof (induction xs arbitrary: l)
  case (Cons c xs)
  have "(case a of (quit, l) \<Rightarrow> if quit then Ret (True, l) else keys fuel (xs @ ys) l) =
      andthen (case a of (quit, l) \<Rightarrow> if quit then Ret (True, l) else keys fuel xs l)
        (\<lambda>(quit, l). if quit then Ret (True, l) else keys fuel ys l)" for a
    using Cons.IH by (cases a) simp
  then have "(\<lambda>(quit, l). if quit then Ret (True, l) else keys fuel (xs @ ys) l) =
      (\<lambda>a. andthen (case a of (quit, l) \<Rightarrow> if quit then Ret (True, l) else keys fuel xs l)
        (\<lambda>(quit, l). if quit then Ret (True, l) else keys fuel ys l))" by (rule ext)
  then show ?case by (simp only: append_Cons keys.simps(2) andthen_assoc)
qed simp

lemma escaped_keys_safe:
  assumes "q_ok (pico l)" and "o_mode (opts (pico l)) = 0xFF" and "\<not> o_lecho (opts (pico l))"
    and "total_map (o_omap (opts (pico l)))" and "\<not> in_command l" and "\<not> o_noescape (opts (pico l))"
  shows "safe (watching tty roomy) (keys fuel (escaped (o_escape (opts (pico l))) cs) l) h
     (\<lambda>out h'. h' = h \<and> typed_in cs l out)"
  using assms
proof (induction cs arbitrary: l)
  case Nil
  then show ?case by (simp add: escaped_def typed_in_def queued_Nil)
next
  case (Cons c cs)
  let ?e = "o_escape (opts (pico l))"
  have split: "escaped ?e (c # cs) = (if c = ?e then [c, c] else [c]) @ escaped ?e cs"
    by (simp add: escaped_def)
  show ?case unfolding split keys_append
  proof (rule safe_andthen [OF key_char_safe [OF Cons.prems]])
    fix a h' assume a: "h' = h \<and> typed_in [c] l (Value a)"
    then obtain l' where l': "a = (False, l')" "queued [c] (pico l) (pico l')" "\<not> in_command l'" "held l' = held l"
      by (cases a) (auto simp: typed_in_def)
    have "safe (watching tty roomy) (keys fuel (escaped ?e cs) l') h (\<lambda>out h'. h' = h \<and> typed_in cs l' out)"
      using Cons.IH [of l'] queued_opts [OF l'(2)] l'(3) Cons.prems by simp
    then have "safe (watching tty roomy) (keys fuel (escaped ?e cs) l') h
        (\<lambda>out h'. h' = h \<and> typed_in (c # cs) l out)"
      by (rule safe_mono) (use l' in \<open>auto simp: typed_in_def split: outcome.splits intro: queued_Cons\<close>)
    with a l'(1) show "safe (watching tty roomy) (case a of (quit, l) \<Rightarrow>
        if quit then Ret (True, l) else keys fuel (escaped ?e cs) l) h' (\<lambda>out h'. h' = h \<and> typed_in (c # cs) l out)"
      by simp
  qed (auto simp: typed_in_def)
qed

text \<open>
  C27: any text can be typed through the escape key in the plain mode (no framing), without
  local echo, with an outgoing map that ignores neither CR nor LF, as long as every \<^verbatim>\<open>realloc\<close>
  succeeds: with the key doubled wherever it occurs in the text, exactly the mapped text is
  added to the queue and the next key is not taken for a command, nor does any of it reach
  the command keys; the only other end is the overflow of the queue's size.
\<close>

theorem escaped_text_is_sent:
  assumes "q_ok (pico l)" and "o_mode (opts (pico l)) = 0xFF" and "\<not> o_lecho (opts (pico l))"
    and "total_map (o_omap (opts (pico l)))" and "\<not> in_command l" and "\<not> o_noescape (opts (pico l))"
    and "exec (keys fuel (escaped (o_escape (opts (pico l))) cs) l) out t"
    and "\<forall>(c, r) \<in> set t. p_ok c r \<and> roomy c r"
  shows "out = Undefined Overflowed \<or>
     (\<exists>l'. out = Value (False, l') \<and> \<not> in_command l' \<and> q_ok (pico l') \<and> opts (pico l') = opts (pico l) \<and>
        q_data (pico l') = q_data (pico l) @ image_of (o_omap (opts (pico l))) cs)"
proof -
  have "honest (watching 3 roomy) no_bytes t"
    using honest_watching [of t roomy] assms(8) by blast
  with safe_exec(2) [OF assms(7) escaped_keys_safe [OF assms(1-6)]] have "typed_in cs l out" by blast
  then show ?thesis
    by (auto simp: typed_in_def queued_def image_of_def split: outcome.splits)
qed

lemma escaped_text_is_sent_witness:
  "\<exists>l'. fst (run (keys 1 [104, 1, 1] (loop_start running)) []) = Value (False, l') \<and>
     q_data (pico l') = image_of 0 [104, 1] \<and> \<not> in_command l'"
proof -
  let ?l = "loop_start running" and ?p = "keys 1 [104, 1, 1] (loop_start running)"
  obtain out t where r: "run ?p [] = (out, t)" by fastforce
  have "case fst (run ?p []) of Value (False, l) \<Rightarrow> True | _ \<Rightarrow> False" by code_simp
  with r obtain l' where out: "out = Value (False, l')" by (auto split: outcome.splits bool.splits)
  then have e: "exec ?p out t" using run_exec [OF r] by simp
  have s: "q_ok (pico ?l)" "o_mode (opts (pico ?l)) = 0xFF" "\<not> o_lecho (opts (pico ?l))"
    "total_map (o_omap (opts (pico ?l)))" "\<not> in_command ?l" "\<not> o_noescape (opts (pico ?l))"
    "[104, 1, 1] = escaped (o_escape (opts (pico ?l))) [104, 1]"
    "q_data (pico ?l) = []" "o_omap (opts (pico ?l)) = 0"
    by code_simp+
  have "snd (run p []) = []" for p :: "(bool \<times> session) pprog" by (cases p) simp_all
  then have "t = []" using r by (metis snd_conv)
  with escaped_text_is_sent [OF s(1-6), of 1 "[104, 1]" out t] e out s(7-9) r show ?thesis by auto
qed

subsection \<open>A setting changed while the port is writable\<close>

definition line_keys :: "byte list" where
  "line_keys = [KEY_FLOW, KEY_PARITY, KEY_BITS, KEY_STOP, KEY_BAUD_UP, KEY_BAUD_DN]"

lemma line_key_empties:
  assumes "c \<in> set line_keys"
  shows "safe (watching tty extra) (do_command fuel c s) h (\<lambda>out _. \<exists>s'. out = Value (False, s') \<and> q_data s' = [])"
proof -
  have k: "KEY_FLOW = 6" "KEY_PARITY = 25" "KEY_BITS = 9" "KEY_STOP = 10" "KEY_BAUD_UP = 21" "KEY_BAUD_DN = 4"
    by code_simp+
  from assms consider "c = 6" | "c = 25" | "c = 9" | "c = 10" | "c = 21" | "c = 4"
    by (auto simp: line_keys_def k)
  then show ?thesis
    by cases (simp_all add: do_command_def key_defs CKEY_def mode_keys_def change_line_def Let_def
        baud_up_def baud_down_def set_baud_def set_tty_write_sz_def)
qed

lemma write_empty_fatal:
  assumes "q_data (pico l) = []"
  shows "safe (watching tty extra) (write_part fuel l) h (\<lambda>out _. out = Exited 1 \<or> out = Running)"
  unfolding write_part_def Let_def
  by (rule write_retry_safe) (use assms in \<open>auto intro!: fatal_safe\<close>)

lemma line_key_then_write:
  assumes "in_command l" and "c \<in> set line_keys" and "c \<noteq> o_escape (opts (pico l))"
  shows "safe (watching tty extra)
     (andthen (keys fuel [c] l) (\<lambda>(quit, l). if quit then Ret (LE_CMD, l)
        else andthen (Ret l) (\<lambda>l. andthen (write_part fuel l) (\<lambda>l. loop n l)))) h
     (\<lambda>out _. out = Exited 1 \<or> out = Running)"
proof (rule safe_andthen)
  have eq: "keys fuel [c] l = andthen (do_command fuel c (pico l)) (\<lambda>x.
      andthen (case x of (quit, s) \<Rightarrow> if quit then Ret (True, l\<lparr>pico := s\<rparr>)
          else Ret (False, l\<lparr>in_command := False, pico := s\<rparr>))
        (\<lambda>(quit, l). if quit then Ret (True, l) else Ret (False, l)))"
    using assms by (simp add: key_byte_def Let_def andthen_assoc cong: if_cong)
  show "safe (watching tty extra) (keys fuel [c] l) h
      (\<lambda>out _. \<exists>l'. out = Value (False, l') \<and> q_data (pico l') = [])"
    unfolding eq by (rule safe_andthen [OF line_key_empties [OF assms(2)]]) auto
  fix a :: "bool \<times> session" and h' assume "\<exists>l'. Value a = Value (False, l') \<and> q_data (pico l') = []"
  then obtain l' where a: "a = (False, l')" and q: "q_data (pico l') = []" by auto
  have "safe (watching tty extra) (andthen (write_part fuel l') (\<lambda>l. loop n l)) h'
      (\<lambda>out _. out = Exited 1 \<or> out = Running)"
    by (rule safe_andthen [OF write_empty_fatal [OF q]]) simp_all
  then show "safe (watching tty extra) (case a of (quit, l) \<Rightarrow> if quit then Ret (LE_CMD, l)
        else andthen (Ret l) (\<lambda>l. andthen (write_part fuel l) (\<lambda>l. loop n l))) h'
      (\<lambda>out _. out = Exited 1 \<or> out = Running)" by (simp add: a)
qed simp_all

text \<open>
  C37: changing a line setting can end the program: when output is queued and the port is
  writable in the same pass in which the command key arrives, the command empties the queue,
  the pass still writes, and a write of nothing is taken for a failure.  Whatever is answered
  after that, the run does not come back from the pass.
\<close>

theorem setting_change_is_fatal:
  assumes "in_command l" and "c \<in> set line_keys" and "c \<noteq> o_escape (opts (pico l))"
    and "q_data (pico l) \<noteq> []"
    and "exec (loop (Suc fuel) l) out ((PSignalled, r0) # (sel, r1) # (PRead STI STI_RD_SZ, r2) # t)"
    and "pv r0 = 0" and "0 < pv r1" and "psel r1 = (True, False, True)" and "pv r2 = 1" and "pdat r2 = [c]"
    and "\<forall>(c, r) \<in> set t. p_ok c r"
  shows "out = Exited 1 \<or> out = Running"
proof -
  let ?k = "\<lambda>(quit, l). if quit then Ret (LE_CMD, l)
      else andthen (Ret l) (\<lambda>l. andthen (write_part fuel l) (\<lambda>l. loop fuel l))"
  have "exec (andthen (stdin_part fuel l) ?k) out ((PRead STI STI_RD_SZ, r2) # t)"
    using assms(4-8) by (simp add: Let_def case_prod_unfold cong: if_cong)
  then have "exec (andthen (keys fuel [c] l) ?k) out t"
    using assms(9,10) by (cases fuel) (simp_all add: stdin_part_def)
  moreover have "honest (watching 3 (\<lambda>_ _. True)) no_bytes t"
    using honest_watching [of t "\<lambda>_ _. True"] assms(11) by auto
  ultimately show ?thesis
    using safe_exec(2) [OF _ line_key_then_write [OF assms(1-3)]] by blast
qed

lemma setting_change_is_fatal_witness:
  "fst (run (loop 5 ((loop_start running)\<lparr>in_command := True, pico := running\<lparr>q_data := [65]\<rparr>\<rparr>))
     ([presp0, presp0\<lparr>pv := 2, psel := (True, False, True)\<rparr>, presp0\<lparr>pv := 1, pdat := [KEY_BITS]\<rparr>] @ replicate 20 presp0))
   = Exited 1"
proof -
  let ?l = "(loop_start running)\<lparr>in_command := True, pico := running\<lparr>q_data := [65]\<rparr>\<rparr>"
  let ?r0 = presp0 and ?r1 = "presp0\<lparr>pv := 2, psel := (True, False, True)\<rparr>"
    and ?r2 = "presp0\<lparr>pv := 1, pdat := [KEY_BITS]\<rparr>"
  let ?rs = "[?r0, ?r1, ?r2] @ replicate 20 presp0" and ?p = "loop 5 ?l"
  let ?n = "3 :: nat"
  obtain out t where r: "run ?p ?rs = (out, t)" by fastforce
  have "case fst (run ?p ?rs) of Exited n \<Rightarrow> n = 1 | _ \<Rightarrow> False" by code_simp
  with r have x: "out = Exited 1" by (auto split: outcome.splits)
  then have e: "exec ?p out t" using run_exec [OF r] by simp
  have three: "take 3 (snd (run ?p ?rs)) =
      [(PSignalled, ?r0), (PSelect True True True None, ?r1), (PRead STI STI_RD_SZ, ?r2)]" by code_simp
  have ok: "list_all (\<lambda>(c, r). p_ok c r) (drop 3 (snd (run ?p ?rs)))" by code_simp
  have "take 3 t = [(PSignalled, ?r0), (PSelect True True True None, ?r1), (PRead STI STI_RD_SZ, ?r2)]"
    using three unfolding r snd_conv .
  then have t: "t = (PSignalled, ?r0) # (PSelect True True True None, ?r1) # (PRead STI STI_RD_SZ, ?r2) # drop 3 t"
    by (metis append_Cons append_Nil append_take_drop_id)
  have e': "exec (loop (Suc 4) ?l) out ((PSignalled, ?r0) # (PSelect True True True None, ?r1)
      # (PRead STI STI_RD_SZ, ?r2) # drop 3 t)"
    using e by (subst (asm) t) simp
  have k: "in_command ?l" "KEY_BITS \<in> set line_keys" "KEY_BITS \<noteq> o_escape (opts (pico ?l))"
    "q_data (pico ?l) \<noteq> []" by code_simp+
  have "out = Exited 1 \<or> out = Running"
    by (rule setting_change_is_fatal [OF k e']) (use ok r in \<open>auto simp: list_all_iff presp0_def\<close>)
  then show ?thesis using x r by simp
qed

subsection \<open>Draining the queue\<close>

text \<open>A port that takes bytes: no signal comes, what is waited for gets ready, writes succeed.\<close>

fun taking :: "pcall \<Rightarrow> presp \<Rightarrow> bool" where
  "taking PSignalled r = (pv r = 0)"
| "taking (PSelect a b c t) r = (0 < pv r \<and> snd (snd (psel r)) = c)"
| "taking (PWrite fd bs) r = (0 < pv r)"
| "taking _ r = True"

text \<open>Settings of \<^verbatim>\<open>--exit\<close>: no stdin, no reads from the port, no timeout, no local echo.\<close>

definition exiting :: "session \<Rightarrow> bool" where
  "exiting l \<longleftrightarrow> stdin_closed l \<and> o_exit (opts (pico l)) \<and> o_exit_after (opts (pico l)) < 0 \<and>
     \<not> o_lecho (opts (pico l)) \<and> 8 \<le> tty_write_sz (pico l)"

lemma write_some:
  assumes "exec (andthen (write_part (Suc n) l) k) out t" and "\<forall>(c, r) \<in> set t. p_ok c r \<and> taking c r"
    and "q_data (pico l) \<noteq> []" and "\<not> o_lecho (opts (pico l))" and "8 \<le> tty_write_sz (pico l)"
  obtains m bs r t' where "0 < m" and "t = (PWrite (tty_fd (pico l)) bs, r) # t'"
    and "take (nat (pv r)) bs = take m (q_data (pico l))"
    and "exec (k (l\<lparr>pico := (pico l)\<lparr>q_data := drop m (q_data (pico l))\<rparr>\<rparr>)) out t'"
proof -
  let ?q = "q_data (pico l)"
  let ?bs = "take (nat (if int (length ?q) < tty_write_sz (pico l) then int (length ?q)
     else tty_write_sz (pico l))) ?q"
  obtain r t' where t: "t = (PWrite (tty_fd (pico l)) ?bs, r) # t'"
    and e: "exec (andthen (if pv r < 0 \<and> perr r = EINTR then write_retry n (tty_fd (pico l)) ?bs
           (\<lambda>r. if pv r \<le> 0 then fatal ''write to port failed: %s'' [] (pico l)
             else andthen (log_bytes (Suc n) (o_lecho (opts (pico l)) \<and> o_log_filename (opts (pico l)) \<noteq> None)
                    (take (nat (pv r)) ?q) (pico l))
                   (\<lambda>_. Ret (l\<lparr>pico := (pico l)\<lparr>q_data := drop (nat (pv r)) ?q\<rparr>\<rparr>)))
         else if pv r \<le> 0 then fatal ''write to port failed: %s'' [] (pico l)
         else andthen (log_bytes (Suc n) (o_lecho (opts (pico l)) \<and> o_log_filename (opts (pico l)) \<noteq> None)
                (take (nat (pv r)) ?q) (pico l))
               (\<lambda>_. Ret (l\<lparr>pico := (pico l)\<lparr>q_data := drop (nat (pv r)) ?q\<rparr>\<rparr>))) k) out t'"
    using assms(1) unfolding write_part_def Let_def by auto
  have "p_ok (PWrite (tty_fd (pico l)) ?bs) r" "taking (PWrite (tty_fd (pico l)) ?bs) r" using assms(2) t by auto
  then have r: "0 < pv r" "nat (pv r) \<le> length ?bs" by (simp_all only: p_ok.simps taking.simps nat_le_iff)
  show thesis
  proof (rule that [of "nat (pv r)" ?bs r t'])
    show "take (nat (pv r)) ?bs = take (nat (pv r)) ?q" using r(2) by simp
    show "exec (k (l\<lparr>pico := (pico l)\<lparr>q_data := drop (nat (pv r)) ?q\<rparr>\<rparr>)) out t'"
      using e r(1) assms(4) by (simp add: log_bytes_def)
  qed (use r t in simp_all)
qed

lemma loop_drains:
  assumes "exec (loop fuel l) out t" and "\<forall>(c, r) \<in> set t. p_ok c r \<and> taking c r"
    and "exiting l" and "length (q_data (pico l)) < fuel"
  shows "\<exists>l'. out = Value (LE_STDIN, l') \<and> q_data (pico l') = [] \<and>
     sent (end_state (watching (tty_fd (pico l)) extra) h t) = sent h @ q_data (pico l)"
  using assms
proof (induction fuel arbitrary: l t h)
  case (Suc fuel)
  obtain r0 t0 where t: "t = (PSignalled, r0) # t0" using Suc.prems(1) by auto
  have r0: "pv r0 = 0" using Suc.prems(2) t by auto
  show ?case
  proof (cases "q_data (pico l) = []")
    case True
    with Suc.prems(1,3) t r0 show ?thesis by (auto simp: exiting_def Let_def)
  next
    case False
    then obtain n where fuel: "fuel = Suc n" using Suc.prems(4) by (cases fuel) auto
    obtain r1 t1 where t0: "t0 = (PSelect False False True None, r1) # t1"
      using Suc.prems(1,3) t r0 False by (auto simp: exiting_def Let_def)
    have "p_ok (PSelect False False True None) r1" "taking (PSelect False False True None) r1"
      using Suc.prems(2) t t0 by auto
    then have r1: "0 < pv r1" "psel r1 = (False, False, True)" by (cases "psel r1"; simp)+
    have w: "exec (andthen (write_part (Suc n) l) (\<lambda>l. loop fuel l)) out t1"
      using Suc.prems(1,3) t t0 r0 r1 False unfolding fuel [symmetric] by (simp add: exiting_def Let_def)
    have ok: "\<forall>(c, r) \<in> set t1. p_ok c r \<and> taking c r" "\<not> o_lecho (opts (pico l))" "8 \<le> tty_write_sz (pico l)"
      using Suc.prems(2,3) t t0 by (auto simp: exiting_def)
    obtain m bs r t' where m: "0 < m" and t1: "t1 = (PWrite (tty_fd (pico l)) bs, r) # t'"
      and bs: "take (nat (pv r)) bs = take m (q_data (pico l))"
      and e: "exec (loop fuel (l\<lparr>pico := (pico l)\<lparr>q_data := drop m (q_data (pico l))\<rparr>\<rparr>)) out t'"
      by (rule write_some [OF w ok(1) False ok(2,3)])
    let ?l = "l\<lparr>pico := (pico l)\<lparr>q_data := drop m (q_data (pico l))\<rparr>\<rparr>"
    let ?h = "h\<lparr>sent := sent h @ take m (q_data (pico l))\<rparr>"
    have shorter: "length (q_data (pico l)) - m < fuel"
      using Suc.prems(4) m False by (cases "q_data (pico l)") auto
    have "\<exists>l'. out = Value (LE_STDIN, l') \<and> q_data (pico l') = [] \<and>
        sent (end_state (watching (tty_fd (pico ?l)) extra) ?h t') = sent ?h @ q_data (pico ?l)"
      by (rule Suc.IH [OF e]) (use Suc.prems(2,3) t t0 t1 shorter in \<open>auto simp: exiting_def\<close>)
    then show ?thesis using bs by (simp add: t t0 t1)
  qed
qed simp

text \<open>
  C12: with \<^verbatim>\<open>--exit\<close> the program sends what is queued and stops: as long as the port takes
  bytes and no signal comes, the loop returns for the reason \<^verbatim>\<open>LE_STDIN\<close> after at most one pass
  per queued byte, with the queue empty and exactly its bytes sent, in order.
\<close>

theorem exit_drains_queue:
  assumes "o_exit (opts s)" and "o_exit_after (opts s) < 0" and "\<not> o_lecho (opts s)" and "8 \<le> tty_write_sz s"
    and "length (q_data s) < fuel" and "exec (loop fuel (loop_start s)) out t"
    and "\<forall>(c, r) \<in> set t. p_ok c r \<and> taking c r"
  shows "\<exists>l. out = Value (LE_STDIN, l) \<and> q_data (pico l) = [] \<and>
     sent (end_state (watching (tty_fd s) (\<lambda>_ _. True)) no_bytes t) = q_data s"
  using loop_drains [OF assms(6,7), of "\<lambda>_ _. True" no_bytes] assms(1-5)
  by (simp add: exiting_def loop_start_def no_bytes_def)

lemma exit_drains_queue_witness:
  "let s = running\<lparr>opts := (opts running)\<lparr>o_exit := True\<rparr>, q_data := [104, 105, 10]\<rparr>;
       t = snd (run (loop 4 (loop_start s))
         [presp0, presp0\<lparr>pv := 1, psel := (False, False, True)\<rparr>, presp0\<lparr>pv := 2\<rparr>,
          presp0, presp0\<lparr>pv := 1, psel := (False, False, True)\<rparr>, presp0\<lparr>pv := 1\<rparr>, presp0]) in
   sent (end_state (watching 3 (\<lambda>_ _. True)) no_bytes t) = [104, 105, 10]"
proof -
  let ?s = "running\<lparr>opts := (opts running)\<lparr>o_exit := True\<rparr>, q_data := [104, 105, 10]\<rparr>"
  let ?rs = "[presp0, presp0\<lparr>pv := 1, psel := (False, False, True)\<rparr>, presp0\<lparr>pv := 2\<rparr>,
          presp0, presp0\<lparr>pv := 1, psel := (False, False, True)\<rparr>, presp0\<lparr>pv := 1\<rparr>, presp0]"
  obtain out t where r: "run (loop 4 (loop_start ?s)) ?rs = (out, t)" by fastforce
  have "case fst (run (loop 4 (loop_start ?s)) ?rs) of Value (LE_STDIN, l) \<Rightarrow> True | _ \<Rightarrow> False" by code_simp
  with r have "\<forall>c. out \<noteq> Blocked c" by (auto split: outcome.splits)
  then have e: "exec (loop 4 (loop_start ?s)) out t" using run_exec [OF r] by simp
  have "list_all (\<lambda>(c, r). p_ok c r \<and> taking c r) (snd (run (loop 4 (loop_start ?s)) ?rs))" by code_simp
  with r have ok: "\<forall>(c, r) \<in> set t. p_ok c r \<and> taking c r" by (auto simp: list_all_iff)
  have s: "o_exit (opts ?s)" "o_exit_after (opts ?s) < 0" "\<not> o_lecho (opts ?s)" "8 \<le> tty_write_sz ?s"
    "length (q_data ?s) < 4" "tty_fd ?s = 3" by code_simp+
  from exit_drains_queue [OF s(1-5) e ok] show ?thesis unfolding Let_def r by (auto simp: s(6))
qed

end
