(* ===== verification/Picocom_Main.thy ===== *)
theory Picocom_Main
  imports Picocom_Loop
begin

text \<open>
  Option handling and \<^verbatim>\<open>main\<close> of \<^verbatim>\<open>src/myterm/picocom/picocom.c\<close>.  The options are the
  list of pairs \<^verbatim>\<open>getopt_long\<close> returns (the short letter, or 1 to 4, and the argument), the
  port is the last argument when there is one besides the options.
\<close>

subsection \<open>Options\<close>

definition argc0 :: "byte list \<Rightarrow> byte" where
  "argc0 optarg = (case optarg of [] \<Rightarrow> 0 | c # _ \<Rightarrow> c)"

abbreviation ch :: "char \<Rightarrow> byte" where
  "ch c \<equiv> of_char c"

definition VERSION_STR :: string where "VERSION_STR = ''3.2a''"

text \<open>What is behind the last slash.\<close>

definition program_name :: "byte list \<Rightarrow> byte list" where
  "program_name name = rev (takeWhile (\<lambda>c. c \<noteq> of_char (CHR ''/'')) (rev name))"

definition show_usage :: "byte list \<Rightarrow> 'a pprog \<Rightarrow> 'a pprog" where
  "show_usage name k =
     say STO
      [(''picocom v%s'', [PS (bytes VERSION_STR)]),
       (''Compiled-in options:'', []),
       (''  TTY_Q_SZ is %d'', [PI TTY_Q_SZ]),
       (''  HIGH_BAUD is enabled'', []),
       (''  USE_FLOCK is enabled'', []),
       (''  LINENOISE is enabled'', []),
       (''  HISTFILE is: %s'', [PS (bytes ''.picocom_history'')]),
       (''Usage is: %s [options] <tty port device>'', [PS (program_name name)]),
       (''Options are:'', []),
       (''  --<b>aud <baudrate>'', []),
       (''  --<f>low x (=soft,xon/xoff) | h (=hard) | n (=none)'', []),
       (''  --parit<y> o (=odd) | e (=even) | n (=none)'', []),
       (''  --<d>atabits 5 | 6 | 7 | 8'', []),
       (''  --sto<p>bits 1 | 2'', []),
       (''  --<e>scape <char>'', []),
       (''  --<n>o-escape'', []),
       (''  --e<c>ho'', []),
       (''  --no<i>nit'', []),
       (''  --no<r>eset'', []),
       (''  --hang<u>p'', []),
       (''  --no<l>ock'', []),
       (''  --<s>end-cmd <command>'', []),
       (''  --recei<v>e-cmd <command>'', []),
       (''  --imap <map> (input mappings)'', []),
       (''  --omap <map> (output mappings)'', []),
       (''  --emap <map> (local-echo mappings)'', []),
       (''  --lo<g>file <filename>'', []),
       (''  --inits<t>ring <string>'', []),
       (''  --e<x>it-after <msec>'', []),
       (''  --e<X>it'', []),
       (''  --lower-rts'', []),
       (''  --raise-rts'', []),
       (''  --lower-dtr'', []),
       (''  --raise-dtr'', []),
       (''  --<q>uiet'', []),
       (''  --<m>ode'', []),
       (''  --<h>elp'', []),
       (''<map> is a comma-separated list of one or more of:'', []),
       (''  crlf : map CR --> LF'', []),
       (''  crcrlf : map CR --> CR + LF'', []),
       (''  igncr : ignore CR'', []),
       (''  lfcr : map LF --> CR'', []),
       (''  lfcrlf : map LF --> CR + LF'', []),
       (''  ignlf : ignore LF'', []),
       (''  bsdel : map BS --> DEL'', []),
       (''  delbs : map DEL --> BS'', []),
       (''  spchex : map special chars (excl. CR, LF & TAB) --> hex'', []),
       (''  tabhex : map TAB --> hex'', []),
       (''  crhex : map CR --> hex'', []),
       (''  lfhex : map LF --> hex'', []),
       (''  8bithex : map 8-bit chars --> hex'', []),
       (''  nrmhex : map normal ascii chars --> hex'', []),
       (''<?> indicates the equivalent short option.'', []),
       (''Short options are prefixed by \"-\" instead of by \"--\".'', [])]
     (call (PLib ''fflush'' []) k)"

text \<open>\<open>Inl\<close> is \<^verbatim>\<open>r = -1\<close>, with the message and its argument.\<close>

type_synonym refused = "string \<times> parg list"

definition opt_map :: "((cint \<Rightarrow> cint) \<Rightarrow> opts \<Rightarrow> opts) \<Rightarrow> string \<Rightarrow> byte list \<Rightarrow> opts \<Rightarrow> refused + opts" where
  "opt_map upd msg optarg opt =
     (let m = parse_map optarg in if 0 \<le> sint m then Inr (upd (\<lambda>_. m) opt) else Inl (msg, []))"

definition opt_flow :: "byte \<Rightarrow> opts \<Rightarrow> refused + opts" where
  "opt_flow c opt =
     (if c \<in> {ch (CHR ''X''), ch (CHR ''x''), ch (CHR ''S''), ch (CHR ''s'')} then Inr (opt\<lparr>o_flow := FC_XONXOFF\<rparr>)
      else if c \<in> {ch (CHR ''H''), ch (CHR ''h'')} then Inr (opt\<lparr>o_flow := FC_RTSCTS\<rparr>)
      else if c \<in> {ch (CHR ''N''), ch (CHR ''n'')} then Inr (opt\<lparr>o_flow := FC_NONE\<rparr>)
      else Inl (''Invalid --flow: %c'', [PI (uint c)]))"

definition opt_parity :: "byte \<Rightarrow> opts \<Rightarrow> refused + opts" where
  "opt_parity c opt =
     (if c = ch (CHR ''e'') then Inr (opt\<lparr>o_parity := P_EVEN\<rparr>)
      else if c = ch (CHR ''o'') then Inr (opt\<lparr>o_parity := P_ODD\<rparr>)
      else if c = ch (CHR ''n'') then Inr (opt\<lparr>o_parity := P_NONE\<rparr>)
      else Inl (''Invalid --parity: %c'', [PI (uint c)]))"

definition opt_databits :: "byte \<Rightarrow> opts \<Rightarrow> refused + opts" where
  "opt_databits c opt =
     (if c = ch (CHR ''5'') then Inr (opt\<lparr>o_databits := 5\<rparr>)
      else if c = ch (CHR ''6'') then Inr (opt\<lparr>o_databits := 6\<rparr>)
      else if c = ch (CHR ''7'') then Inr (opt\<lparr>o_databits := 7\<rparr>)
      else if c = ch (CHR ''8'') then Inr (opt\<lparr>o_databits := 8\<rparr>)
      else Inl (''Invalid --databits: %c'', [PI (uint c)]))"

definition opt_stopbits :: "byte \<Rightarrow> opts \<Rightarrow> refused + opts" where
  "opt_stopbits c opt =
     (let opt = opt\<lparr>o_stopbits := 1\<rparr> in
      if c = ch (CHR ''1'') then Inr opt
      else if c = ch (CHR ''2'') then Inr (opt\<lparr>o_stopbits := 2\<rparr>)
      else if c = ch (CHR ''e'') then Inr (opt\<lparr>o_parity := P_EVEN\<rparr>)
      else if c = ch (CHR ''o'') then Inr (opt\<lparr>o_parity := P_ODD\<rparr>)
      else if c = ch (CHR ''n'') then Inr (opt\<lparr>o_parity := P_NONE\<rparr>)
      else Inl (''Invalid --stopbits: %c'', [PI (uint c)]))"

text \<open>The options without an argument, as changes of the settings.\<close>

definition plain_options :: "(int \<times> (opts \<Rightarrow> opts)) list" where
  "plain_options =
     [(int (of_char (CHR ''c'')), o_lecho_update (\<lambda>_. True)),
      (int (of_char (CHR ''i'')), o_noinit_update (\<lambda>_. True)),
      (int (of_char (CHR ''r'')), o_noreset_update (\<lambda>_. True)),
      (int (of_char (CHR ''u'')), o_hangup_update (\<lambda>_. True)),
      (int (of_char (CHR ''l'')), o_nolock_update (\<lambda>_. True)),
      (int (of_char (CHR ''n'')), o_noescape_update (\<lambda>_. True)),
      (1, o_lower_rts_update (\<lambda>_. True)), (2, o_lower_dtr_update (\<lambda>_. True)),
      (3, o_raise_rts_update (\<lambda>_. True)), (4, o_raise_dtr_update (\<lambda>_. True)),
      (int (of_char (CHR ''X'')), o_exit_update (\<lambda>_. True)),
      (int (of_char (CHR ''q'')), o_quiet_update (\<lambda>_. True))]"

text \<open>\<^verbatim>\<open>strncpy\<close> into an array of 128 and a NUL at its end.\<close>

definition copy_cmd :: "byte list \<Rightarrow> byte list" where
  "copy_cmd optarg = take 127 optarg"

definition run_with_help :: string where
  "run_with_help = ''Run with '' @ [CHR 0x27] @ ''--help'' @ [CHR 0x27, CHR ''.'']"

definition invalid :: "string \<Rightarrow> parg list \<Rightarrow> 'a pprog" where
  "invalid msg as = printf_to STE msg as (printf_to STE run_with_help [] (Exit 1))"

definition from_sum :: "refused + opts \<Rightarrow> (opts \<Rightarrow> 'a pprog) \<Rightarrow> 'a pprog" where
  "from_sum x k = (case x of Inl (msg, as) \<Rightarrow> invalid msg as | Inr opt \<Rightarrow> k opt)"

text \<open>A copy of the argument in place of the one from an earlier option.\<close>

definition dup_arg :: "bool \<Rightarrow> byte list \<Rightarrow> (byte list option \<Rightarrow> 'a pprog) \<Rightarrow> 'a pprog" where
  "dup_arg had optarg k =
     (if had then call (PLib ''free'' []) else id) (Sys (PLib ''strdup'' [PS optarg]) (\<lambda>r. k (pstr r)))"

text \<open>A \<^verbatim>\<open>long\<close> stored in an \<^verbatim>\<open>int\<close>: its low 32 bits, signed.\<close>

definition long_to_int :: "int \<Rightarrow> int" where
  "long_to_int n = sint (word_of_int n :: 32 word)"

definition parse_option :: "byte list \<Rightarrow> int \<Rightarrow> byte list \<Rightarrow> opts \<Rightarrow> (opts \<Rightarrow> 'a pprog) \<Rightarrow> 'a pprog" where
  "parse_option name c optarg opt k =
     (if map_of plain_options c \<noteq> None then k (the (map_of plain_options c) opt)
      else if c = int (of_char (CHR ''s'')) then k (opt\<lparr>o_send_cmd := copy_cmd optarg\<rparr>)
      else if c = int (of_char (CHR ''v'')) then k (opt\<lparr>o_receive_cmd := copy_cmd optarg\<rparr>)
      else if c = int (of_char (CHR ''I'')) then from_sum (opt_map o_imap_update ''Invalid --imap'' optarg opt) k
      else if c = int (of_char (CHR ''O'')) then from_sum (opt_map o_omap_update ''Invalid --omap'' optarg opt) k
      else if c = int (of_char (CHR ''E'')) then from_sum (opt_map o_emap_update ''Invalid --emap'' optarg opt) k
      else if c = int (of_char (CHR ''e'')) then k (opt\<lparr>o_escape := CKEY (argc0 optarg)\<rparr>)
      else if c = int (of_char (CHR ''f'')) then from_sum (opt_flow (argc0 optarg) opt) k
      else if c = int (of_char (CHR ''b'')) then
        Sys (PLib ''atoi'' [PS optarg]) (\<lambda>r.
        let opt = opt\<lparr>o_baud := pv r\<rparr> in
        if pv r = 0 then invalid ''Invalid --baud: %d'' [PI (pv r)]
        else Sys (PLib ''term_baud_ok'' [PI (pv r)]) (\<lambda>ok.
             if pv ok = 0 then invalid ''Invalid --baud: %d'' [PI (pv r)] else k opt))
      else if c = int (of_char (CHR ''y'')) then from_sum (opt_parity (argc0 optarg) opt) k
      else if c = int (of_char (CHR ''d'')) then from_sum (opt_databits (argc0 optarg) opt) k
      else if c = int (of_char (CHR ''p'')) then from_sum (opt_stopbits (argc0 optarg) opt) k
      else if c = int (of_char (CHR ''g'')) then
        dup_arg (o_log_filename opt \<noteq> None) optarg (\<lambda>f. k (opt\<lparr>o_log_filename := f\<rparr>))
      else if c = int (of_char (CHR ''t'')) then
        dup_arg (o_initstring opt \<noteq> None) optarg (\<lambda>f. k (opt\<lparr>o_initstring := f\<rparr>))
      else if c = int (of_char (CHR ''x'')) then
        Sys (PLib ''strtol'' [PS optarg]) (\<lambda>rn.
        Sys (PLib ''trailing'' [PS optarg]) (\<lambda>rt.
        if pv rt \<noteq> 0 \<or> long_to_int (pv rn) < 0 then invalid ''Inavild --exit-after: %s'' [PS optarg]
        else k (opt\<lparr>o_exit_after := long_to_int (pv rn)\<rparr>)))
      else if c = int (of_char (CHR ''m'')) then
        Sys (PLib ''sscanf %02x'' [PS optarg]) (\<lambda>r.
        k (if fst (psel r) then opt\<lparr>o_mode := pv r\<rparr> else opt))
      else if c = int (of_char (CHR ''h'')) then show_usage name (Exit 0)
      else invalid ''Unrecognized option(s)'' [])"

primrec parse_options :: "byte list \<Rightarrow> (int \<times> byte list) list \<Rightarrow> opts \<Rightarrow> (opts \<Rightarrow> 'a pprog) \<Rightarrow> 'a pprog" where
  "parse_options name [] opt k = k opt"
| "parse_options name (p # ps) opt k = parse_option name (fst p) (snd p) opt (\<lambda>opt. parse_options name ps opt k)"

text \<open>The settings as printed before the program starts.\<close>

definition yesno :: "bool \<Rightarrow> parg" where
  "yesno b = PS (if b then bytes ''yes'' else bytes ''no'')"

definition banner :: "opts \<Rightarrow> (string \<times> parg list) list" where
  "banner opt =
     [(''picocom v%s'', [PS (bytes VERSION_STR)]), (''port is        : %s'', [PS (o_port opt)]), (''flowcontrol    : %s'', [PS (flow_str (o_flow opt))]),
      (''baudrate is    : %d'', [PI (o_baud opt)]), (''parity is      : %s'', [PS (parity_str (o_parity opt))]),
      (''databits are   : %d'', [PI (o_databits opt)]), (''stopbits are   : %d'', [PI (o_stopbits opt)]),
      (if o_noescape opt then (''escape is      : none'', [])
       else (''escape is      : C-%c'', [PI (uint (KEYC (o_escape opt)))])),
      (''local echo is  : %s'', [yesno (o_lecho opt)]), (''noinit is      : %s'', [yesno (o_noinit opt)]),
      (''noreset is     : %s'', [yesno (o_noreset opt)]), (''hangup is      : %s'', [yesno (o_hangup opt)]),
      (''nolock is      : %s'', [yesno (o_nolock opt)]),
      (''send_cmd is    : %s'', [PS (if o_send_cmd opt = [] then bytes ''disabled'' else o_send_cmd opt)]),
      (''receive_cmd is : %s'', [PS (if o_receive_cmd opt = [] then bytes ''disabled'' else o_receive_cmd opt)]),
      (''imap is        : '', [PS (print_map (o_imap opt))]), (''omap is        : '', [PS (print_map (o_omap opt))]),
      (''emap is        : '', [PS (print_map (o_emap opt))]),
      (''logfile is     : %s'', [PS (case o_log_filename opt of None \<Rightarrow> bytes ''none'' | Some f \<Rightarrow> f)]),
      (case o_initstring opt of Some t \<Rightarrow> (''initstring len : %lu bytes'', [PI (int (length t))])
        | None \<Rightarrow> (''initstring     : none'', [])),
      (if o_exit_after opt < 0 then (''exit_after is  : not set'', [])
       else (''exit_after is  : %d ms'', [PI (o_exit_after opt)])),
      (''mode           : 0x%02x'', [PI (o_mode opt)]), (''exit is        : %s'', [yesno (o_exit opt)])]"

definition fail_args :: "string \<Rightarrow> 'a pprog" where
  "fail_args msg = printf_to STE msg [] (Exit 1)"

definition parse_args :: "byte list \<Rightarrow> (int \<times> byte list) list \<Rightarrow> byte list option \<Rightarrow> (opts \<Rightarrow> 'a pprog) \<Rightarrow> 'a pprog" where
  "parse_args name args port k =
     parse_options name args opts_default (\<lambda>opt.
     if o_raise_rts opt \<and> o_lower_rts opt then fail_args ''Both --raise-rts and --lower-rts given''
     else if o_raise_dtr opt \<and> o_lower_dtr opt then fail_args ''Both --raise-dtr and --lower-dtr given''
     else
       (let opt = (if o_exit opt then opt\<lparr>o_exit_after := -1\<rparr> else opt) in
        case port of
          None \<Rightarrow> printf_to STE ''No port given'' [] (fail_args run_with_help)
        | Some p \<Rightarrow>
            Sys (PLib ''strdup'' [PS p]) (\<lambda>r.
            case pstr r of
              None \<Rightarrow> fail_args ''Out of memory''
            | Some p \<Rightarrow>
                (let opt = opt\<lparr>o_port := p\<rparr> in
                 if o_quiet opt then k opt else say STO (banner opt) (call (PLib ''fflush'' []) (k opt))))))"

subsection \<open>Start and end\<close>

text \<open>One of the two halves of \<^verbatim>\<open>set_dtr_rts\<close>: the line as asked for, a failure is fatal.\<close>

definition set_rts :: "pico \<Rightarrow> (pico \<Rightarrow> 'a pprog) \<Rightarrow> 'a pprog" where
  "set_rts s k =
     (if o_lower_rts (opts s)
      then Sys (PTerm T_lower_rts (tty_fd s)) (\<lambda>r.
           if pv r < 0 then fatal ''failed to lower RTS of port: %s'' [] s else k (s\<lparr>rts_up := False\<rparr>))
      else if o_raise_rts (opts s)
      then Sys (PTerm T_raise_rts (tty_fd s)) (\<lambda>r.
           if pv r < 0 then fatal ''failed to raise RTS of port: %s'' [] s else k (s\<lparr>rts_up := True\<rparr>))
      else k s)"

definition set_dtr :: "pico \<Rightarrow> (pico \<Rightarrow> 'a pprog) \<Rightarrow> 'a pprog" where
  "set_dtr s k =
     (if o_lower_dtr (opts s)
      then Sys (PTerm T_lower_dtr (tty_fd s)) (\<lambda>r.
           if pv r < 0 then fatal ''failed to lower DTR of port: %s'' [] s else k (s\<lparr>dtr_up := False\<rparr>))
      else if o_raise_dtr (opts s)
      then Sys (PTerm T_raise_dtr (tty_fd s)) (\<lambda>r.
           if pv r < 0 then fatal ''failed to raise DTR of port: %s'' [] s else k (s\<lparr>dtr_up := True\<rparr>))
      else k s)"

definition set_dtr_rts :: "pico \<Rightarrow> (pico \<Rightarrow> 'a pprog) \<Rightarrow> 'a pprog" where
  "set_dtr_rts s k =
     set_rts s (\<lambda>s.
     set_dtr s (\<lambda>s.
     Sys (PTerm T_get_mctl (tty_fd s)) (\<lambda>r.
     case mctl_of r of
       None \<Rightarrow> k s
     | Some (dtr, rts) \<Rightarrow> k (s\<lparr>rts_up := rts, dtr_up := dtr\<rparr>))))"

definition establish_signal_handlers :: "'a pprog \<Rightarrow> 'a pprog" where
  "establish_signal_handlers k =
     call (PLib ''sigaction'' [PS (bytes ''SIGTERM''), PS (bytes ''deadly_handler'')]) (
     call (PLib ''sigaction'' [PS (bytes ''SIGINT''), PS (bytes ''deadly_handler'')]) (
     call (PLib ''sigaction'' [PS (bytes ''SIGHUP''), PS (bytes ''SIG_IGN'')]) (
     call (PLib ''sigaction'' [PS (bytes ''SIGQUIT''), PS (bytes ''SIG_IGN'')]) (
     call (PLib ''sigaction'' [PS (bytes ''SIGALRM''), PS (bytes ''SIG_IGN'')]) (
     call (PLib ''sigaction'' [PS (bytes ''SIGUSR1''), PS (bytes ''SIG_IGN'')]) (
     call (PLib ''sigaction'' [PS (bytes ''SIGUSR2''), PS (bytes ''SIG_IGN'')]) (
     call (PLib ''sigaction'' [PS (bytes ''SIGPIPE''), PS (bytes ''SIG_IGN'')]) k)))))))"

definition open_port :: "pico \<Rightarrow> (pico \<Rightarrow> 'a pprog) \<Rightarrow> 'a pprog" where
  "open_port s k =
     (let opt = opts s;
          go = (\<lambda>s.
            Sys (PLib ''open'' [PS (o_port opt)]) (\<lambda>r.
            let s = s\<lparr>tty_fd := pv r\<rparr> in
            if pv r < 0 then fatal ''cannot open %s: %s'' [PS (o_port opt)] s
            else if o_nolock opt then k s
            else Sys (PLib ''flock'' [PI (tty_fd s)]) (\<lambda>r.
                 if pv r < 0 then fatal ''cannot lock %s: %s'' [PS (o_port opt)] s else k s))) in
      case o_log_filename opt of
        None \<Rightarrow> go s
      | Some f \<Rightarrow>
          Sys (PLib ''open'' [PS f]) (\<lambda>r.
          let s = s\<lparr>log_fd := pv r\<rparr> in
          if pv r < 0 then fatal ''cannot open %s: %s'' [PS f] s else go s))"

definition setup_port :: "pico \<Rightarrow> (pico \<Rightarrow> 'a pprog) \<Rightarrow> 'a pprog" where
  "setup_port s k =
     (let opt = opts s in
      Sys (PTerm (if o_noinit opt then T_add
             else T_set (o_baud opt) (o_parity opt) (o_databits opt) (o_stopbits opt) (o_flow opt)
                    (\<not> o_noreset opt)) (tty_fd s)) (\<lambda>r.
      if pv r < 0 then fatal ''failed to add port: %s'' [] s
      else
        set_dtr_rts s (\<lambda>s.
        Sys (PTerm (T_apply False) (tty_fd s)) (\<lambda>r.
        if pv r < 0 then fatal ''failed to config port: %s'' [] s
        else
          set_dtr_rts s (\<lambda>s.
          Sys (PTerm T_get_baudrate (tty_fd s)) (\<lambda>r.
          k (set_tty_write_sz (pv r) s)))))))"

definition warn_mismatch :: "pico \<Rightarrow> 'a pprog \<Rightarrow> 'a pprog" where
  "warn_mismatch s k =
     (if \<not> o_quiet (opts s) \<and> \<not> o_noinit (opts s)
      then show_status True s (\<lambda>n.
           if n \<noteq> 0
           then pinfo s ''!! Settings mismatch !!'' [] (
                (if o_noescape (opts s) then id
                 else pinfo s '' Type [C-%c] [C-%c] to see actual port settings''
                       [PI (uint (KEYC (o_escape (opts s)))), PI (uint (KEYC KEY_STATUS))])
                (pinfo s [] [] k))
           else k)
      else k)"

definition setup_stdin :: "pico \<Rightarrow> 'a pprog \<Rightarrow> 'a pprog" where
  "setup_stdin s k =
     (if \<not> o_exit (opts s)
      then Sys (PLib ''isatty'' [PI STI]) (\<lambda>r.
           if pv r \<noteq> 0
           then Sys (PTerm T_add STI) (\<lambda>r.
                if pv r < 0 then fatal ''failed to add I/O device: %s'' [] s
                else term_do T_set_raw STI (
                     Sys (PTerm (T_apply False) STI) (\<lambda>r.
                     if pv r < 0 then fatal ''failed to set I/O device to raw mode: %s'' [] s else k)))
           else pinfo s ''!! STDIN is not a TTY !! Continue anyway...'' [] k)
      else call (PLib ''close'' [PI STI]) k)"

definition prime_queue :: "nat \<Rightarrow> pico \<Rightarrow> pico pprog" where
  "prime_queue fuel s =
     Sys (PLib ''calloc'' [PI TTY_Q_SZ_MIN]) (\<lambda>r.
     if pv r = 0 then fatal ''out of memory'' [] s
     else
       (let s = s\<lparr>q_sz := TTY_Q_SZ_MIN, q_data := []\<rparr>;
            drop_init = (\<lambda>s. call (PLib ''free'' [PS (bytes ''initstring'')])
                               (Ret (set_opts (o_initstring_update (\<lambda>_. None)) s))) in
        case o_initstring (opts s) of
          None \<Rightarrow> Ret s
        | Some t \<Rightarrow>
            if o_noinit (opts s) then pinfo s ''Ignoring init-string (--noinit)'' [] (drop_init s)
            else andthen (tty_q_push fuel t s) (\<lambda>(n, s).
                 if n \<noteq> length t then fatal ''initstring too long!'' [] s else drop_init s)))"

definition pico_run :: "nat \<Rightarrow> pico \<Rightarrow> int pprog" where
  "pico_run fuel s =
     andthen (prime_queue fuel s) (\<lambda>s.
     (if o_noescape (opts s) then id else pinfo s ''Type [C-%c] [C-%c] to see available commands''
        [PI (uint (KEYC (o_escape (opts s)))), PI (uint (KEYC KEY_HELP))])
     (pinfo s ''Terminal ready'' [] (
     andthen (loop fuel (loop_start s)) (\<lambda>(ler, l).
     let s = pico l in
     pinfo s [] [] (
     pinfo s ''Terminating...'' [] (
     cleanup (\<not> (ler = LE_CMD \<or> ler = LE_SIGNAL)) (o_noreset (opts s)) (o_hangup (opts s)) s (\<lambda>s.
     if ler = LE_SIGNAL then pinfo s ''Picocom was killed'' [] (Ret 1)
     else pinfo s ''Thanks for using picocom'' [] (Ret 0))))))))"

definition pico_main :: "nat \<Rightarrow> byte list \<Rightarrow> (int \<times> byte list) list \<Rightarrow> byte list option \<Rightarrow> int pprog" where
  "pico_main fuel name args port =
     parse_args name args port (\<lambda>opt.
     establish_signal_handlers (
     Sys (PLib ''term_lib_init'' []) (\<lambda>r.
     let s = pico_default\<lparr>opts := opt\<rparr> in
     if pv r < 0 then fatal ''term_lib_init failed: %s'' [] s
     else
       open_port s (\<lambda>s.
       setup_port s (\<lambda>s.
       warn_mismatch s (
       setup_stdin s (
       call (PLib ''init_history'' []) (
       pico_run fuel s))))))))"

subsection \<open>What the arguments come to\<close>

text \<open>Settings the options can produce, and the calls option handling makes.\<close>

definition accepted :: "opts \<Rightarrow> bool" where
  "accepted opt \<longleftrightarrow> valid_opts opt \<and> o_baud opt \<noteq> 0 \<and>
     0 \<le> sint (o_imap opt) \<and> 0 \<le> sint (o_omap opt) \<and> 0 \<le> sint (o_emap opt) \<and>
     length (o_send_cmd opt) < 128 \<and> length (o_receive_cmd opt) < 128"

fun harmless :: "pcall \<Rightarrow> bool" where
  "harmless (PPrintf fd f as) = True"
| "harmless (PLib f as) = (f \<noteq> ''open'' \<and> f \<noteq> ''flock'')"
| "harmless _ = False"

definition reading :: "(unit, pcall, presp) monitor" where
  "reading = \<lparr>m_ok = \<lambda>_ c. harmless c, m_env = \<lambda>_ _ _. True, m_st = \<lambda>_ _ _. ()\<rparr>"

lemma reading_simps [simp]:
  "m_ok reading h c \<longleftrightarrow> harmless c" "m_env reading h c r" "m_st reading h c r = ()"
  by (simp_all add: reading_def)

lemma honest_reading: "honest reading h t"
  by (induction t) auto

lemma allowed_reading: "allowed reading h t \<longleftrightarrow> (\<forall>(c, r) \<in> set t. harmless c)"
  by (induction t) auto

lemma invalid_safe: "Q (Exited 1) () \<Longrightarrow> safe reading (invalid msg as) () Q"
  by (simp add: invalid_def)

lemma from_sum_safe:
  "(\<And>opt. x = Inr opt \<Longrightarrow> safe reading (k opt) () Q) \<Longrightarrow> Q (Exited 1) () \<Longrightarrow> safe reading (from_sum x k) () Q"
  by (auto simp: from_sum_def invalid_safe split: sum.split prod.split)

lemma accepted_default: "accepted opts_default"
  by code_simp

lemma accepted_same [simp]:
  "accepted (o_lecho_update f opt) = accepted opt" "accepted (o_noinit_update f opt) = accepted opt"
  "accepted (o_noreset_update f opt) = accepted opt" "accepted (o_hangup_update f opt) = accepted opt"
  "accepted (o_nolock_update f opt) = accepted opt" "accepted (o_noescape_update f opt) = accepted opt"
  "accepted (o_lower_rts_update f opt) = accepted opt" "accepted (o_lower_dtr_update f opt) = accepted opt"
  "accepted (o_raise_rts_update f opt) = accepted opt" "accepted (o_raise_dtr_update f opt) = accepted opt"
  "accepted (o_exit_update f opt) = accepted opt" "accepted (o_quiet_update f opt) = accepted opt"
  "accepted (o_escape_update g opt) = accepted opt" "accepted (o_mode_update h opt) = accepted opt"
  "accepted (o_log_filename_update i opt) = accepted opt" "accepted (o_initstring_update i opt) = accepted opt"
  "accepted (o_exit_after_update h opt) = accepted opt" "accepted (o_port_update j opt) = accepted opt"
  by (simp_all add: accepted_def valid_opts_def)

lemma accepted_set:
  "accepted opt \<Longrightarrow> f \<in> {FC_NONE, FC_RTSCTS, FC_XONXOFF} \<Longrightarrow> accepted (opt\<lparr>o_flow := f\<rparr>)"
  "accepted opt \<Longrightarrow> p \<in> {P_NONE, P_EVEN, P_ODD} \<Longrightarrow> accepted (opt\<lparr>o_parity := p\<rparr>)"
  "accepted opt \<Longrightarrow> n \<in> {5, 6, 7, 8} \<Longrightarrow> accepted (opt\<lparr>o_databits := n\<rparr>)"
  "accepted opt \<Longrightarrow> m \<in> {1, 2} \<Longrightarrow> accepted (opt\<lparr>o_stopbits := m\<rparr>)"
  "accepted opt \<Longrightarrow> b \<noteq> 0 \<Longrightarrow> accepted (opt\<lparr>o_baud := b\<rparr>)"
  "accepted opt \<Longrightarrow> 0 \<le> sint w \<Longrightarrow> accepted (opt\<lparr>o_imap := w\<rparr>)"
  "accepted opt \<Longrightarrow> 0 \<le> sint w \<Longrightarrow> accepted (opt\<lparr>o_omap := w\<rparr>)"
  "accepted opt \<Longrightarrow> 0 \<le> sint w \<Longrightarrow> accepted (opt\<lparr>o_emap := w\<rparr>)"
  "accepted opt \<Longrightarrow> accepted (opt\<lparr>o_send_cmd := copy_cmd a\<rparr>)"
  "accepted opt \<Longrightarrow> accepted (opt\<lparr>o_receive_cmd := copy_cmd a\<rparr>)"
  by (simp_all add: accepted_def valid_opts_def copy_cmd_def del: insert_iff)

lemma accepted_plain: "accepted opt \<Longrightarrow> map_of plain_options c = Some f \<Longrightarrow> accepted (f opt)"
  by (drule map_of_SomeD) (auto simp: plain_options_def simp del: of_char_of)

lemma opt_flow_accepted: "accepted opt \<Longrightarrow> opt_flow c opt = Inr opt' \<Longrightarrow> accepted opt'"
  unfolding opt_flow_def by (simp add: accepted_set split: if_split_asm; blast intro: accepted_set)

lemma opt_parity_accepted: "accepted opt \<Longrightarrow> opt_parity c opt = Inr opt' \<Longrightarrow> accepted opt'"
  unfolding opt_parity_def by (force intro: accepted_set split: if_split_asm)

lemma opt_databits_accepted: "accepted opt \<Longrightarrow> opt_databits c opt = Inr opt' \<Longrightarrow> accepted opt'"
  unfolding opt_databits_def by (force intro: accepted_set split: if_split_asm)

lemma opt_stopbits_accepted: "accepted opt \<Longrightarrow> opt_stopbits c opt = Inr opt' \<Longrightarrow> accepted opt'"
  unfolding opt_stopbits_def Let_def by (force intro: accepted_set split: if_split_asm)

lemma opt_map_accepted:
  "accepted opt \<Longrightarrow> opt_map o_imap_update m a opt = Inr opt' \<Longrightarrow> accepted opt'"
  "accepted opt \<Longrightarrow> opt_map o_omap_update m a opt = Inr opt' \<Longrightarrow> accepted opt'"
  "accepted opt \<Longrightarrow> opt_map o_emap_update m a opt = Inr opt' \<Longrightarrow> accepted opt'"
  unfolding opt_map_def Let_def by (force intro: accepted_set split: if_split_asm)+

lemmas accepted_settings = opt_flow_accepted opt_parity_accepted opt_databits_accepted opt_stopbits_accepted
lemmas accepted_maps = opt_map_accepted

lemma say_safe: "safe reading k () Q \<Longrightarrow> safe reading (say fd ms k) () Q"
  by (induction ms) auto

lemma show_usage_safe: "Q (Exited n) () \<Longrightarrow> safe reading (show_usage name (Exit n)) () Q"
  by (simp add: show_usage_def say_safe)

lemma dup_arg_safe: "(\<And>f. safe reading (k f) () Q) \<Longrightarrow> safe reading (dup_arg had a k) () Q"
  by (simp add: dup_arg_def)

lemma parse_option_safe:
  assumes o: "accepted opt" and x: "Q (Exited 0) ()" "Q (Exited 1) ()"
    and k: "\<And>opt. accepted opt \<Longrightarrow> safe reading (k opt) () Q"
  shows "safe reading (parse_option name c a opt k) () Q"
proof (cases "map_of plain_options c")
  case (Some f)
  then show ?thesis using k [OF accepted_plain [OF o Some]] by (simp add: parse_option_def)
next
  case None
  note acc = accepted_settings [OF o] accepted_maps [OF o]
  show ?thesis
    unfolding parse_option_def
    using None
    by (simp add: Let_def x o k accepted_set invalid_safe show_usage_safe dup_arg_safe from_sum_safe [OF k [OF acc(1)] x(2)] from_sum_safe [OF k [OF acc(2)] x(2)]
        from_sum_safe [OF k [OF acc(3)] x(2)] from_sum_safe [OF k [OF acc(4)] x(2)]
        from_sum_safe [OF k [OF acc(5)] x(2)] from_sum_safe [OF k [OF acc(6)] x(2)]
        from_sum_safe [OF k [OF acc(7)] x(2)])
qed

lemma parse_options_safe:
  assumes x: "Q (Exited 0) ()" "Q (Exited 1) ()" and k: "\<And>opt. accepted opt \<Longrightarrow> safe reading (k opt) () Q"
  shows "accepted opt \<Longrightarrow> safe reading (parse_options name args opt k) () Q"
  by (induction args arbitrary: opt) (auto intro!: parse_option_safe k x)

text \<open>
  C32: option handling opens nothing: it reads the arguments, prints, and either comes back
  with settings the rest of the program can use - a baud rate other than 0, named flow
  control, parity, data and stop bits, mappings that were parsed, commands that fit their arrays,
  no modem line both raised and lowered, no idle timeout with \<^verbatim>\<open>--exit\<close> - or it exits.
\<close>

theorem parse_args_accepts:
  assumes "exec (parse_args name args port Ret) out t"
  shows "(\<forall>(c, r) \<in> set t. harmless c) \<and>
     (out = Exited 0 \<or> out = Exited 1 \<or>
      (\<exists>opt. out = Value opt \<and> accepted opt \<and> \<not> (o_raise_rts opt \<and> o_lower_rts opt) \<and>
         \<not> (o_raise_dtr opt \<and> o_lower_dtr opt) \<and> (o_exit opt \<longrightarrow> o_exit_after opt = -1)))"
proof -
  define Q :: "(pcall, opts) outcome \<Rightarrow> unit \<Rightarrow> bool" where
    "Q = (\<lambda>out _. out = Exited 0 \<or> out = Exited 1 \<or>
      (\<exists>opt. out = Value opt \<and> accepted opt \<and> \<not> (o_raise_rts opt \<and> o_lower_rts opt) \<and>
         \<not> (o_raise_dtr opt \<and> o_lower_dtr opt) \<and> (o_exit opt \<longrightarrow> o_exit_after opt = -1)))"
  have "safe reading (parse_args name args port Ret) () Q"
    unfolding parse_args_def
    by (rule parse_options_safe [OF _ _ _ accepted_default])
      (auto simp: Q_def fail_args_def Let_def intro!: say_safe split: option.split)
  from safe_exec [OF assms this honest_reading] show ?thesis
    by (simp add: allowed_reading Q_def)
qed

lemma parse_args_accepts_witness:
  "\<exists>opt. fst (run (parse_args (bytes ''picocom'') [(int (of_char (CHR ''y'')), bytes ''e''), (int (of_char (CHR ''q'')), [])]
       (Some (bytes ''tty'')) Ret) [presp0\<lparr>pstr := Some (bytes ''tty'')\<rparr>]) = Value opt \<and>
     accepted opt \<and> o_parity opt = P_EVEN"
proof -
  let ?p = "parse_args (bytes ''picocom'') [(int (of_char (CHR ''y'')), bytes ''e''), (int (of_char (CHR ''q'')), [])]
       (Some (bytes ''tty'')) Ret" and ?rs = "[presp0\<lparr>pstr := Some (bytes ''tty'')\<rparr>]"
  obtain out t where r: "run ?p ?rs = (out, t)" by fastforce
  have "case fst (run ?p ?rs) of Value opt \<Rightarrow> o_parity opt = P_EVEN | _ \<Rightarrow> False" by code_simp
  with r obtain opt where out: "out = Value opt" "o_parity opt = P_EVEN" by (auto split: outcome.splits)
  then have "exec ?p out t" using run_exec [OF r] by simp
  from parse_args_accepts [OF this] show ?thesis using out r by auto
qed

subsection \<open>The exit status\<close>

text \<open>Whether a run was told that a signal came in.\<close>

definition killed :: "(pcall \<times> presp) list \<Rightarrow> bool" where
  "killed t \<longleftrightarrow> (\<exists>r. (PSignalled, r) \<in> set t \<and> pv r \<noteq> 0)"

definition signals :: "(bool, pcall, presp) monitor" where
  "signals = \<lparr>m_ok = \<lambda>_ _. True, m_env = \<lambda>_ _ _. True, m_st = \<lambda>h c r. h \<or> (c = PSignalled \<and> pv r \<noteq> 0)\<rparr>"

lemma signals_simps [simp]:
  "m_ok signals h c" "m_env signals h c r" "m_st signals h c r \<longleftrightarrow> h \<or> (c = PSignalled \<and> pv r \<noteq> 0)"
  by (simp_all add: signals_def)

lemma signals_trace: "honest signals h t" "end_state signals h t \<longleftrightarrow> h \<or> killed t"
  by (induction t arbitrary: h) (auto simp: killed_def)

text \<open>A part that does not look for signals; \<open>f\<close> holds of what it returns.\<close>

definition quiet :: "('a \<Rightarrow> bool) \<Rightarrow> 'a pprog \<Rightarrow> bool" where
  "quiet f p \<longleftrightarrow> (\<forall>h. safe signals p h (\<lambda>out h'. h' = h \<and> (\<forall>a. out = Value a \<longrightarrow> f a)))"

lemma quiet_simps [simp]:
  "quiet f (Ret a) \<longleftrightarrow> f a" "quiet f (Exit n)" "quiet f (Fault e)" "quiet f Spin"
  "c \<noteq> PSignalled \<Longrightarrow> quiet f (Sys c k) \<longleftrightarrow> (\<forall>r. quiet f (k r))"
  "c \<noteq> PSignalled \<Longrightarrow> quiet f (call c p) \<longleftrightarrow> quiet f p"
  "quiet f (need x e g) \<longleftrightarrow> (\<forall>y. x = Some y \<longrightarrow> quiet f (g y))"
  by (auto simp: quiet_def)

lemma quiet_andthen:
  "quiet g p \<Longrightarrow> (\<And>a. g a \<Longrightarrow> quiet f (k a)) \<Longrightarrow> quiet f (andthen p k)"
  unfolding quiet_def by (blast intro: safe_andthen)

lemma quiet_pinfo [simp]: "quiet f (pinfo s m as k) \<longleftrightarrow> quiet f k"
  by (simp add: pinfo_def)

lemma quiet_cleanup: "(\<And>s. quiet f (k s)) \<Longrightarrow> quiet f (cleanup d n hup s k)"
  by (simp add: cleanup_def Let_def)

lemma quiet_fatal [simp]: "quiet f (fatal m as s)"
  by (simp add: fatal_def quiet_cleanup)

lemma quiet_writen_ni: "quiet (\<lambda>_. True) (writen_ni fuel fd p)"
proof -
  have "quiet (\<lambda>_. True) (writen_ni_from fuel fd p w)" for w
    by (induction fuel arbitrary: p w) auto
  then show ?thesis by (simp add: writen_ni_def)
qed

lemma quiet_map_and_write: "quiet (\<lambda>_. True) (map_and_write fuel fd m c s)"
  by (auto simp: map_and_write_def intro!: quiet_andthen [OF quiet_writen_ni])

lemma quiet_log_bytes: "quiet (\<lambda>_. True) (log_bytes fuel b bs s)"
  by (auto simp: log_bytes_def intro!: quiet_andthen [OF quiet_writen_ni])

lemma quiet_grow: "quiet (\<lambda>a. opts (snd a) = opts s) (grow n s)"
proof (induction n arbitrary: s)
  case (Suc n)
  have "quiet (\<lambda>a. opts (snd a) = opts s) (grow n (s\<lparr>q_sz := sz\<rparr>))" for sz
    using Suc [of "s\<lparr>q_sz := sz\<rparr>"] by simp
  then show ?case by (simp add: Let_def)
qed simp

lemma quiet_push_from: "quiet (\<lambda>a. opts (snd a) = opts s) (push_from fuel cs i s)"
proof (induction cs arbitrary: i s)
  case (Cons c cs)
  have "quiet (\<lambda>a. opts (snd a) = opts s) (andthen
      (if b then map_and_write fuel STO m c u else Ret ()) (\<lambda>_. push_from fuel cs j u))"
    if "opts u = opts s" for b m u j
    using Cons [of u j] that by (auto intro!: quiet_andthen [where g = "\<lambda>_. True"] quiet_map_and_write)
  then show ?case
    by (auto simp: Let_def intro!: quiet_andthen [OF quiet_grow])
qed simp

lemma quiet_push_or_bell: "quiet (\<lambda>u. opts u = opts s) (push_or_bell fuel c s)"
  unfolding push_or_bell_def tty_q_push_def
  by (rule quiet_andthen [OF quiet_push_from]) (auto split: prod.splits)

lemma quiet_read_retry: "(\<And>r. quiet f (k r)) \<Longrightarrow> quiet f (read_retry fuel fd n k)"
  by (induction fuel) auto

lemma quiet_write_retry: "(\<And>r. quiet f (k r)) \<Longrightarrow> quiet f (write_retry fuel fd bs k)"
  by (induction fuel) auto

text \<open>Without an escape key no part of a pass looks for signals or enters a command.\<close>

definition calm :: "session \<Rightarrow> bool" where
  "calm l \<longleftrightarrow> o_noescape (opts (pico l)) \<and> \<not> in_command l"

lemma calm_closed [simp]: "calm (l\<lparr>stdin_closed := b\<rparr>) = calm l"
  by (simp add: calm_def)

lemma quiet_key_byte: "calm l \<Longrightarrow> quiet (\<lambda>a. \<not> fst a \<and> calm (snd a)) (key_byte fuel c l)"
  unfolding key_byte_def Let_def calm_def
  by (auto intro!: quiet_andthen [OF quiet_push_or_bell])

lemma quiet_keys: "calm l \<Longrightarrow> quiet (\<lambda>a. \<not> fst a \<and> calm (snd a)) (keys fuel cs l)"
  by (induction cs arbitrary: l) (auto intro!: quiet_andthen [OF quiet_key_byte])

lemma quiet_stdin_part: "calm l \<Longrightarrow> quiet (\<lambda>a. \<not> fst a \<and> calm (snd a)) (stdin_part fuel l)"
  unfolding stdin_part_def
  by (rule quiet_read_retry) (auto simp: quiet_keys)

lemma quiet_port_part: "calm l \<Longrightarrow> quiet calm (port_part fuel l)"
  unfolding port_part_def Let_def
  by (auto simp: calm_def split: prod.splits
      intro!: quiet_read_retry quiet_andthen [OF quiet_log_bytes] quiet_andthen [OF quiet_writen_ni])

lemma quiet_write_part: "calm l \<Longrightarrow> quiet calm (write_part fuel l)"
  unfolding write_part_def Let_def
  by (auto simp: calm_def intro!: quiet_write_retry quiet_andthen [OF quiet_log_bytes])

lemma quiet_prime_queue: "quiet (\<lambda>u. o_noescape (opts u) = o_noescape (opts s)) (prime_queue fuel s)"
  unfolding prime_queue_def tty_q_push_def Let_def
  by (auto intro!: quiet_andthen [OF quiet_push_from] split: option.splits prod.splits)

text \<open>The loop ends for a signal exactly when it was told of one.\<close>

definition end_told :: "(pcall, le_reason \<times> session) outcome \<Rightarrow> bool \<Rightarrow> bool" where
  "end_told out h \<longleftrightarrow> (\<forall>ler l. out = Value (ler, l) \<longrightarrow> (ler = LE_SIGNAL \<longleftrightarrow> h))"

lemma end_told_andthen:
  "quiet f p \<Longrightarrow> (\<And>a. f a \<Longrightarrow> safe signals (k a) h end_told) \<Longrightarrow> safe signals (andthen p k) h end_told"
  unfolding quiet_def
  by (rule safe_andthen [where R = "\<lambda>out h'. h' = h \<and> (\<forall>a. out = Value a \<longrightarrow> f a)"])
    (auto simp: end_told_def)

lemma fatal_told: "safe signals (fatal m as s) h end_told"
proof -
  have "safe signals (fatal m as s) h (\<lambda>out h'. h' = h \<and> (\<forall>a. out = Value a \<longrightarrow> False))"
    using quiet_fatal [of "\<lambda>_. False" m as s] unfolding quiet_def by blast
  then show ?thesis by (rule safe_mono) (auto simp: end_told_def)
qed

lemma loop_told: "calm l \<Longrightarrow> safe signals (loop fuel l) False end_told"
proof (induction fuel arbitrary: l)
  case (Suc fuel)
  have rest: "safe signals (andthen (if b2 then port_part fuel l else Ret l) (\<lambda>l.
      andthen (if b3 then write_part fuel l else Ret l) (\<lambda>l. loop fuel l))) False end_told"
    if "calm l" for b2 b3 l
    by (rule end_told_andthen [of calm]; (rule end_told_andthen [of calm])?)
      (use that Suc.IH quiet_port_part quiet_write_part in simp_all)
  have pass: "safe signals (andthen (if b1 then stdin_part fuel l else Ret (False, l)) (\<lambda>(quit, l).
      if quit then Ret (LE_CMD, l)
      else andthen (if b2 then port_part fuel l else Ret l) (\<lambda>l.
           andthen (if b3 then write_part fuel l else Ret l) (\<lambda>l. loop fuel l)))) False end_told"
    for b1 b2 b3
    by (rule end_told_andthen [of "\<lambda>a. \<not> fst a \<and> calm (snd a)"])
      (use Suc.prems quiet_stdin_part rest in \<open>auto simp del: split_paired_All\<close>)
  have sel: "safe signals (case sel of (b1, b2, b3) \<Rightarrow>
      andthen (if b1 then stdin_part fuel l else Ret (False, l)) (\<lambda>(quit, l).
      if quit then Ret (LE_CMD, l)
      else andthen (if b2 then port_part fuel l else Ret l) (\<lambda>l.
           andthen (if b3 then write_part fuel l else Ret l) (\<lambda>l. loop fuel l)))) False end_told"
    for sel
    using pass by (simp only: case_prod_beta)
  show ?case unfolding loop.simps Let_def
    using sel Suc.IH [OF Suc.prems] fatal_told
    by (simp add: end_told_def [abs_def] split del: if_split)
qed (simp add: end_told_def)

text \<open>The exit status of a run that returns tells whether a signal came in.\<close>

lemma pico_run_status:
  assumes "o_noescape (opts s)" and "exec (pico_run fuel s) (Value n) t"
  shows "n = (if killed t then 1 else 0)"
proof -
  let ?Q = "\<lambda>out h. \<forall>n. out = Value n \<longrightarrow> n = (if h then 1 else 0 :: int)"
  have cleaned: "safe signals (cleanup d nr hup s (\<lambda>s. if ler = LE_SIGNAL
        then pinfo s ''Picocom was killed'' [] (Ret 1) else pinfo s ''Thanks for using picocom'' [] (Ret 0)))
      (ler = LE_SIGNAL) ?Q" for d nr hup s ler
    by (simp add: cleanup_def Let_def pinfo_def)
  have loops: "safe signals (andthen (loop fuel (loop_start u)) (\<lambda>(ler, l).
     let s = pico l in pinfo s [] [] (pinfo s ''Terminating...'' [] (
     cleanup (\<not> (ler = LE_CMD \<or> ler = LE_SIGNAL)) (o_noreset (opts s)) (o_hangup (opts s)) s (\<lambda>s.
     if ler = LE_SIGNAL then pinfo s ''Picocom was killed'' [] (Ret 1)
     else pinfo s ''Thanks for using picocom'' [] (Ret 0)))))) False ?Q" if "o_noescape (opts u)" for u
  proof (rule safe_andthen [OF loop_told])
    show "calm (loop_start u)" using that by (simp add: calm_def loop_start_def)
    fix a h assume "end_told (Value a) h"
    then have "h \<longleftrightarrow> fst a = LE_SIGNAL" by (cases a) (simp add: end_told_def)
    then show "safe signals (case a of (ler, l) \<Rightarrow>
       let s = pico l in pinfo s [] [] (pinfo s ''Terminating...'' [] (
       cleanup (\<not> (ler = LE_CMD \<or> ler = LE_SIGNAL)) (o_noreset (opts s)) (o_hangup (opts s)) s (\<lambda>s.
       if ler = LE_SIGNAL then pinfo s ''Picocom was killed'' [] (Ret 1)
       else pinfo s ''Thanks for using picocom'' [] (Ret 0))))) h ?Q"
      using cleaned by (cases a) (simp add: Let_def pinfo_def)
  qed simp_all
  have "safe signals (pico_run fuel s) False ?Q"
    unfolding pico_run_def
    by (rule safe_andthen [OF quiet_prime_queue [unfolded quiet_def, rule_format]])
      (use assms(1) loops in \<open>auto simp: pinfo_def\<close>)
  from safe_exec(2) [OF assms(2) this signals_trace(1)] show ?thesis by (simp add: signals_trace(2))
qed

subsection \<open>From the initial string to the end\<close>

definition initial :: "opts \<Rightarrow> byte list" where
  "initial opt = (if o_noinit opt then [] else case o_initstring opt of None \<Rightarrow> [] | Some t \<Rightarrow> t)"

text \<open>The settings of a session are transparent whether the initial string is still kept or not.\<close>

lemma transparent_initstring [simp]: "transparent (opt\<lparr>o_initstring := x\<rparr>) = transparent opt"
  by (simp add: transparent_def)

definition primed :: "pico \<Rightarrow> pico \<Rightarrow> bool" where
  "primed s s' \<longleftrightarrow> q_ok s' \<and> tty_fd s' = tty_fd s \<and> transparent (opts s') \<and>
     o_omap (opts s') = o_omap (opts s) \<and> o_imap (opts s') = o_imap (opts s) \<and>
     q_data s' = image_of (o_omap (opts s)) (initial (opts s))"

lemma prime_queue_safe:
  assumes t: "transparent (opts s)"
  shows "safe (watching tty roomy) (prime_queue fuel s) h
     (\<lambda>out h'. h' = h \<and> (case out of Value s' \<Rightarrow> primed s s' | Exited n \<Rightarrow> n = 1
        | Undefined f \<Rightarrow> f = Overflowed | _ \<Rightarrow> False))"
proof -
  let ?Q = "\<lambda>out h'. h' = h \<and> (case out of Value s' \<Rightarrow> primed s s' | Exited n \<Rightarrow> n = 1
        | Undefined f \<Rightarrow> f = Overflowed | _ \<Rightarrow> False)"
  let ?s = "s\<lparr>q_sz := TTY_Q_SZ_MIN, q_data := []\<rparr>"
  have q: "q_ok ?s" "transparent (opts ?s)" using t by (simp_all add: q_ok_def TTY_Q_SZ_MIN_def)
  have push: "safe (watching tty roomy) (andthen (tty_q_push fuel b ?s) (\<lambda>(n, s).
       if n \<noteq> length b then fatal ''initstring too long!'' [] s
       else call (PLib ''free'' [PS (bytes ''initstring'')])
              (Ret (set_opts (o_initstring_update (\<lambda>_. None)) s)))) h ?Q"
    if "o_initstring (opts s) = Some b" "\<not> o_noinit (opts s)" for b
  proof (rule safe_andthen)
    show "safe (watching tty roomy) (tty_q_push fuel b ?s) h (\<lambda>out h'. h' = h \<and> pushed 0 b ?s out)"
      unfolding tty_q_push_def using q total_map [of "o_omap (opts s)"] t
      by (intro push_from_safe) (auto simp: transparent_def)
    fix a h' assume a: "h' = h \<and> pushed 0 b ?s (Value a)"
    then obtain s1 where s1: "a = (length b, s1)" "queued b ?s s1"
      by (cases a) (auto simp: pushed_def)
    have "primed s (set_opts (o_initstring_update (\<lambda>_. None)) s1)"
      using s1(2) that t by (auto simp: primed_def queued_def q_ok_def initial_def image_of_def)
    then show "safe (watching tty roomy) (case a of (n, s) \<Rightarrow>
       if n \<noteq> length b then fatal ''initstring too long!'' [] s
       else call (PLib ''free'' [PS (bytes ''initstring'')])
              (Ret (set_opts (o_initstring_update (\<lambda>_. None)) s))) h' ?Q"
      using a s1(1) by simp
  qed (auto simp: pushed_def)
  show ?thesis
    unfolding prime_queue_def Let_def
    using push q t by (auto simp: primed_def initial_def q_ok_def TTY_Q_SZ_MIN_def intro!: fatal_safe pinfo_safe split: option.split)
qed

text \<open>
  C11: the program from its start to its end, when there is no escape key, the plain mode
  (no framing), no local echo, no log file, maps that ignore neither CR nor LF, a port that
  is neither standard input nor output, and every \<^verbatim>\<open>realloc\<close> succeeds.  What reaches the port
  is the front of the mapped initial string followed by the mapped keys, and what reaches
  the screen the front of the mapped bytes of the port.  When it returns it has shown all
  that the port delivered, and its status is 1 if it was told of a signal and 0 if not.  It
  ends in no other way than with exit status 1 after a failed call, or in the overflow of the
  queue's size.
\<close>

theorem session_end_to_end:
  assumes "transparent (opts s)" and "tty_fd s \<noteq> STI" and "tty_fd s \<noteq> STO"
    and "exec (pico_run fuel s) out t" and "\<forall>(c, r) \<in> set t. p_ok c r \<and> roomy c r"
  shows "let h = end_state (watching (tty_fd s) roomy) no_bytes t;
             keys = image_of (o_omap (opts s)) (initial (opts s) @ typed h);
             screen = image_of (o_imap (opts s)) (got h) in
     prefix (sent h) keys \<and> prefix (shown h) screen \<and>
     (case out of
        Value n \<Rightarrow> n = (if killed t then 1 else 0) \<and> shown h = screen
      | Exited n \<Rightarrow> n = 1
      | Undefined f \<Rightarrow> f = Overflowed
      | Running \<Rightarrow> True
      | Blocked c \<Rightarrow> False)"
proof -
  define ok :: "streams \<Rightarrow> bool" where
    "ok h \<longleftrightarrow> prefix (sent h) (image_of (o_omap (opts s)) (initial (opts s) @ typed h)) \<and>
       prefix (shown h) (image_of (o_imap (opts s)) (got h))" for h
  define Q :: "(pcall, int) outcome \<Rightarrow> streams \<Rightarrow> bool" where
    "Q out h \<longleftrightarrow> ok h \<and> (case out of
        Value n \<Rightarrow> shown h = image_of (o_imap (opts s)) (got h)
      | Exited n \<Rightarrow> n = 1 | Undefined f \<Rightarrow> f = Overflowed | _ \<Rightarrow> True)" for out h
  let ?M = "watching (tty_fd s) roomy"
  have start: "ok no_bytes" by (simp add: ok_def no_bytes_def)
  have loops: "safe ?M (andthen (loop fuel (loop_start s1)) (\<lambda>(ler, l).
     let s = pico l in pinfo s [] [] (pinfo s ''Terminating...'' [] (
     cleanup (\<not> (ler = LE_CMD \<or> ler = LE_SIGNAL)) (o_noreset (opts s)) (o_hangup (opts s)) s (\<lambda>s.
     if ler = LE_SIGNAL then pinfo s ''Picocom was killed'' [] (Ret 1)
     else pinfo s ''Thanks for using picocom'' [] (Ret 0)))))) no_bytes Q"
    if p: "primed s s1" for s1
  proof (rule safe_andthen)
    have tr: "transparent (opts s1)" and fd: "tty_fd s1 = tty_fd s"
      and i: "follows (q_data s1) (tty_fd s) (opts s1) no_bytes (loop_start s1)"
      using p by (simp_all add: primed_def follows_def loop_start_def no_bytes_def)
    show "safe ?M (loop fuel (loop_start s1)) no_bytes (part_post (q_data s1) (tty_fd s) (opts s1) snd)"
      by (rule session_loop_safe [OF i tr assms(2,3)])
    have so: "so_far (q_data s1) (opts s1) h \<longleftrightarrow> ok h" for h
      using p by (simp add: so_far_def ok_def primed_def)
    fix a :: "le_reason \<times> session" and h assume "part_post (q_data s1) (tty_fd s) (opts s1) snd (Value a) h"
    then have f: "follows (q_data s1) (tty_fd s) (opts s1) h (snd a)" by simp
    have "ok h" "shown h = image_of (o_imap (opts s)) (got h)"
      using follows_so_far [OF f] so f p by (simp_all add: follows_def primed_def)
    then show "safe ?M (case a of (ler, l) \<Rightarrow>
       let s = pico l in pinfo s [] [] (pinfo s ''Terminating...'' [] (
       cleanup (\<not> (ler = LE_CMD \<or> ler = LE_SIGNAL)) (o_noreset (opts s)) (o_hangup (opts s)) s (\<lambda>s.
       if ler = LE_SIGNAL then pinfo s ''Picocom was killed'' [] (Ret 1)
       else pinfo s ''Thanks for using picocom'' [] (Ret 0))))) h Q"
      by (cases a) (auto simp: Q_def Let_def intro!: pinfo_safe cleanup_safe)
  qed (use p in \<open>auto simp: Q_def so_far_def ok_def primed_def\<close>)
  have "safe ?M (pico_run fuel s) no_bytes Q"
    unfolding pico_run_def
    by (rule safe_andthen [OF prime_queue_safe [OF assms(1)]])
      (use loops start in \<open>auto simp: Q_def intro!: pinfo_safe\<close>)
  moreover have "honest ?M no_bytes t"
    using honest_watching [of t roomy] assms(5) by blast
  ultimately have "Q out (end_state ?M no_bytes t)"
    by (rule safe_exec(2) [OF assms(4)])
  then show ?thesis
    using exec_not_blocked [OF assms(4)] pico_run_status [of s fuel _ t] assms(1,4)
    unfolding Q_def ok_def Let_def transparent_def by (cases out) auto
qed

definition greeting :: pico where
  "greeting = plain_terminal\<lparr>opts := (opts plain_terminal)\<lparr>o_quiet := True, o_initstring := Some [104, 105]\<rparr>\<rparr>"

lemma session_end_to_end_witness:
  "let t = snd (run (pico_run 5 greeting)
         ([presp0\<lparr>pv := 1\<rparr>, presp0, presp0, presp0\<lparr>pv := 1, psel := (False, False, True)\<rparr>, presp0\<lparr>pv := 2\<rparr>,
           presp0\<lparr>pv := 1\<rparr>] @ replicate 9 presp0));
       h = end_state (watching 3 roomy) no_bytes t in
   sent h = [104, 105] \<and> prefix (sent h) (image_of 0 ([104, 105] @ typed h)) \<and> killed t"
proof -
  let ?p = "pico_run 5 greeting"
  let ?rs = "[presp0\<lparr>pv := 1\<rparr>, presp0, presp0, presp0\<lparr>pv := 1, psel := (False, False, True)\<rparr>, presp0\<lparr>pv := 2\<rparr>,
           presp0\<lparr>pv := 1\<rparr>] @ replicate 9 presp0"
  obtain out t where r: "run ?p ?rs = (out, t)" by fastforce
  have "case fst (run ?p ?rs) of Value n \<Rightarrow> n = 1 | _ \<Rightarrow> False" by code_simp
  with r have out: "out = Value 1" by (auto split: outcome.splits)
  then have e: "exec ?p out t" using run_exec [OF r] by simp
  have "list_all (\<lambda>(c, r). p_ok c r \<and> roomy c r) (snd (run ?p ?rs))" by code_simp
  with r have ok: "\<forall>(c, r) \<in> set t. p_ok c r \<and> roomy c r" by (auto simp: list_all_iff)
  have s: "transparent (opts greeting)" "tty_fd greeting \<noteq> STI" "tty_fd greeting \<noteq> STO" "tty_fd greeting = 3"
    "initial (opts greeting) = [104, 105]" "o_omap (opts greeting) = 0" by code_simp+
  have "sent (end_state (watching 3 roomy) no_bytes (snd (run ?p ?rs))) = [104, 105]" by code_simp
  with session_end_to_end [OF s(1-3) e ok] show ?thesis
    unfolding Let_def r by (simp add: s(4-6) out split: if_splits)
qed

end
