(* ===== verification/Shortpath.thy ===== *)
theory Shortpath
  imports Prelude
begin

text \<open>
  Shortening of paths, \<^verbatim>\<open>src/shortpath/shortpath/shortpath.c\<close>: as long as the regular expression
  matches, the bytes of its group are cut out of the array.  The matcher of libc is modelled
  for this one expression and proved to be POSIX's leftmost longest match.  The loop is then
  compared with a machine that goes over the components once, with a stack.
\<close>

subsection \<open>The matcher\<close>

abbreviation SLASH :: byte where "SLASH \<equiv> 47"

definition dot :: "byte list" where "dot = [46]"
definition dotdot :: "byte list" where "dotdot = [46, 46]"

text \<open>The length of the group behind a slash: \<^verbatim>\<open>[^/]+/\.\./\<close>, or else \<^verbatim>\<open>\./\<close>.\<close>

definition regroup :: "byte list \<Rightarrow> nat option" where
  "regroup s =
     (let name = takeWhile (\<lambda>c. c \<noteq> SLASH) s in
      if name \<noteq> [] \<and> take 4 (drop (length name) s) = [SLASH, 46, 46, SLASH] then Some (length name + 4)
      else if take 2 s = [46, SLASH] then Some 2
      else None)"

text \<open>\<^verbatim>\<open>regexec\<close>: \<^verbatim>\<open>rm_so\<close> and \<^verbatim>\<open>rm_eo\<close> of the group, \<open>None\<close> for \<^verbatim>\<open>REG_NOMATCH\<close>.\<close>

fun regexec :: "byte list \<Rightarrow> (nat \<times> nat) option" where
  "regexec [] = None"
| "regexec (c # cs) =
     (case (if c = SLASH then regroup cs else None) of
        Some n \<Rightarrow> Some (1, 1 + n)
      | None \<Rightarrow> map_option (\<lambda>(so, eo). (Suc so, Suc eo)) (regexec cs))"

lemma take_all_length: "take n xs = ys \<Longrightarrow> length ys = n \<Longrightarrow> n \<le> length xs"
  by auto

lemma regroup_le:
  assumes "regroup s = Some n"
  shows "0 < n \<and> n \<le> length s"
proof -
  let ?name = "takeWhile (\<lambda>c. c \<noteq> SLASH) s"
  consider "take 4 (drop (length ?name) s) = [SLASH, 46, 46, SLASH]" "n = length ?name + 4"
    | "take 2 s = [46, SLASH]" "n = 2"
    using assms by (auto simp: regroup_def Let_def split: if_splits)
  then show ?thesis
  proof cases
    case 1
    from take_all_length [OF this(1)] 1(2) show ?thesis by simp
  next
    case 2
    from take_all_length [OF this(1)] 2(2) show ?thesis by simp
  qed
qed

lemma regexec_le: "regexec s = Some (so, eo) \<Longrightarrow> 0 < so \<and> so < eo \<and> eo \<le> length s"
proof (induction s arbitrary: so eo)
  case (Cons c cs)
  show ?case
  proof (cases "if c = SLASH then regroup cs else None")
    case None
    with Cons.prems obtain a e where "regexec cs = Some (a, e)" "so = Suc a" "eo = Suc e" by auto
    with Cons.IH show ?thesis by simp
  next
    case (Some n)
    then have "regroup cs = Some n" by (simp split: if_splits)
    from regroup_le [OF this] Some Cons.prems show ?thesis by simp
  qed
qed simp

subsection \<open>The loop\<close>

definition cut :: "byte list \<Rightarrow> nat \<Rightarrow> nat \<Rightarrow> byte list" where
  "cut path start eo =
     (let len = length (cstr path) in
      (memmove path start eo (len - eo))[len - (eo - start) := 0])"

lemma cstr_cut:
  assumes "so < eo" and "eo \<le> length (cstr b)"
  shows "cstr (cut b so eo) = take so (cstr b) @ drop eo (cstr b)" and "length (cut b so eo) = length b"
proof -
  let ?n = "length (cstr b)"
  have n: "?n \<le> length b" by (rule length_cstr_le)
  have pre: "take ?n b = cstr b" by (simp add: cstr_def takeWhile_eq_take [symmetric])
  have "take so (take ?n b) = take so b" using assms by (simp add: min_absorb1)
  then have t: "take so b = take so (cstr b)" by (simp only: pre)
  have d: "take (?n - eo) (drop eo b) = drop eo (cstr b)" using drop_take [of eo ?n b] by (simp only: pre)
  have len: "length (take so (cstr b) @ drop eo (cstr b)) = ?n - (eo - so)" using assms by simp
  have eq: "cut b so eo = (take so (cstr b) @ drop eo (cstr b)) @ (drop (so + (?n - eo)) b)[0 := 0]"
    by (simp only: cut_def Let_def memmove_def t d len [symmetric] append_assoc [symmetric] list_update_append
        less_irrefl if_False diff_self_eq_0)
  have "drop (so + (?n - eo)) b \<noteq> []" using assms n by simp
  then obtain y ys where "drop (so + (?n - eo)) b = y # ys" by (cases "drop (so + (?n - eo)) b") auto
  moreover have "0 \<notin> set (take so (cstr b) @ drop eo (cstr b))"
    using cstr_no_nul [of b] by (auto dest: in_set_takeD in_set_dropD)
  ultimately show "cstr (cut b so eo) = take so (cstr b) @ drop eo (cstr b)"
    unfolding eq by (simp only: list_update_code) (rule cstr_terminated_append)
  show "length (cut b so eo) = length b" using assms n unfolding eq by simp
qed

function shortpath :: "byte list \<Rightarrow> byte list" where
  "shortpath path =
     (case regexec (cstr path) of
        None \<Rightarrow> path
      | Some (so, eo) \<Rightarrow> shortpath (cut path so eo))"
  by pat_completeness auto
termination
proof (relation "measure (\<lambda>b. length (cstr b))", goal_cases)
  case (2 b m so eo)
  then have "so < eo" "eo \<le> length (cstr b)" using regexec_le [of "cstr b" so eo] by auto
  then show ?case by (simp add: cstr_cut)
qed simp

declare shortpath.simps [simp del]

subsection \<open>The match is POSIX's\<close>

text \<open>The language of the expression, and what POSIX asks of a match: leftmost, then longest.\<close>

definition in_pattern :: "byte list \<Rightarrow> bool" where
  "in_pattern w \<longleftrightarrow>
     (\<exists>name. name \<noteq> [] \<and> SLASH \<notin> set name \<and> w = SLASH # name @ [SLASH, 46, 46, SLASH]) \<or> w = [SLASH, 46, SLASH]"

lemma regroup_match: "regroup s = Some n \<Longrightarrow> in_pattern (SLASH # take n s)"
proof -
  let ?name = "takeWhile (\<lambda>c. c \<noteq> SLASH) s"
  assume "regroup s = Some n"
  then consider "?name \<noteq> []" "take 4 (drop (length ?name) s) = [SLASH, 46, 46, SLASH]" "n = length ?name + 4"
    | "take 2 s = [46, SLASH]" "n = 2"
    by (auto simp: regroup_def Let_def split: if_splits)
  then show ?thesis
  proof cases
    case 1
    have "take n s = ?name @ [SLASH, 46, 46, SLASH]"
      using 1(2) unfolding 1(3) take_add by (simp add: takeWhile_eq_take [symmetric])
    moreover have "SLASH \<notin> set ?name" using set_takeWhileD by fastforce
    ultimately show ?thesis using 1(1) by (auto simp: in_pattern_def)
  qed (auto simp: in_pattern_def)
qed

lemma regroup_longest:
  assumes "in_pattern (SLASH # take m s)" and "m \<le> length s"
  obtains n where "regroup s = Some n" and "m \<le> n"
proof -
  consider name where "name \<noteq> []" "SLASH \<notin> set name" "take m s = name @ [SLASH, 46, 46, SLASH]"
    | "take m s = [46, SLASH]"
    using assms(1) by (auto simp: in_pattern_def)
  then show thesis
  proof cases
    case 1
    have m: "m = length name + 4" using arg_cong [OF 1(3), of length] assms(2) by simp
    have s: "s = name @ SLASH # 46 # 46 # SLASH # drop m s"
      using append_take_drop_id [of m s] by (simp add: 1(3))
    have "takeWhile (\<lambda>c. c \<noteq> SLASH) s = name"
      using 1(2) by (subst s, subst takeWhile_append2) auto
    moreover have "take 4 (drop (length name) s) = [SLASH, 46, 46, SLASH]" by (subst s) simp
    ultimately have "regroup s = Some (length name + 4)" using 1(1) by (simp add: regroup_def)
    with m that show thesis by simp
  next
    case 2
    have "m = 2" using arg_cong [OF 2, of length] assms(2) by simp
    then show thesis using 2 that [of 2] regroup_le [of s]
      by (cases "regroup s") (auto simp: regroup_def Let_def intro: that split: if_splits)
  qed
qed

text \<open>
  The first match in the text, and no longer one at the same place: there is a piece of the
  text in the language exactly when the matcher finds one.
\<close>

definition piece :: "byte list \<Rightarrow> nat \<Rightarrow> nat \<Rightarrow> byte list" where
  "piece s i j = drop i (take j s)"

lemma piece_simps [simp]:
  "piece (c # s) (Suc i) (Suc j) = piece s i j" "piece (c # s) 0 (Suc j) = c # take j s" "piece s i 0 = []"
  by (simp_all add: piece_def)

lemma not_in_pattern [simp]: "\<not> in_pattern []" "c \<noteq> SLASH \<Longrightarrow> \<not> in_pattern (c # w)"
  by (auto simp: in_pattern_def)

lemma regexec_posix:
  "case regexec s of
     None \<Rightarrow> \<forall>i j. j \<le> length s \<longrightarrow> \<not> in_pattern (piece s i j)
   | Some (so, eo) \<Rightarrow> 0 < so \<and> in_pattern (piece s (so - 1) eo) \<and>
       (\<forall>i j. j \<le> length s \<and> in_pattern (piece s i j) \<longrightarrow> so - 1 < i \<or> so - 1 = i \<and> j \<le> eo)"
proof (induction s)
  case Nil
  then show ?case by (simp add: piece_def)
next
  case (Cons c cs)
  have later: "\<exists>i' j'. i = Suc i' \<and> j = Suc j' \<and> in_pattern (piece cs i' j')"
    if "in_pattern (piece (c # cs) i j)" "i \<noteq> 0" for i j
    using that by (cases i; cases j) auto
  show ?case
  proof (cases "if c = SLASH then regroup cs else None")
    case (Some n)
    then have c: "c = SLASH" and n: "regroup cs = Some n" by (simp_all split: if_splits)
    have "j \<le> Suc n" if "j \<le> Suc (length cs)" "in_pattern (piece (c # cs) 0 j)" for j
    proof (cases j)
      case (Suc j')
      then show ?thesis using regroup_longest [of j' cs] that c n by auto
    qed simp
    then show ?thesis using c n regroup_match [OF n] by auto
  next
    case None
    have start: "\<not> in_pattern (piece (c # cs) 0 j)" if "j \<le> Suc (length cs)" for j
    proof
      assume p: "in_pattern (piece (c # cs) 0 j)"
      then obtain j' where j: "j = Suc j'" by (cases j) auto
      with p have "c = SLASH" by (cases "c = SLASH") auto
      with p j that None show False using regroup_longest [of j' cs] by auto
    qed
    show ?thesis
    proof (cases "regexec cs")
      case rest: None
      have "\<not> in_pattern (piece (c # cs) i j)" if "j \<le> Suc (length cs)" for i j
        using later [of i j] start [of j] that Cons.IH rest by (cases "i = 0") auto
      then show ?thesis using None rest by simp
    next
      case (Some a)
      then obtain so eo where a: "regexec cs = Some (so, eo)" by (cases a) auto
      with Cons.IH have IH: "0 < so" "in_pattern (piece cs (so - 1) eo)"
        "\<And>i j. j \<le> length cs \<Longrightarrow> in_pattern (piece cs i j) \<Longrightarrow> so - 1 < i \<or> so - 1 = i \<and> j \<le> eo" by auto
      have "so < i \<or> so = i \<and> j \<le> Suc eo"
        if j: "j \<le> Suc (length cs)" and p: "in_pattern (piece (c # cs) i j)" for i j
      proof -
        have "i \<noteq> 0" using start [OF j] p by metis
        with later [OF p] obtain i' j' where "i = Suc i'" "j = Suc j'" "in_pattern (piece cs i' j')" by blast
        with IH(3) [of j' i'] j IH(1) show ?thesis by auto
      qed
      moreover have "in_pattern (piece (c # cs) so (Suc eo))" using IH(1,2) by (cases so) auto
      ultimately show ?thesis using None a IH(1) by auto
    qed
  qed
qed

subsection \<open>Components\<close>

text \<open>A text as its components, the pieces between the slashes, and back.\<close>

fun comps :: "byte list \<Rightarrow> byte list list" where
  "comps [] = [[]]"
| "comps (c # cs) =
     (if c = SLASH then [] # comps cs
      else case comps cs of [] \<Rightarrow> [[c]] | x # xs \<Rightarrow> (c # x) # xs)"

fun path_of :: "byte list list \<Rightarrow> byte list" where
  "path_of [] = []"
| "path_of [x] = x"
| "path_of (x # y # ys) = x @ SLASH # path_of (y # ys)"

definition slash_free :: "byte list list \<Rightarrow> bool" where
  "slash_free cs \<longleftrightarrow> (\<forall>c \<in> set cs. SLASH \<notin> set c)"

lemma slash_free_simps [simp]:
  "slash_free []" "slash_free (c # cs) \<longleftrightarrow> SLASH \<notin> set c \<and> slash_free cs"
  "slash_free (xs @ ys) \<longleftrightarrow> slash_free xs \<and> slash_free ys"
  by (auto simp: slash_free_def)

lemma comps_not_Nil [simp]: "comps s \<noteq> []"
  by (induction s) (auto split: list.splits)

lemma slash_free_comps [simp]: "slash_free (comps s)"
  by (induction s) (auto split: list.splits)

lemma path_of_comps [simp]: "path_of (comps s) = s"
proof (induction s)
  case (Cons c s)
  obtain x xs where x: "comps s = x # xs" by (cases "comps s") auto
  with Cons show ?case by (cases xs) auto
qed simp

lemma comps_name: "SLASH \<notin> set x \<Longrightarrow> comps x = [x]"
  by (induction x) auto

lemma comps_name_slash: "SLASH \<notin> set x \<Longrightarrow> comps (x @ SLASH # s) = x # comps s"
  by (induction x) auto

lemma comps_path_of: "cs \<noteq> [] \<Longrightarrow> slash_free cs \<Longrightarrow> comps (path_of cs) = cs"
  by (induction cs rule: path_of.induct) (auto simp: comps_name comps_name_slash)

text \<open>What a match cuts out of the components behind a slash; where it is in the whole.\<close>

fun drop_some :: "byte list list \<Rightarrow> byte list list option" where
  "drop_some (c1 # c2 # cs) =
     (if c1 \<noteq> [] \<and> c2 = dotdot \<and> cs \<noteq> [] then Some cs
      else if c1 = dot then Some (c2 # cs) else None)"
| "drop_some _ = None"

fun reduce :: "byte list list \<Rightarrow> byte list list option" where
  "reduce [] = None"
| "reduce (c0 # cs) =
     (case drop_some cs of
        Some r \<Rightarrow> Some (c0 # r)
      | None \<Rightarrow> map_option ((#) c0) (reduce cs))"

lemma take2_name: "SLASH \<notin> set c \<Longrightarrow> take 2 (c @ SLASH # s) = [46, SLASH] \<longleftrightarrow> c = dot"
  by (cases c; cases "tl c") (auto simp: dot_def)

lemma take3_name: "SLASH \<notin> set c \<Longrightarrow> take 3 (c @ SLASH # s) = [46, 46, SLASH] \<longleftrightarrow> c = dotdot"
  by (cases c; cases "tl c"; cases "tl (tl c)") (auto simp: dotdot_def numeral_eq_Suc)

lemma no_slash_take: "SLASH \<notin> set c \<Longrightarrow> take n c \<noteq> xs @ [SLASH]"
  by (metis in_set_conv_decomp in_set_takeD)

lemma takeWhile_name: "SLASH \<notin> set c \<Longrightarrow> takeWhile (\<lambda>x. x \<noteq> SLASH) (c @ SLASH # s) = c"
  by (subst takeWhile_append2) auto

lemma regroup_comps:
  assumes "cs \<noteq> []" and "slash_free cs"
  shows "case regroup (path_of cs) of
     None \<Rightarrow> drop_some cs = None
   | Some n \<Rightarrow> \<exists>r. drop_some cs = Some r \<and> drop n (path_of cs) = path_of r \<and> r \<noteq> [] \<and> slash_free r"
proof (cases cs rule: path_of.cases)
  case (2 x)
  have tw: "takeWhile (\<lambda>c. c \<noteq> SLASH) x = x" using assms 2 by auto
  have "take 2 x \<noteq> [46, SLASH]" using no_slash_take [of x 2 "[46]"] assms 2 by simp
  then have "regroup x = None" unfolding regroup_def Let_def tw by simp
  then show ?thesis using 2 by simp
next
  case (3 x y ys)
  have x: "takeWhile (\<lambda>c. c \<noteq> SLASH) (path_of cs) = x" using assms 3 by (simp add: takeWhile_name)
  have dd: "take 4 (SLASH # path_of (y # ys)) = [SLASH, 46, 46, SLASH] \<longleftrightarrow> y = dotdot \<and> ys \<noteq> []"
  proof (cases ys)
    case Nil
    then show ?thesis using no_slash_take [of y 3 "[46, 46]"] assms 3 by simp
  next
    case (Cons z zs)
    then show ?thesis using take3_name [of y "path_of (z # zs)"] assms 3 by simp
  qed
  have d: "take 2 (path_of cs) = [46, SLASH] \<longleftrightarrow> x = dot" using take2_name [of x] assms 3 by simp
  have ddpath: "drop 3 (path_of (dotdot # ys)) = path_of ys" if "ys \<noteq> []"
    using that by (cases ys) (simp_all add: dotdot_def)
  show ?thesis
    using x dd d assms 3 ddpath by (auto simp: regroup_def Let_def dot_def)
qed (use assms in simp)

lemma regexec_append:
  "SLASH \<notin> set x \<Longrightarrow> regexec (x @ s) = map_option (\<lambda>(so, eo). (length x + so, length x + eo)) (regexec s)"
  by (cases "regexec s"; induction x) auto

lemma regexec_comps:
  assumes "cs \<noteq> []" and "slash_free cs"
  shows "case regexec (path_of cs) of
     None \<Rightarrow> reduce cs = None
   | Some (so, eo) \<Rightarrow> \<exists>r. reduce cs = Some r \<and>
       take so (path_of cs) @ drop eo (path_of cs) = path_of r \<and> r \<noteq> [] \<and> slash_free r"
  using assms
proof (induction cs rule: path_of.induct)
  case (2 x)
  then show ?case using regexec_append [of x "[]"] by simp
next
  case (3 x y ys)
  let ?rest = "path_of (y # ys)"
  have rest: "path_of (x # y # ys) = x @ SLASH # ?rest" by simp
  have x: "SLASH \<notin> set x" "slash_free (y # ys)" using 3 by auto
  show ?case
  proof (cases "regroup ?rest")
    case (Some n)
    with regroup_comps [of "y # ys"] x obtain r where r: "drop_some (y # ys) = Some r"
      "drop n ?rest = path_of r" "r \<noteq> []" "slash_free r" by auto
    have "regexec (path_of (x # y # ys)) = Some (Suc (length x), Suc (length x) + n)"
      unfolding rest regexec_append [OF x(1)] by (simp add: Some)
    moreover have "take (Suc (length x)) (x @ SLASH # ?rest) @ drop (Suc (length x) + n) (x @ SLASH # ?rest)
        = path_of (x # r)"
      using r(2,3) by (cases r) simp_all
    ultimately show ?thesis using r x by simp
  next
    case None
    with regroup_comps [of "y # ys"] x have d: "drop_some (y # ys) = None" by simp
    show ?thesis
    proof (cases "regexec ?rest")
      case rn: None
      with 3 have "reduce (y # ys) = None" by simp
      then show ?thesis unfolding rest regexec_append [OF x(1)] by (simp add: None rn d del: reduce.simps)
         (simp add: d)
    next
      case (Some a)
      then obtain so eo where a: "regexec ?rest = Some (so, eo)" by (cases a) auto
      with 3 obtain r where r: "reduce (y # ys) = Some r" "take so ?rest @ drop eo ?rest = path_of r"
        "r \<noteq> []" "slash_free r" by auto
      have "regexec (path_of (x # y # ys)) = Some (Suc (length x + so), Suc (length x + eo))"
        unfolding rest regexec_append [OF x(1)] by (simp add: None a)
      moreover have "take (Suc (length x + so)) (x @ SLASH # ?rest) @ drop (Suc (length x + eo)) (x @ SLASH # ?rest)
          = path_of (x # r)"
        using r(2,3) by (cases r) simp_all
      moreover have "reduce (x # y # ys) = Some (x # r)" using d r(1) by (simp del: drop_some.simps)
      ultimately show ?thesis using r x by simp
    qed
  qed
qed simp

subsection \<open>One pass with a stack\<close>

text \<open>
  The components between the first and the last, in order, on a stack of those kept: \<^verbatim>\<open>..\<close>
  takes one off, whatever it is, unless it is empty; \<^verbatim>\<open>.\<close> disappears, with a \<^verbatim>\<open>..\<close> right behind it.
\<close>

fun collapse :: "byte list list \<Rightarrow> byte list list \<Rightarrow> byte list list" where
  "collapse st [] = rev st"
| "collapse st (c # cs) =
     (if c = dotdot \<and> st \<noteq> [] \<and> hd st \<noteq> [] then collapse (tl st) cs
      else if c = dot then (if cs \<noteq> [] \<and> hd cs = dotdot then collapse st (tl cs) else collapse st cs)
      else collapse (c # st) cs)"

definition shortened :: "byte list list \<Rightarrow> byte list list" where
  "shortened cs = (if length cs < 2 then cs else hd cs # collapse [] (butlast (tl cs)) @ [last cs])"

text \<open>Kept components contain nothing more to cut.\<close>

fun calm :: "byte list list \<Rightarrow> bool" where
  "calm [] = True"
| "calm [x] = (x \<noteq> dot)"
| "calm (x # y # ys) = (x \<noteq> dot \<and> (y = dotdot \<longrightarrow> x = []) \<and> calm (y # ys))"

lemma calm_append:
  "calm (xs @ [y]) \<longleftrightarrow> calm xs \<and> y \<noteq> dot \<and> (xs \<noteq> [] \<longrightarrow> y = dotdot \<longrightarrow> last xs = [])"
  by (induction xs rule: calm.induct) auto

lemma dots [simp]: "dot \<noteq> dotdot" "dotdot \<noteq> dot" "dotdot \<noteq> []" "dot \<noteq> []"
  by (simp_all add: dot_def dotdot_def)

lemma reduce_calm: "calm pre \<Longrightarrow> reduce (c0 # pre @ [l]) = None"
proof (induction pre arbitrary: c0 rule: calm.induct)
  case (2 x)
  then show ?case by simp
qed auto

lemma reduce_dotdot:
  "calm (pre @ [x]) \<Longrightarrow> x \<noteq> [] \<Longrightarrow> cs \<noteq> [] \<Longrightarrow> reduce (c0 # pre @ x # dotdot # cs) = Some (c0 # pre @ cs)"
  by (induction pre arbitrary: c0 rule: calm.induct) auto

lemma reduce_dot:
  "calm pre \<Longrightarrow> cs \<noteq> [] \<Longrightarrow>
   reduce (c0 # pre @ dot # cs) = Some (c0 # pre @ (if hd cs = dotdot \<and> tl cs \<noteq> [] then tl cs else cs))"
  by (induction pre arbitrary: c0 rule: calm.induct) (cases cs; auto)+

text \<open>The loop on arrays, through the components of its string.\<close>

lemma shortpath_comps:
  "terminated b \<Longrightarrow>
   (case reduce (comps (cstr b)) of
      None \<Rightarrow> shortpath b = b
    | Some r \<Rightarrow> \<exists>b'. shortpath b = shortpath b' \<and> terminated b' \<and> comps (cstr b') = r)"
proof -
  assume t: "terminated b"
  show ?thesis
  proof (cases "regexec (cstr b)")
    case None
    with regexec_comps [of "comps (cstr b)"] show ?thesis by (simp add: shortpath.simps [of b])
  next
    case (Some a)
    then obtain so eo where a: "regexec (cstr b) = Some (so, eo)" by (cases a) auto
    with regexec_comps [of "comps (cstr b)"] obtain r where r: "reduce (comps (cstr b)) = Some r"
      "take so (cstr b) @ drop eo (cstr b) = path_of r" "r \<noteq> []" "slash_free r" by auto
    have le: "so < eo" "eo \<le> length (cstr b)" using regexec_le [OF a] by auto
    have "terminated (cut b so eo)"
      using cstr_cut [OF le] length_cstr_less [OF t] le by (auto simp: cut_def Let_def memmove_def intro!: terminated_update)
    moreover have "comps (cstr (cut b so eo)) = r"
      using cstr_cut(1) [OF le] r by (simp add: comps_path_of)
    ultimately show ?thesis using r(1) a by (auto simp: shortpath.simps [of b])
  qed
qed

lemma shortpath_collapse:
  "calm (rev st) \<Longrightarrow> terminated b \<Longrightarrow> comps (cstr b) = c0 # rev st @ mid @ [l] \<Longrightarrow>
   comps (cstr (shortpath b)) = c0 # collapse st mid @ [l]"
proof (induction st mid arbitrary: b rule: collapse.induct)
  case (1 st)
  with shortpath_comps [of b] reduce_calm [of "rev st" c0 l] show ?case by simp
next
  case (2 st c cs)
  consider "c = dotdot" "st \<noteq> []" "hd st \<noteq> []" | "c = dot"
    | "\<not> (c = dotdot \<and> st \<noteq> [] \<and> hd st \<noteq> [])" "c \<noteq> dot" by blast
  then show ?case
  proof cases
    case 1
    then obtain x xs where st: "st = x # xs" by (cases st) auto
    have "reduce (comps (cstr b)) = Some (c0 # rev xs @ cs @ [l])"
      using reduce_dotdot [of "rev xs" x "cs @ [l]" c0] 2 1 st by simp
    with shortpath_comps [OF "2.prems"(2)] obtain b' where "shortpath b = shortpath b'" "terminated b'"
      "comps (cstr b') = c0 # rev (tl st) @ cs @ [l]" by (auto simp: st)
    moreover have "calm (rev (tl st))" using "2.prems"(1) by (simp add: st calm_append)
    ultimately show ?thesis using "2.IH"(1) 1 by simp
  next
    case 2
    let ?cs = "if cs \<noteq> [] \<and> hd cs = dotdot then tl cs else cs"
    have "reduce (comps (cstr b)) = Some (c0 # rev st @ ?cs @ [l])"
      using reduce_dot [of "rev st" "cs @ [l]" c0] "2.prems" 2 by (cases cs) auto
    with shortpath_comps [OF "2.prems"(2)] obtain b' where "shortpath b = shortpath b'" "terminated b'"
      "comps (cstr b') = c0 # rev st @ ?cs @ [l]" by auto
    then show ?thesis using "2.IH"(2,3) 2 "2.prems"(1) by (auto split: if_splits)
  next
    case 3
    have "calm (rev (c # st))" using calm_append [of "rev st" c] "2.prems"(1) 3 by (auto simp: last_rev)
    with "2.IH"(4) 3 "2.prems" show ?thesis by auto
  qed
qed

text \<open>
  C23: the loop over the regular expression computes on the array what one pass with a
  stack computes on the components of the path, for every path.
\<close>

theorem shortpath_is_stack_machine:
  assumes "terminated b"
  shows "comps (cstr (shortpath b)) = shortened (comps (cstr b))"
proof (cases "length (comps (cstr b)) < 2")
  case True
  then obtain x where "comps (cstr b) = [x]" using comps_not_Nil [of "cstr b"] by (cases "comps (cstr b)") auto
  with shortpath_comps [OF assms] show ?thesis by (simp add: shortened_def)
next
  case False
  then obtain c0 rest where c: "comps (cstr b) = c0 # rest" "rest \<noteq> []"
    by (cases "comps (cstr b)") auto
  then have "comps (cstr b) = c0 # rev [] @ butlast rest @ [last rest]" by simp
  from shortpath_collapse [OF _ assms this] c show ?thesis by (simp add: shortened_def)
qed

lemma shortpath_is_stack_machine_witness:
  "path_of (shortened (comps (bytes ''~/aaa/bbb/../ccc/../ddd''))) = bytes ''~/aaa/ddd'' \<and>
   cstr (shortpath (bytes ''~/aaa/bbb/../ccc/../ddd'' @ [0])) = bytes ''~/aaa/ddd''"
proof -
  let ?b = "bytes ''~/aaa/bbb/../ccc/../ddd'' @ [0]"
  have t: "terminated ?b" by simp
  have s: "path_of (shortened (comps (bytes ''~/aaa/bbb/../ccc/../ddd''))) = bytes ''~/aaa/ddd''"
    "cstr ?b = bytes ''~/aaa/bbb/../ccc/../ddd''" by code_simp+
  from shortpath_is_stack_machine [OF t] have
    "path_of (comps (cstr (shortpath ?b))) = path_of (shortened (comps (cstr ?b)))" by (simp only:)
  with s show ?thesis by simp
qed

subsection \<open>The same directory\<close>

text \<open>Where the components of an absolute path lead in a tree of directories, from the root down.\<close>

fun walk :: "byte list list \<Rightarrow> byte list list \<Rightarrow> byte list list" where
  "walk d [] = d"
| "walk d (c # cs) =
     walk (if c = [] \<or> c = dot then d else if c = dotdot then tl d else c # d) cs"

lemma walk_append: "walk d (xs @ ys) = walk (walk d xs) ys"
  by (induction xs arbitrary: d) auto

text \<open>No \<^verbatim>\<open>.\<close> right in front of a \<^verbatim>\<open>..\<close>.\<close>

fun no_dot_up :: "byte list list \<Rightarrow> bool" where
  "no_dot_up (c # d # cs) = (\<not> (c = dot \<and> d = dotdot) \<and> no_dot_up (d # cs))"
| "no_dot_up _ = True"

text \<open>A stack of kept names, with at most one \<^verbatim>\<open>..\<close>, at its bottom.\<close>

definition kept :: "byte list list \<Rightarrow> bool" where
  "kept st \<longleftrightarrow> [] \<notin> set st \<and> dot \<notin> set st \<and> dotdot \<notin> set (butlast st)"

lemma kept_Cons: "kept (c # st) \<longleftrightarrow> kept st \<and> c \<noteq> [] \<and> c \<noteq> dot \<and> (c = dotdot \<longrightarrow> st = [])"
  by (auto simp: kept_def)

lemma walk_kept: "kept st \<Longrightarrow> walk [] (rev st) = filter (\<lambda>c. c \<noteq> dotdot) st"
  by (induction st) (auto simp: kept_Cons walk_append)

lemma walk_collapse:
  "kept st \<Longrightarrow> [] \<notin> set cs \<Longrightarrow> no_dot_up cs \<Longrightarrow>
   walk [] (collapse st cs) = walk (filter (\<lambda>c. c \<noteq> dotdot) st) cs"
proof (induction st cs rule: collapse.induct)
  case (1 st)
  then show ?case by (simp add: walk_kept)
next
  case (2 st c cs)
  have up: "no_dot_up cs" "\<not> (c = dot \<and> cs \<noteq> [] \<and> hd cs = dotdot)"
    using "2.prems"(3) by (cases cs; simp)+
  consider x xs where "c = dotdot" "st = x # xs" | "c = dotdot" "st = []" | "c = dot"
    | "c \<noteq> dotdot" "c \<noteq> dot" by (cases st) auto
  then show ?case
  proof cases
    case 1
    then have "x \<noteq> []" "kept xs" "x = dotdot \<Longrightarrow> xs = []" using "2.prems"(1) by (auto simp: kept_Cons)
    then show ?thesis using "2.IH"(1) "2.prems"(2) up 1 by auto
  next
    case 2
    then show ?thesis using "2.IH"(4) "2.prems" up by (auto simp: kept_def)
  next
    case 3
    then show ?thesis using "2.IH"(3) "2.prems" up by auto
  next
    case 4
    then show ?thesis using "2.IH"(4) "2.prems" up by (auto simp: kept_Cons)
  qed
qed

text \<open>
  C24: the shortened path leads to the same place, for an absolute path whose inner
  components are not empty and have no \<^verbatim>\<open>.\<close> right in front of a \<^verbatim>\<open>..\<close>, however deep the \<^verbatim>\<open>..\<close> go
  above the root.  (Of \<^verbatim>\<open>/a/./../b\<close> the code makes \<^verbatim>\<open>/a/b\<close>: the longest match takes the \<^verbatim>\<open>.\<close>
  for the name the \<^verbatim>\<open>..\<close> cancels.)
\<close>

theorem shortpath_same_place:
  assumes "terminated b" and "comps (cstr b) = [] # mid @ [l]" and "[] \<notin> set mid" and "no_dot_up mid"
  shows "walk [] (comps (cstr (shortpath b))) = walk [] (comps (cstr b))"
proof -
  have "comps (cstr (shortpath b)) = [] # collapse [] mid @ [l]"
    using shortpath_collapse [of "[]" b "[]" mid l] assms(1,2) by simp
  moreover have "walk [] (collapse [] mid) = walk [] mid"
    using walk_collapse [of "[]" mid] assms(3,4) by (simp add: kept_def)
  ultimately show ?thesis using assms(2) by (simp add: walk_append)
qed

lemma shortpath_same_place_witness:
  "walk [] (comps (cstr (shortpath (bytes ''/../aaa/./bbb/../ccc'' @ [0]))))
     = [bytes ''ccc'', bytes ''aaa'']"
proof -
  let ?b = "bytes ''/../aaa/./bbb/../ccc'' @ [0]"
  let ?mid = "[dotdot, bytes ''aaa'', dot, bytes ''bbb'', dotdot]"
  have t: "terminated ?b" by simp
  have c: "comps (cstr ?b) = [] # ?mid @ [bytes ''ccc'']" "[] \<notin> set ?mid" "no_dot_up ?mid"
    "walk [] (comps (cstr ?b)) = [bytes ''ccc'', bytes ''aaa'']" by code_simp+
  from shortpath_same_place [OF t c(1-3)] c(4) show ?thesis by simp
qed

lemma dot_is_cancelled: "cstr (shortpath (bytes ''/a/./../b'' @ [0])) = bytes ''/a/b''"
proof -
  let ?b = "bytes ''/a/./../b'' @ [0]"
  have "regexec (cstr ?b) = Some (3, 8)" "cstr (cut ?b 3 8) = bytes ''/a/b''" "regexec (bytes ''/a/b'') = None"
    by code_simp+
  then show ?thesis by (simp add: shortpath.simps)
qed

subsection \<open>The program\<close>

text \<open>
  What \<^verbatim>\<open>main\<close> writes for its arguments, one line each; \<open>None\<close> when the output file it was
  given could not be opened, as it then writes through a null \<^verbatim>\<open>FILE\<close>.
\<close>

definition shortpath_main :: "bool \<Rightarrow> bool \<Rightarrow> byte list list \<Rightarrow> byte list option" where
  "shortpath_main output opened args =
     (if output \<and> \<not> opened then None
      else Some (concat (map (\<lambda>arg. cstr (shortpath arg) @ [LF]) args)))"

end
