(* ===== verification/Digits.thy ===== *)
theory Digits
  imports Prelude
begin

text \<open>
  Reading a number from its digits, \<^verbatim>\<open>is_digits\<close> of
  \<^verbatim>\<open>src/re2c_lemon/any_parser/scanner/util.c\<close>, with \<^verbatim>\<open>unsigned long\<close> as 64-bit words.
\<close>

type_synonym ulong = "64 word"

definition ULONG_MAX :: ulong where "ULONG_MAX = -1"

text \<open>\<^verbatim>\<open>d\<close>, an \<^verbatim>\<open>int\<close>, as it is converted in the arithmetic with \<^verbatim>\<open>unsigned long\<close>.\<close>

definition digit :: "byte \<Rightarrow> ulong" where
  "digit c = word_of_int (uint c - 48)"

fun digits_loop :: "ulong \<Rightarrow> byte list \<Rightarrow> ulong \<Rightarrow> bool \<Rightarrow> bool \<times> ulong" where
  "digits_loop base [] acc ret = (ret, acc)"
| "digits_loop base (c # cs) acc ret =
     (let d = digit c;
          ret = (if (ULONG_MAX - d) div base < acc then True else ret) in
      digits_loop base cs (acc * base + d) ret)"

text \<open>The result and the value stored; \<open>None\<close> is a division by the base 0.\<close>

definition is_digits :: "byte list \<Rightarrow> int \<Rightarrow> (bool \<times> ulong) option" where
  "is_digits s base =
     (if base = 0 \<and> s \<noteq> [] then None else Some (digits_loop (word_of_int base) s 0 False))"

subsection \<open>Exactness\<close>

text \<open>The number the digits stand for.\<close>

definition number :: "nat \<Rightarrow> byte list \<Rightarrow> nat" where
  "number base s = foldl (\<lambda>v c. v * base + (unat c - 48)) 0 s"

text \<open>A string of the digits 0 to 9, each less than the base.\<close>

definition digits_ok :: "nat \<Rightarrow> byte list \<Rightarrow> bool" where
  "digits_ok base s \<longleftrightarrow> (\<forall>c \<in> set s. 48 \<le> unat c \<and> unat c \<le> 57 \<and> unat c < 48 + base)"

lemma unat_digit:
  assumes "48 \<le> unat c"
  shows "digit c = of_nat (unat c - 48)"
proof -
  have "uint c - 48 = int (unat c - 48)" using assms by (simp add: of_nat_diff)
  then show ?thesis by (simp only: digit_def of_int_of_nat_eq)
qed

lemma unat_small: "n < 2 ^ 64 \<Longrightarrow> unat (of_nat n :: ulong) = n"
  by (simp add: unat_of_nat)

lemma room_left: "d < (N :: nat) \<Longrightarrow> N - 1 - d < x \<longleftrightarrow> N \<le> x + d"
  by arith

lemma unat_room:
  assumes "d < 256"
  shows "unat (ULONG_MAX - of_nat d) = 2 ^ 64 - 1 - d"
proof -
  have d: "unat (of_nat d :: ulong) = d" using assms by (intro unat_small) simp
  have "(of_nat d :: ulong) \<le> ULONG_MAX" by (simp add: ULONG_MAX_def)
  then have "unat (ULONG_MAX - of_nat d) = unat ULONG_MAX - d" by (simp add: unat_sub d)
  moreover have "unat ULONG_MAX = 2 ^ 64 - 1"
    by (simp add: ULONG_MAX_def unsigned_minus_1_eq_mask mask_eq_exp_minus_1)
  ultimately show ?thesis by simp
qed

text \<open>One step: on sums that are exact the test sees exactly the overflow.\<close>

lemma overflow_test:
  assumes "v < 2 ^ 64" and "d < 256" and "0 < b" and "b < 2 ^ 64"
  shows "(ULONG_MAX - of_nat d) div of_nat b < (of_nat v :: ulong) \<longleftrightarrow> 2 ^ 64 \<le> v * b + d"
proof -
  have "(ULONG_MAX - of_nat d) div of_nat b < (of_nat v :: ulong) \<longleftrightarrow> (2 ^ 64 - 1 - d) div b < v"
    by (simp only: word_less_nat_alt unat_div unat_small [OF assms(1)] unat_small [OF assms(4)]
        unat_room [OF assms(2)])
  also have "\<dots> \<longleftrightarrow> 2 ^ 64 - 1 - d < v * b"
    using assms(3) by (simp only: div_less_iff_less_mult)
  also have "\<dots> \<longleftrightarrow> 2 ^ 64 \<le> v * b + d"
    by (rule room_left) (rule less_trans [OF assms(2)], simp)
  finally show ?thesis .
qed

lemma digits_loop_exact:
  assumes "0 < b" and "b < 200"
  shows "digits_ok b cs \<Longrightarrow> (ret \<longleftrightarrow> 2 ^ 64 \<le> v) \<Longrightarrow>
    digits_loop (of_nat b) cs (of_nat v) ret =
      (2 ^ 64 \<le> foldl (\<lambda>v c. v * b + (unat c - 48)) v cs,
       of_nat (foldl (\<lambda>v c. v * b + (unat c - 48)) v cs))"
proof (induction cs arbitrary: v ret)
  case (Cons c cs)
  let ?d = "unat c - 48"
  let ?ret = "if (ULONG_MAX - digit c) div of_nat b < (of_nat v :: ulong) then True else ret"
  have c: "48 \<le> unat c" "?d < 256" "digits_ok b cs" using Cons.prems(1) assms(2) by (auto simp: digits_ok_def)
  have "?ret \<longleftrightarrow> 2 ^ 64 \<le> v * b + ?d"
  proof (cases "v < 2 ^ 64")
    case True
    have "b < 2 ^ 64" using assms(2) by simp
    with overflow_test [OF True c(2) assms(1)] Cons.prems(2) True show ?thesis
      unfolding unat_digit [OF c(1)] by simp
  next
    case False
    then have "2 ^ 64 \<le> v * b + ?d" using assms(1) by (metis le_add1 le_trans mult_le_mono2 mult_1_right not_less
        Suc_leI One_nat_def)
    with False Cons.prems(2) show ?thesis by simp
  qed
  from Cons.IH [OF c(3) this] show ?case
    unfolding digits_loop.simps Let_def by (simp add: unat_digit [OF c(1)])
qed simp

text \<open>
  C33: in base 8, 10 or 16, for a string of the digits 0 to 9 each less than the base, the
  value stored is the number modulo \<open>2 ^ 64\<close>, and the result is 1 exactly when the number does
  not fit: the test in front of each step misses no overflow and reports none that does not
  happen.  The letters of a hexadecimal number are not read as its digits: \<^verbatim>\<open>a\<close> to \<^verbatim>\<open>f\<close> count
  49 to 54.
\<close>

theorem is_digits_exact:
  assumes "base \<in> {8, 10, 16}" and "digits_ok base s" and "97 \<le> unat c" and "unat c \<le> 102"
  shows "is_digits s (int base) = Some (2 ^ 64 \<le> number base s, of_nat (number base s)) \<and>
     is_digits [c] 16 = Some (False, of_nat (unat c - 48))"
proof
  have b: "0 < base" "base < 200" using assms(1) by auto
  from digits_loop_exact [OF b assms(2), of False 0] b
  show "is_digits s (int base) = Some (2 ^ 64 \<le> number base s, of_nat (number base s))"
    by (simp add: is_digits_def number_def)
  show "is_digits [c] 16 = Some (False, of_nat (unat c - 48))"
    using assms(3) unat_digit [of c] by (simp add: is_digits_def)
qed

lemma is_digits_exact_witness:
  "is_digits (bytes ''18446744073709551616'') (int 10) = Some (True, 0) \<and>
   is_digits (bytes ''a'') 16 = Some (False, 49)"
proof -
  let ?s = "bytes ''18446744073709551616''"
  have ok: "digits_ok 10 ?s" and n: "number 10 ?s = 2 ^ 64"
    by (simp_all add: digits_ok_def number_def bytes_def)
  from is_digits_exact [OF _ ok, of 97] show ?thesis unfolding n by (simp add: bytes_def)
qed

end
