(* ===== verification/Input_Fill.thy ===== *)
theory Input_Fill
  imports Refill
begin

text \<open>
  The input buffer of the tokenizer and of \<^verbatim>\<open>any_parser\<close>, \<^verbatim>\<open>src/tokenizer/scanner/input.c\<close>
  and its copy \<^verbatim>\<open>src/re2c_lemon/any_parser/scanner/input.c\<close>.  Pointers into the buffer are
  indexes; the stream is the bytes it has not delivered yet.  The scanners generated from the
  \<^verbatim>\<open>.re\<close> files are not in the repository; what they rely on is the contract of the locale
  \<open>refill\<close>, which \<^verbatim>\<open>fill\<close> is proved to keep.
\<close>

definition INPUT_SIZE :: nat where
  "INPUT_SIZE = 4096"

record inp =
  i_buf :: "byte list"
  i_lim :: nat
  i_cur :: nat
  i_mar :: int
  i_tok :: nat
  i_eof :: bool
  i_rest :: "byte list"

text \<open>\<^verbatim>\<open>Input_Init\<close>, given the block \<^verbatim>\<open>malloc\<close> returned; the result is 1 without one.\<close>

definition Input_Init :: "byte list option \<Rightarrow> inp \<Rightarrow> int \<times> inp" where
  "Input_Init block s =
     (case block of
        None \<Rightarrow> (1, s\<lparr>i_buf := []\<rparr>)
      | Some b \<Rightarrow>
          (0, s\<lparr>i_buf := b[INPUT_SIZE := 0], i_lim := INPUT_SIZE, i_cur := INPUT_SIZE,
               i_mar := int INPUT_SIZE, i_tok := INPUT_SIZE, i_eof := False\<rparr>))"

definition Input_SetStream :: "byte list \<Rightarrow> inp \<Rightarrow> inp" where
  "Input_SetStream file s = s\<lparr>i_rest := file\<rparr>"

text \<open>\<^verbatim>\<open>fill\<close>: 0 on success, 1 at the end of the stream, 2 when the token fills the buffer.\<close>

definition input_fill :: "inp \<Rightarrow> (int \<times> inp) option" where
  "input_fill s =
     (let shift = i_tok s; used = i_lim s - i_tok s in
      if i_eof s then Some (1, s)
      else if shift < 1 then Some (2, s)
      else if i_lim s < i_tok s \<or> INPUT_SIZE < used then None
      else
        (let got = take (INPUT_SIZE - used) (i_rest s); start = i_lim s - shift; end_of = start + length got in
         case blit (slide (i_buf s) (i_tok s) used) start got of
           None \<Rightarrow> None
         | Some b \<Rightarrow>
             if length b \<le> end_of then None
             else Some (0, s\<lparr>i_buf := b[end_of := 0], i_lim := end_of, i_cur := i_cur s - shift,
                    i_mar := i_mar s - int shift, i_tok := 0, i_eof := end_of < INPUT_SIZE,
                    i_rest := drop (INPUT_SIZE - used) (i_rest s)\<rparr>)))"

subsection \<open>The contract\<close>

definition input_ok :: "inp \<Rightarrow> bool" where
  "input_ok s \<longleftrightarrow> length (i_buf s) = Suc INPUT_SIZE \<and> i_tok s \<le> i_cur s \<and> i_cur s \<le> i_lim s \<and>
     i_lim s \<le> INPUT_SIZE \<and> i_buf s ! i_lim s = 0 \<and> (i_eof s \<longrightarrow> i_rest s = [])"

definition from_token :: "inp \<Rightarrow> byte list" where
  "from_token s = drop (i_tok s) (take (i_lim s) (i_buf s)) @ i_rest s"

lemma init_ok:
  assumes "length b = Suc INPUT_SIZE"
  shows "input_ok (snd (Input_Init (Some b) s)) \<and> from_token (Input_SetStream file (snd (Input_Init (Some b) s))) = file"
  using assms by (simp add: Input_Init_def Input_SetStream_def input_ok_def from_token_def)

text \<open>
  From a well-formed buffer \<^verbatim>\<open>fill\<close> stays inside it; when it succeeds the bytes from the token
  on are the same, and there are more of them to look at or the stream has ended.
\<close>

lemma input_fill_ok:
  assumes s: "input_ok s" and e: "\<not> i_eof s" and t: "0 < i_tok s"
  obtains s' where "input_fill s = Some (0, s')" and "input_ok s'" and "from_token s' = from_token s"
    and "i_cur s' - i_tok s' = i_cur s - i_tok s"
    and "i_lim s - i_cur s \<le> i_lim s' - i_cur s'"
    and "i_eof s' \<or> i_lim s - i_cur s < i_lim s' - i_cur s'"
proof -
  let ?used = "i_lim s - i_tok s" and ?b = "slide (i_buf s) (i_tok s) (i_lim s - i_tok s)"
  let ?got = "take (INPUT_SIZE - ?used) (i_rest s)"
  have b: "length (i_buf s) = Suc INPUT_SIZE" "i_tok s \<le> i_cur s" "i_cur s \<le> i_lim s" "i_lim s \<le> INPUT_SIZE"
    using s by (auto simp: input_ok_def)
  have lb: "length ?b = Suc INPUT_SIZE" using b by (simp add: length_slide)
  have tb: "take ?used ?b = drop (i_tok s) (take (i_lim s) (i_buf s))"
    using b by (simp add: take_slide take_drop)
  have fits: "?used + length ?got \<le> length ?b" unfolding lb using b by auto
  then obtain b' where b': "blit ?b ?used ?got = Some b'" by (simp add: blit_Some)
  from blit_props [OF this] have lb': "length b' = Suc INPUT_SIZE"
    and tb': "take (?used + length ?got) b' = drop (i_tok s) (take (i_lim s) (i_buf s)) @ ?got"
    using lb tb by simp_all
  let ?s' = "s\<lparr>i_buf := b'[?used + length ?got := 0], i_lim := ?used + length ?got, i_cur := i_cur s - i_tok s,
      i_mar := i_mar s - int (i_tok s), i_tok := 0, i_eof := ?used + length ?got < INPUT_SIZE,
      i_rest := drop (INPUT_SIZE - ?used) (i_rest s)\<rparr>"
  have le: "?used + length ?got \<le> INPUT_SIZE" using b by auto
  have f: "input_fill s = Some (0, ?s')"
    using e t b b' lb' le by (simp add: input_fill_def Let_def)
  have ok: "input_ok ?s'"
    using b lb' le by (auto simp: input_ok_def min_def split: if_splits)
  have same: "from_token ?s' = from_token s"
    using tb' by (simp add: from_token_def)
  have more_of_it: "i_eof ?s' \<or> i_lim s - i_cur s < i_lim ?s' - i_cur ?s'"
    using b t by (simp, linarith)
  show thesis
  proof (rule that [OF f ok same _ _ more_of_it])
    show "i_cur ?s' - i_tok ?s' = i_cur s - i_tok s" by simp
    show "i_lim s - i_cur s \<le> i_lim ?s' - i_cur ?s'" using b by simp
  qed
qed

lemma input_fill_total:
  assumes s: "input_ok s"
  shows "input_fill s \<noteq> None"
proof (cases "i_eof s \<or> i_tok s = 0")
  case True
  then show ?thesis by (auto simp: input_fill_def Let_def)
next
  case False
  then have "\<not> i_eof s" "0 < i_tok s" by auto
  from input_fill_ok [OF s this] show ?thesis by (metis option.distinct(1))
qed

interpretation tokenizer: refill
  "\<lambda>s n. case input_fill s of Some (ret, s') \<Rightarrow> if ret = 0 then Some s' else None | None \<Rightarrow> None"
  from_token "\<lambda>s. i_cur s - i_tok s" "\<lambda>s. i_lim s - i_cur s" input_ok
proof unfold_locales
  show "input_ok s' \<and> from_token s' = from_token s \<and> i_cur s' - i_tok s' = i_cur s - i_tok s \<and>
      i_lim s - i_cur s \<le> i_lim s' - i_cur s'"
    if s: "input_ok s"
      and f: "(case input_fill s of Some (ret, s') \<Rightarrow> if ret = 0 then Some s' else None | None \<Rightarrow> None) = Some s'"
    for s s' and n :: nat
  proof -
    from f have f': "input_fill s = Some (0, s')" by (auto split: option.splits if_splits)
    then have "\<not> i_eof s" "0 < i_tok s" by (auto simp: input_fill_def Let_def split: if_splits)
    with input_fill_ok [OF s] f' show ?thesis by (metis option.inject prod.inject)
  qed
  show "i_cur s - i_tok s + (i_lim s - i_cur s) \<le> length (from_token s)" if "input_ok s" for s
    using that by (auto simp: input_ok_def from_token_def)
qed

text \<open>Any number of refills keeps what a scanner has seen and what it will see.\<close>

lemmas tokenizer_refills = tokenizer.refills_keep tokenizer.window_kept

end
