(* ===== verification/Line_Receiver.thy ===== *)
theory Line_Receiver
  imports Socket_Setup
begin

text \<open>
  The line receiver \<^verbatim>\<open>src/line/recvline/recvline.c\<close>: datagrams are appended to a buffer of
  1024 bytes, whole lines are printed and taken out of it.  The bytes of a \<^verbatim>\<open>char\<close> array on
  the stack before the first write are a parameter.
\<close>

subsection \<open>State\<close>

text \<open>
  \<^verbatim>\<open>struct userdata\<close>: the state, the line buffer, the socket and the last peer, which has length
  0 before the first datagram.
\<close>

record linedata =
  ld_state :: nat
  ld_lines :: "byte list"
  ld_soc :: int
  ld_info :: "byte list"

definition STATE_DEFAULT :: nat where "STATE_DEFAULT = 0"
definition STATE_WAITRES :: nat where "STATE_WAITRES = 2"

subsection \<open>A datagram\<close>

text \<open>The copying loop and the NUL behind it: the C string grows by the bytes received.\<close>

definition append_bytes :: "byte list \<Rightarrow> byte list \<Rightarrow> byte list option" where
  "append_bytes ls dat =
     (case strlen_c ls of
        None \<Rightarrow> None
      | Some n \<Rightarrow>
          if n + length dat < length ls then Some (take n ls @ dat @ 0 # drop (n + length dat + 1) ls) else None)"

text \<open>
  The loop over the lines: \<open>n\<close> bytes to go, at index \<open>i\<close>, the current line starts at \<open>pos\<close>.
\<close>

primrec split_loop ::
  "nat \<Rightarrow> nat \<Rightarrow> byte list \<Rightarrow> nat \<Rightarrow> nat \<Rightarrow> (byte list \<Rightarrow> nat \<Rightarrow> nat \<Rightarrow> 'a cprog) \<Rightarrow> 'a cprog"
where
  "split_loop 0 i ls pos st k = k ls pos st"
| "split_loop (Suc n) i ls pos st k =
     (if ls ! i = LF
      then
        (let ls = ls[i := 0]; line = cstr (drop pos ls) in
         if st = STATE_DEFAULT
         then eprintf ''[recvfrom] %s'' [PS line] (split_loop n (Suc i) ls (Suc i) st k)
         else if st = STATE_WAITRES
         then eprintf ''[cmdres] %s'' [PS line]
                (split_loop n (Suc i) ls (Suc i) (if line = bytes ''endcmd'' then STATE_DEFAULT else st) k)
         else split_loop n (Suc i) ls (Suc i) st k)
      else split_loop n (Suc i) ls pos st k)"

text \<open>
  The rest moves to the front; its length is taken again after that, at the place it was
  moved from.
\<close>

definition keep_rest :: "byte list \<Rightarrow> nat \<Rightarrow> byte list option" where
  "keep_rest ls pos =
     (case strlen_c (drop pos ls) of
        None \<Rightarrow> None
      | Some n \<Rightarrow>
          (let ls = memmove ls 0 pos n in
           case strlen_c (drop pos ls) of
             None \<Rightarrow> None
           | Some m \<Rightarrow> if m < length ls then Some (ls[m := 0]) else None))"

definition recvline_handler ::
  "byte list \<Rightarrow> int \<Rightarrow> evflag list \<Rightarrow> ptr \<Rightarrow> linedata \<Rightarrow> linedata cprog"
where
  "recvline_handler buf soc event ev d =
     (if EV_READ \<notin> set event then Ret d else
      Sys (Net (Recvfrom soc 512)) (\<lambda>r.
      if rv r = -1
      then perror ''recvfrom'' (call (Ev (Event_del ev)) (call (Proc (Free ev)) (close_fd soc (Ret d))))
      else if rv r = 0
      then eprintf ''recv:EOF'' [] (call (Ev (Event_del ev)) (close_fd soc (Ret d)))
      else
        Sys (Net (Getnameinfo (raddr r))) (\<lambda>rn.
        eprintf ''recvfrom:%s:%s:len=%d'' [PS (rdat rn), PI (rv r)] (
        need (append_bytes (ld_lines d) (rdat r)) OutOfBounds (\<lambda>ls.
        need (strlen_c ls) OutOfBounds (\<lambda>n.
        split_loop n 0 ls 0 (ld_state d) (\<lambda>ls pos st.
        need (keep_rest ls pos) OutOfBounds (\<lambda>ls.
        let d = \<lparr>ld_state = st, ld_lines = ls, ld_soc = soc, ld_info = raddr r\<rparr> in
        if streq (overlay buf (rdat r)) (bytes ''shutdown'')
        then eprintf ''shutdown server'' [] (call (Ev (Event_del ev)) (close_fd soc (
               call (Ev (Event_loopexit Null)) (Ret d))))
        else Ret d))))))))"

subsection \<open>A line from the terminal\<close>

definition recvline_stdin :: "byte list \<Rightarrow> int \<Rightarrow> linedata \<Rightarrow> unit cprog" where
  "recvline_stdin buf fd d =
     Sys (Io (Read fd 255)) (\<lambda>r.
     if rv r = -1 then perror ''read error'' (Ret ())
     else if rv r = 0 then perror ''closed'' (Ret ())
     else
       (let len = nat (rv r); b = overlay buf (rdat r) in
        store b (if b ! (len - 1) = LF then len - 1 else len) 0 (\<lambda>b.
        eprintf (''[stdin] read '' @ [CHR 0x27] @ ''%s'' @ [CHR 0x27]) [PS (cstr b)] (
        eprintf ''DEBUG: len is %d'' [PI (rv r)] (
        eprintf ''DEBUG: soc is %d'' [PI (ld_soc d)] (
        let finish = (if streq b (bytes ''exit'') then call (Ev (Event_loopexit Null)) (Ret ())
                      else oprintf ''> '' [] (Ret ())) in
        if ld_soc d \<noteq> 0 \<and> ld_info d \<noteq> []
        then Sys (Net (Sendto (ld_soc d) (take len b) (ld_info d))) (\<lambda>r.
             if rv r = -1 then perror ''sendto failed'' finish else finish)
        else finish))))))"

subsection \<open>Start\<close>

definition recvline_main :: "(char \<times> string) list \<Rightarrow> int cprog" where
  "recvline_main args =
     (let host = opt_arg (CHR ''h'') args; port = opt_arg (CHR ''p'') args in
      (if host = None then eprintf ''no host option'' [] else id)
      ((if port = None then eprintf ''no port option'' [] else id)
      (if host = None \<or> port = None then Exit 1
       else
         Sys (Proc Malloc) (\<lambda>rm.
         if rptr rm = Null then perror ''malloc'' (Exit 1)
         else
           call (Ev Event_init) (
           call (Ev (Signal_set (Local ''sig'') SIGINT ''sig_int_handler'' Null)) (
           call (Ev (Signal_add (Local ''sig''))) (
           andthen (receiver_socket (the host) (the port) (opt_arg (CHR ''m'') args)) (\<lambda>soc.
           if soc = -1 then eprintf ''receiver_socket failed'' [] (Exit 1)
           else
             call (Ev (Event_set (Local ''ev'') soc [EV_READ, EV_PERSIST] ''recv_handler'' (rptr rm))) (
             Sys (Ev (Event_add (Local ''ev''))) (\<lambda>r.
             if rv r \<noteq> 0 then perror ''event_add'' (close_fd soc (Exit 1))
             else
               call (Io (Setbuf ''stdin'')) (
               call (Io (Setbuf ''stdout'')) (
               call (Ev (Event_set (Local ''io_ev'') 0 [EV_READ, EV_PERSIST] ''stdin_handler'' (rptr rm))) (
               call (Ev (Event_add (Local ''io_ev''))) (
               oprintf ''> '' [] (
               call (Ev (Event_dispatch Null)) (
               eprintf ''END'' [] (
               call (Proc (Free (rptr rm))) (Ret 0))))))))))))))))))"

subsection \<open>Whole lines\<close>

text \<open>The whole lines of a stream, with \<open>cur\<close> read before, and what is left behind the last.\<close>

fun chop :: "byte list \<Rightarrow> byte list \<Rightarrow> byte list list \<times> byte list" where
  "chop cur [] = ([], cur)"
| "chop cur (c # cs) =
     (if c = LF then (let (ls, rest) = chop [] cs in (cur # ls, rest)) else chop (cur @ [c]) cs)"

lemma chop_append:
  "chop cur (xs @ ys) =
     (fst (chop cur xs) @ fst (chop (snd (chop cur xs)) ys), snd (chop (snd (chop cur xs)) ys))"
  by (induction cur xs rule: chop.induct) (auto simp: case_prod_beta)

lemma chop_rest: "LF \<notin> set cur \<Longrightarrow> LF \<notin> set (snd (chop cur xs))"
  by (induction cur xs rule: chop.induct) (auto simp: case_prod_beta)

lemma chop_plain: "LF \<notin> set xs \<Longrightarrow> chop cur xs = ([], cur @ xs)"
  by (induction cur xs rule: chop.induct) auto

lemma chop_bytes: "set (snd (chop cur xs)) \<subseteq> set cur \<union> set xs"
  by (induction cur xs rule: chop.induct) (auto simp: case_prod_beta)

text \<open>The lines a trace prints.\<close>

fun printed :: "trace \<Rightarrow> byte list list" where
  "printed [] = []"
| "printed ((Io (Fprintf Stderr f [PS line]), r) # t) =
     (if f = ''[recvfrom] %s'' then line # printed t else printed t)"
| "printed (_ # t) = printed t"

lemma printed_append: "printed (t1 @ t2) = printed t1 @ printed t2"
  by (induction t1 rule: printed.induct) auto

definition only_messages :: "trace \<Rightarrow> bool" where
  "only_messages t \<longleftrightarrow> (\<forall>c \<in> fst ` set t. \<exists>f as. c = Io (Fprintf Stderr f as))"

lemma split_loop_lines:
  assumes "exec (split_loop (length rest) (length (P @ cur)) (P @ cur @ rest @ 0 # Z) (length P) STATE_DEFAULT k) out t"
    and "0 \<notin> set cur" and "0 \<notin> set rest"
  shows "\<exists>P' t1 t2. t = t1 @ t2 \<and> printed t1 = fst (chop cur rest) \<and> only_messages t1 \<and>
     length (P' @ snd (chop cur rest)) = length (P @ cur @ rest) \<and>
     exec (k (P' @ snd (chop cur rest) @ 0 # Z) (length P') STATE_DEFAULT) out t2"
  using assms
proof (induction rest arbitrary: P cur t)
  case Nil
  then show ?case by (intro exI [of _ P] exI [of _ "[]"] exI [of _ t]) (simp add: only_messages_def)
next
  case (Cons c rest)
  have at: "(P @ cur @ c # xs) ! length (P @ cur) = c" "(P @ cur @ c # xs)[length (P @ cur) := 0] = P @ cur @ 0 # xs"
    for xs by (simp_all add: nth_append list_update_append)
  show ?case
  proof (cases "c = LF")
    case False
    with Cons.prems(1) at(1) [of "rest @ 0 # Z"] have
      "exec (split_loop (length rest) (length (P @ cur @ [c])) (P @ (cur @ [c]) @ rest @ 0 # Z) (length P) STATE_DEFAULT k) out t"
      by simp
    from Cons.IH [of P "cur @ [c]" t] this Cons.prems(2,3) False show ?thesis by simp
  next
    case True
    let ?P = "P @ cur @ [0]"
    have line: "cstr (drop (length P) (P @ cur @ 0 # xs)) = cur" for xs
      using Cons.prems(2) by simp
    from Cons.prems(1) obtain r t' where t: "t = (Io (Fprintf Stderr ''[recvfrom] %s'' [PS cur]), r) # t'"
      and e: "exec (split_loop (length rest) (length ?P) (?P @ [] @ rest @ 0 # Z) (length ?P) STATE_DEFAULT k) out t'"
      using at [of "rest @ 0 # Z"] line [of "rest @ 0 # Z"] True by (auto simp: Let_def)
    from Cons.IH [of ?P "[]" t'] e Cons.prems(3) obtain P' t1 t2 where
      "t' = t1 @ t2" "printed t1 = fst (chop [] rest)" "only_messages t1"
      "length (P' @ snd (chop [] rest)) = length (?P @ rest)"
      "exec (k (P' @ snd (chop [] rest) @ 0 # Z) (length P') STATE_DEFAULT) out t2" by auto
    then show ?thesis using t True
      by (intro exI [of _ P'] exI [of _ "(Io (Fprintf Stderr ''[recvfrom] %s'' [PS cur]), r) # t1"] exI [of _ t2])
        (auto simp: case_prod_beta only_messages_def)
  qed
qed

text \<open>
  The length taken after the move is the length before it: the NUL behind the rest is not
  overwritten, and what lies in front of it is only bytes of the rest.
\<close>

lemma strlen_c_at: "n < length xs \<Longrightarrow> xs ! n = 0 \<Longrightarrow> \<forall>j < n. xs ! j \<noteq> 0 \<Longrightarrow> strlen_c xs = Some n"
proof (induction xs arbitrary: n)
  case (Cons x xs)
  show ?case
  proof (cases n)
    case (Suc m)
    then have "x \<noteq> 0" "\<forall>j < m. xs ! j \<noteq> 0" using Cons.prems(3) by (auto simp: less_Suc_eq_0_disj)
    with Cons Suc show ?thesis by simp
  qed (use Cons.prems in simp)
qed simp

lemma keep_rest_eq:
  assumes "0 \<notin> set r"
  obtains b where "keep_rest (P @ r @ 0 # Z) (length P) = Some b" and "cstr b = r" and "terminated b"
    and "length b = length (P @ r @ 0 # Z)"
proof -
  let ?ls = "P @ r @ 0 # Z" and ?n = "length r"
  let ?m = "r @ drop ?n ?ls"
  have m: "memmove ?ls 0 (length P) ?n = ?m" by (simp add: memmove_def)
  have s1: "strlen_c (drop (length P) ?ls) = Some ?n" using assms by (simp add: strlen_c_eq)
  have nz: "r ! j \<noteq> 0" if "j < ?n" for j using assms that by (metis nth_mem)
  have "?m ! (length P + j) \<noteq> 0" if "j < ?n" for j
  proof (cases "length P + j < ?n")
    case False
    then have "?m ! (length P + j) = ?ls ! (length P + j)"
      using that by (subst nth_append) (simp del: drop_append)
    then show ?thesis using nz that by (simp add: nth_append)
  qed (use nz in \<open>simp add: nth_append\<close>)
  moreover have "?m ! (length P + ?n) = ?ls ! (length P + ?n)"
    by (subst nth_append) (simp add: add.commute del: drop_append)
  moreover have "?ls ! (length P + ?n) = 0"
    by (metis append.assoc length_append nth_append_length)
  ultimately have s2: "strlen_c (drop (length P) ?m) = Some ?n"
    by (intro strlen_c_at) (simp_all del: drop_append)
  have k: "keep_rest ?ls (length P) = Some (?m[?n := 0])"
    unfolding keep_rest_def s1 option.case Let_def m s2 by simp
  obtain y ys where ys: "drop ?n ?ls = y # ys" by (cases "drop ?n ?ls") auto
  have "length ys = length P + length Z" using arg_cong [OF ys, of length] by simp
  moreover have "?m[?n := 0] = r @ 0 # ys" unfolding ys by (simp add: list_update_append)
  moreover have "cstr (r @ 0 # ys) = r" using assms by simp
  ultimately show thesis using k by (intro that [of "?m[?n := 0]"]) auto
qed

subsection \<open>One datagram\<close>

text \<open>A line buffer between two datagrams: a string without a line end, in 1024 bytes.\<close>

definition buffer_ok :: "linedata \<Rightarrow> bool" where
  "buffer_ok d \<longleftrightarrow> length (ld_lines d) = 1024 \<and> terminated (ld_lines d) \<and>
     LF \<notin> set (cstr (ld_lines d)) \<and> ld_state d = STATE_DEFAULT"

lemma append_bytes_eq:
  assumes "terminated ls"
  shows "append_bytes ls dat = (if length (cstr ls) + length dat < length ls
     then Some ((cstr ls @ dat) @ 0 # drop (Suc (length (cstr ls) + length dat)) ls) else None)"
proof -
  have "take (length (cstr ls)) ls = cstr ls" by (simp add: cstr_def takeWhile_eq_take [symmetric])
  with assms show ?thesis by (simp add: append_bytes_def strlen_c_eq)
qed

text \<open>The answer to a \<^verbatim>\<open>recvfrom\<close> that delivers bytes, none of them NUL.\<close>

definition datagram :: "resp \<Rightarrow> bool" where
  "datagram r \<longleftrightarrow> 0 < rv r \<and> int (length (rdat r)) = rv r \<and> 0 \<notin> set (rdat r)"

lemma datagram_lines_aux:
  assumes "buffer_ok d" and "datagram r"
    and "exec (recvline_handler buf soc [EV_READ] ev d) out ((Net (Recvfrom soc 512), r) # t)"
  shows "if length (cstr (ld_lines d)) + length (rdat r) < 1024
     then \<exists>d'. out = Value d' \<and> buffer_ok d' \<and>
       printed t = fst (chop [] (cstr (ld_lines d) @ rdat r)) \<and>
       cstr (ld_lines d') = snd (chop [] (cstr (ld_lines d) @ rdat r)) \<and>
       (Ev (Event_loopexit Null) \<in> fst ` set t \<longleftrightarrow> cstr (overlay buf (rdat r)) = bytes ''shutdown'')
     else out = Undefined OutOfBounds \<and> printed t = []"
proof -
  let ?p = "cstr (ld_lines d)" and ?dat = "rdat r"
  let ?s = "?p @ ?dat"
  have d: "length (ld_lines d) = 1024" "terminated (ld_lines d)" "ld_state d = STATE_DEFAULT"
    using assms(1) by (auto simp: buffer_ok_def)
  have r: "rv r \<noteq> -1" "rv r \<noteq> 0" and nz: "0 \<notin> set ?s" using assms(2) by (auto simp: datagram_def)
  show ?thesis
  proof (cases "length ?p + length ?dat < 1024")
    case False
    then have "append_bytes (ld_lines d) ?dat = None" using d by (simp add: append_bytes_eq)
    with assms(3) r False show ?thesis by (auto simp: recvline_handler_def)
  next
    case True
    let ?Z = "drop (Suc (length ?p + length ?dat)) (ld_lines d)"
    let ?done = "\<lambda>ls pos st. need (keep_rest ls pos) OutOfBounds (\<lambda>ls.
        let d = \<lparr>ld_state = st, ld_lines = ls, ld_soc = soc, ld_info = raddr r\<rparr> in
        if streq (overlay buf ?dat) (bytes ''shutdown'')
        then eprintf ''shutdown server'' [] (call (Ev (Event_del ev)) (close_fd soc (
               call (Ev (Event_loopexit Null)) (Ret d))))
        else Ret d)"
    have a: "append_bytes (ld_lines d) ?dat = Some (?s @ 0 # ?Z)" using True d by (simp add: append_bytes_eq)
    have n: "strlen_c (?s @ 0 # ?Z) = Some (length ?s)"
      using nz cstr_terminated_append [of ?s ?Z] by (simp add: strlen_c_eq del: cstr_terminated_append)
    from assms(3) r obtain rn rf t0 where t: "t = (Net (Getnameinfo (raddr r)), rn)
          # (Io (Fprintf Stderr ''recvfrom:%s:%s:len=%d'' [PS (rdat rn), PI (rv r)]), rf) # t0"
      and e: "exec (split_loop (length ?s) 0 (?s @ 0 # ?Z) 0 STATE_DEFAULT ?done) out t0"
      by (auto simp: recvline_handler_def a n d(3) simp del: split_loop.simps append_assoc)
    obtain P t1 t2 where t0: "t0 = t1 @ t2" and p: "printed t1 = fst (chop [] ?s)"
      and len: "length (P @ snd (chop [] ?s)) = length ?s"
      and e2: "exec (?done (P @ snd (chop [] ?s) @ 0 # ?Z) (length P) STATE_DEFAULT) out t2"
      and quiet: "only_messages t1"
      using split_loop_lines [of ?s "[]" "[]" ?Z ?done out t0] e nz by auto
    from quiet have quiet: "Ev (Event_loopexit Null) \<notin> fst ` set t1" by (auto simp: only_messages_def)
    have rest: "0 \<notin> set (snd (chop [] ?s))" "LF \<notin> set (snd (chop [] ?s))"
      using chop_bytes [of "[]" ?s] nz chop_rest [of "[]" ?s] by auto
    obtain b where b: "keep_rest (P @ snd (chop [] ?s) @ 0 # ?Z) (length P) = Some b"
      "cstr b = snd (chop [] ?s)" "terminated b" "length b = length (P @ snd (chop [] ?s) @ 0 # ?Z)"
      by (rule keep_rest_eq [OF rest(1)])
    have "length b = 1024" using b(4) len True d(1) by simp
    then have ok: "buffer_ok \<lparr>ld_state = STATE_DEFAULT, ld_lines = b, ld_soc = soc, ld_info = raddr r\<rparr>"
      using b rest by (simp add: buffer_ok_def)
    show ?thesis
    proof (cases "streq (overlay buf ?dat) (bytes ''shutdown'')")
      case stop: True
      with e2 b show ?thesis using t t0 p quiet ok True
        by (auto simp: printed_append streq_def image_Un)
    next
      case False
      with e2 b show ?thesis using t t0 p quiet ok True
        by (auto simp: printed_append streq_def image_Un)
    qed
  qed
qed

text \<open>
  C13: what the line receiver makes of one datagram.  If it fits behind the rest of the
  earlier ones, the whole lines of both are printed in order and what is behind the last line
  end is kept; the loop is left exactly for a datagram \<^verbatim>\<open>shutdown\<close>.  If it does not fit, the
  buffer is overrun before anything is printed.
\<close>

theorem datagram_lines:
  assumes "buffer_ok d" and "datagram r"
    and "exec (recvline_handler buf soc [EV_READ] ev d) out ((Net (Recvfrom soc 512), r) # t)"
  shows "if length (cstr (ld_lines d)) + length (rdat r) < 1024
     then \<exists>d'. out = Value d' \<and> buffer_ok d' \<and>
       printed t = fst (chop [] (cstr (ld_lines d) @ rdat r)) \<and>
       cstr (ld_lines d') = snd (chop [] (cstr (ld_lines d) @ rdat r)) \<and>
       (Ev (Event_loopexit Null) \<in> fst ` set t \<longleftrightarrow> cstr (overlay buf (rdat r)) = bytes ''shutdown'')
     else out = Undefined OutOfBounds \<and> printed t = []"
  by (rule datagram_lines_aux [OF assms])

text \<open>A run for any datagram that fits.\<close>

lemma datagram_run:
  obtains out t where "exec (recvline_handler buf soc [EV_READ] ev d) out ((Net (Recvfrom soc 512), r) # t)"
proof -
  have "\<exists>k. recvline_handler buf soc [EV_READ] ev d = Sys (Net (Recvfrom soc 512)) k"
    by (simp add: recvline_handler_def)
  then obtain k where k: "recvline_handler buf soc [EV_READ] ev d = Sys (Net (Recvfrom soc 512)) k" ..
  obtain out t where "exec (k r) out t" using exec_total [of "k r"] by blast
  with that show thesis by (simp add: k)
qed

definition fresh_lines :: "int \<Rightarrow> linedata" where
  "fresh_lines soc = \<lparr>ld_state = STATE_DEFAULT, ld_lines = replicate 1024 0, ld_soc = soc, ld_info = []\<rparr>"

lemma cstr_zeros [simp]: "cstr (replicate n (0 :: byte)) = []"
  by (cases n) simp_all

lemma fresh_ok: "buffer_ok (fresh_lines soc)" "cstr (ld_lines (fresh_lines soc)) = []"
  by (simp_all add: fresh_lines_def buffer_ok_def terminated_def)

lemma datagram_lines_witness:
  "\<exists>out t. exec (recvline_handler (replicate 512 0) 3 [EV_READ] (Local ''ev'') (fresh_lines 3)) out
       ((Net (Recvfrom 3 512), rbytes [104, LF, 105]) # t) \<and> printed t = [[104]]"
proof -
  let ?r = "rbytes [104, LF, 105]"
  have r: "datagram ?r" by (simp add: datagram_def resp0_def)
  obtain out t where e: "exec (recvline_handler (replicate 512 0) 3 [EV_READ] (Local ''ev'') (fresh_lines 3)) out
      ((Net (Recvfrom 3 512), ?r) # t)" by (rule datagram_run)
  from datagram_lines [OF fresh_ok(1) r e] e show ?thesis by (auto simp: fresh_ok resp0_def)
qed

subsection \<open>A sequence of datagrams\<close>

text \<open>
  One event after the other, each with the bytes its array starts with and the answers to its
  calls; \<open>None\<close> when a callback does not return.
\<close>

primrec deliveries :: "int \<Rightarrow> ptr \<Rightarrow> (byte list \<times> resp list) list \<Rightarrow> linedata \<Rightarrow> (linedata \<times> trace) option" where
  "deliveries soc ev [] d = Some (d, [])"
| "deliveries soc ev (x # xs) d =
     (case run (recvline_handler (fst x) soc [EV_READ] ev d) (snd x) of
        (Value d1, t) \<Rightarrow> map_option (\<lambda>(d2, t2). (d2, t @ t2)) (deliveries soc ev xs d1)
      | _ \<Rightarrow> None)"

text \<open>The stream: the bytes of the datagrams.\<close>

definition stream_of :: "(byte list \<times> resp list) list \<Rightarrow> byte list" where
  "stream_of xs = concat (map (\<lambda>x. rdat (hd (snd x))) xs)"

definition datagrams :: "(byte list \<times> resp list) list \<Rightarrow> bool" where
  "datagrams xs \<longleftrightarrow> (\<forall>x \<in> set xs. snd x \<noteq> [] \<and> datagram (hd (snd x)))"

lemma delivery_step:
  assumes "run (recvline_handler buf soc [EV_READ] ev d) rs = (Value d1, t)" and "rs \<noteq> []"
    and "datagram (hd rs)" and "buffer_ok d"
  shows "buffer_ok d1 \<and> printed t = fst (chop [] (cstr (ld_lines d) @ rdat (hd rs))) \<and>
     cstr (ld_lines d1) = snd (chop [] (cstr (ld_lines d) @ rdat (hd rs)))"
proof -
  obtain r rs' where rs: "rs = r # rs'" using assms(2) by (cases rs) auto
  have e: "exec (recvline_handler buf soc [EV_READ] ev d) (Value d1) t" using run_exec [OF assms(1)] by simp
  from assms(1) rs obtain t' where t: "t = (Net (Recvfrom soc 512), r) # t'"
    by (auto simp: recvline_handler_def split: prod.splits)
  from datagram_lines_aux [OF assms(4) _ e [unfolded t]] assms(3) rs show ?thesis
    by (auto simp: t split: if_splits)
qed

lemma deliveries_lines:
  assumes "deliveries soc ev xs d = Some (d', t)" and "datagrams xs" and "buffer_ok d"
  shows "buffer_ok d' \<and> printed t = fst (chop [] (cstr (ld_lines d) @ stream_of xs)) \<and>
     cstr (ld_lines d') = snd (chop [] (cstr (ld_lines d) @ stream_of xs))"
  using assms
proof (induction xs arbitrary: d t)
  case Nil
  then show ?case by (simp add: stream_of_def buffer_ok_def chop_plain)
next
  case (Cons x xs)
  from Cons.prems(1) obtain d1 t1 t2 where r: "run (recvline_handler (fst x) soc [EV_READ] ev d) (snd x) = (Value d1, t1)"
    and d1: "deliveries soc ev xs d1 = Some (d', t2)" and t: "t = t1 @ t2"
    by (auto split: prod.splits outcome.splits)
  from Cons.prems(2) have x: "snd x \<noteq> []" "datagram (hd (snd x))" "datagrams xs" by (auto simp: datagrams_def)
  let ?s = "cstr (ld_lines d) @ rdat (hd (snd x))"
  from delivery_step [OF r x(1,2) Cons.prems(3)] have s: "buffer_ok d1" "printed t1 = fst (chop [] ?s)"
    "cstr (ld_lines d1) = snd (chop [] ?s)" by auto
  have split: "chop [] (snd (chop [] ?s) @ stream_of xs) = chop (snd (chop [] ?s)) (stream_of xs)"
    using chop_plain [of "snd (chop [] ?s)" "[]"] s(1,3) by (simp add: chop_append buffer_ok_def)
  from Cons.IH [OF d1 x(3) s(1)] s split show ?case
    by (simp add: t printed_append stream_of_def chop_append [of "[]" ?s, simplified])
qed

text \<open>
  C14: however the bytes are cut into datagrams, the lines printed are the whole lines of the
  stream, in order, and the buffer holds what is behind the last line end; the state never
  leaves its initial value, so the other branch of the line loop is never taken.
\<close>

theorem stream_lines:
  assumes "deliveries soc ev xs (fresh_lines soc) = Some (d', t)" and "datagrams xs"
  shows "printed t = fst (chop [] (stream_of xs)) \<and> cstr (ld_lines d') = snd (chop [] (stream_of xs)) \<and>
     ld_state d' = STATE_DEFAULT"
  using deliveries_lines [OF assms fresh_ok(1)] by (simp add: fresh_ok buffer_ok_def)

lemma delivery_run:
  assumes "buffer_ok d" and "datagram r" and "length (cstr (ld_lines d)) + length (rdat r) < 1024"
  obtains rs d1 t where "run (recvline_handler buf soc [EV_READ] ev d) (r # rs) = (Value d1, t)" and "buffer_ok d1"
    and "cstr (ld_lines d1) = snd (chop [] (cstr (ld_lines d) @ rdat r))"
proof -
  obtain out t where e: "exec (recvline_handler buf soc [EV_READ] ev d) out ((Net (Recvfrom soc 512), r) # t)"
    by (rule datagram_run)
  from datagram_lines_aux [OF assms(1,2) e] assms(3) obtain d1 where "out = Value d1" "buffer_ok d1"
    "cstr (ld_lines d1) = snd (chop [] (cstr (ld_lines d) @ rdat r))" by auto
  with that exec_run [OF e] show thesis by auto
qed

lemma stream_lines_witness:
  "\<exists>xs d' t. deliveries 3 (Local ''ev'') xs (fresh_lines 3) = Some (d', t) \<and>
     map (\<lambda>x. rdat (hd (snd x))) xs = [[104], [105, LF, 106]] \<and> printed t = [[104, 105]] \<and> cstr (ld_lines d') = [106]"
proof -
  let ?b = "replicate 512 0" and ?ev = "Local ''ev''"
  have r: "datagram (rbytes [104])" "datagram (rbytes [105, LF, 106])" by (simp_all add: datagram_def resp0_def)
  have l1: "length (cstr (ld_lines (fresh_lines 3))) + length (rdat (rbytes [104])) < 1024"
    by (simp add: fresh_ok resp0_def)
  obtain rs1 d1 t1 where 1: "run (recvline_handler ?b 3 [EV_READ] ?ev (fresh_lines 3)) (rbytes [104] # rs1) = (Value d1, t1)"
    "buffer_ok d1" "cstr (ld_lines d1) = [104]"
    by (rule delivery_run [OF fresh_ok(1) r(1) l1, where soc = 3 and ev = ?ev and buf = ?b])
      (simp add: fresh_ok resp0_def)
  have l2: "length (cstr (ld_lines d1)) + length (rdat (rbytes [105, LF, 106])) < 1024"
    by (simp add: 1 resp0_def)
  obtain rs2 d2 t2 where 2: "run (recvline_handler ?b 3 [EV_READ] ?ev d1) (rbytes [105, LF, 106] # rs2) = (Value d2, t2)"
    by (rule delivery_run [OF 1(2) r(2) l2, where soc = 3 and ev = ?ev and buf = ?b])
  let ?xs = "[(?b, rbytes [104] # rs1), (?b, rbytes [105, LF, 106] # rs2)]"
  have d: "deliveries 3 ?ev ?xs (fresh_lines 3) = Some (d2, t1 @ t2)"
    by (simp only: deliveries.simps fst_conv snd_conv 1(1) 2 prod.case outcome.case option.map append_Nil2)
  have x: "datagrams ?xs" using r by (simp add: datagrams_def)
  from stream_lines [OF d x] d show ?thesis
    by (intro exI [of _ ?xs] exI [of _ d2] exI [of _ "t1 @ t2"]) (simp add: stream_of_def resp0_def)
qed

end
