(* ===== verification/Line_Echo.thy ===== *)
theory Line_Echo
  imports Line_Receiver Event_Loop
begin

text \<open>
  The line echo server \<^verbatim>\<open>src/network2/server/server.c\<close> on bufferevents and its client
  \<^verbatim>\<open>src/network2/client/client.c\<close>; \<^verbatim>\<open>src/network\<close> has the same client and the same callbacks.
  libevent's evbuffers are answers to calls; the monitor \<open>evbuf\<close> says what it documents
  about them.  A bufferevent stands for its two evbuffers: what is read and removed is its
  input, what is added its output.
\<close>

subsection \<open>The server's callbacks\<close>

definition MAX_LINE_echo :: nat where
  "MAX_LINE_echo = 16384"

text \<open>The two loops of \<^verbatim>\<open>read_callback\<close>; a removal that fails would add \<^verbatim>\<open>(size_t)-1\<close> bytes.\<close>

primrec echo_lines :: "nat \<Rightarrow> ptr \<Rightarrow> unit cprog \<Rightarrow> unit cprog" where
  "echo_lines 0 bev k = Spin"
| "echo_lines (Suc fuel) bev k =
     Sys (Bev (Evbuffer_readln bev)) (\<lambda>r.
     if rptr r = Null then k
     else
       eprintf ''rcv: %*s'' [PI (int (length (rdat r))), PS (cstr (rdat r))] (
       call (Bev (Evbuffer_add bev (rdat r))) (
       call (Bev (Evbuffer_add bev [LF])) (
       call (Proc (Free (rptr r))) (echo_lines fuel bev k)))))"

primrec echo_rest :: "nat \<Rightarrow> ptr \<Rightarrow> unit cprog \<Rightarrow> unit cprog" where
  "echo_rest 0 bev k = Spin"
| "echo_rest (Suc fuel) bev k =
     Sys (Bev (Evbuffer_get_length bev)) (\<lambda>r.
     if rv r = 0 then k
     else
       Sys (Bev (Evbuffer_remove bev 1024)) (\<lambda>r.
       if rv r < 0 then Fault OutOfBounds
       else call (Bev (Evbuffer_add bev (rdat r))) (echo_rest fuel bev k)))"

definition read_callback :: "nat \<Rightarrow> ptr \<Rightarrow> unit cprog" where
  "read_callback fuel bev =
     echo_lines fuel bev (
     Sys (Bev (Evbuffer_get_length bev)) (\<lambda>r.
     if int MAX_LINE_echo \<le> rv r
     then echo_rest fuel bev (call (Bev (Evbuffer_add bev [LF])) (Ret ()))
     else Ret ()))"

definition error_callback :: "ptr \<Rightarrow> bufevent list \<Rightarrow> unit cprog" where
  "error_callback bev err =
     (let finish = call (Bev (Bufferevent_free bev)) (Ret ()) in
      if BEV_EVENT_EOF \<in> set err then eprintf ''Disconnected'' [] finish
      else if BEV_EVENT_ERROR \<in> set err then eprintf ''BEV_EVENT_ERROR'' [] finish
      else if BEV_EVENT_TIMEOUT \<in> set err then eprintf ''BEV_EVENT_TIMEOUT'' [] finish
      else finish)"

definition do_accept_echo :: "int \<Rightarrow> ptr \<Rightarrow> unit cprog" where
  "do_accept_echo soc base =
     Sys (Net (Accept soc)) (\<lambda>ra.
     let acc = rv ra in
     if acc < 0 then perror ''accept'' (Ret ())
     else if FD_SETSIZE < acc then close_fd acc (Ret ())
     else
       Sys (Net (Getnameinfo (raddr ra))) (\<lambda>rn.
       eprintf ''accept:%s:%s'' [PS (rdat rn)] (
       call (Net (Set_nonblocking acc)) (
       Sys (Bev (Bufferevent_socket_new base acc)) (\<lambda>rb.
       call (Bev (Bufferevent_setcb (rptr rb) ''read_callback'' [] ''error_callback'' Null)) (
       call (Bev (Bufferevent_setwatermark (rptr rb) MAX_LINE_echo)) (
       call (Bev (Bufferevent_enable (rptr rb) [EV_READ, EV_WRITE])) (Ret ()))))))))"

text \<open>
  The beginning of every \<^verbatim>\<open>read_stdin\<close>: one read whose line end, or the byte behind it, becomes a
  NUL; \<open>x\<close> is the result when nothing was read.
\<close>

definition read_line :: "byte list \<Rightarrow> int \<Rightarrow> 'a \<Rightarrow> (byte list \<Rightarrow> 'a cprog) \<Rightarrow> 'a cprog" where
  "read_line buf fd x k =
     Sys (Io (Read fd 255)) (\<lambda>r.
     if rv r = -1 then perror ''read error'' (Ret x)
     else if rv r = 0 then perror ''closed'' (Ret x)
     else
       (let len = nat (rv r); b = overlay buf (rdat r) in
        store b (if b ! (len - 1) = LF then len - 1 else len) 0 k))"

definition exit_or_prompt :: "byte list \<Rightarrow> unit cprog" where
  "exit_or_prompt b =
     (if streq b (bytes ''exit'') then call (Ev (Event_loopexit Null)) (Ret ())
      else oprintf ''> '' [] (Ret ()))"

definition echo_stdin :: "byte list \<Rightarrow> int \<Rightarrow> unit cprog" where
  "echo_stdin buf fd = read_line buf fd () exit_or_prompt"

subsection \<open>The server's start\<close>

text \<open>The loop over the addresses: it goes on without closing when \<^verbatim>\<open>setsockopt\<close> fails.\<close>

primrec bind_first :: "addrinfo list \<Rightarrow> (int \<Rightarrow> int cprog) \<Rightarrow> int cprog \<Rightarrow> int cprog" where
  "bind_first [] k bad = bad"
| "bind_first (rp # rps) k bad =
     Sys (Net (Socket (ai_family rp) (ai_socktype rp) (ai_protocol rp))) (\<lambda>rs.
     let soc = rv rs in
     if soc = -1 then perror ''socket'' (bind_first rps k bad)
     else
       Sys (Net (Setsockopt soc SO_REUSEADDR (OInt 1))) (\<lambda>r.
       if rv r = -1 then perror ''setsockopt'' (bind_first rps k bad)
       else
         Sys (Net (Bind soc (ai_addr rp))) (\<lambda>r.
         if rv r = 0 then k soc else close_fd soc (bind_first rps k bad))))"

text \<open>The opening the server and the client share: resolve the name and print the first address.\<close>

definition lookup_or_exit :: "string \<Rightarrow> string \<Rightarrow> bool \<Rightarrow> (ptr \<Rightarrow> addrinfo list \<Rightarrow> int cprog) \<Rightarrow> int cprog" where
  "lookup_or_exit host port passive k =
     Sys (Net (Getaddrinfo (Some host) port AF_INET SOCK_STREAM passive)) (\<lambda>r.
     if rv r \<noteq> 0 then eprintf ''getaddrinfo: %s'' [PI (rv r)] (Exit 1)
     else first_info r (\<lambda>info.
       Sys (Net (Getnameinfo (ai_addr info))) (\<lambda>rn.
       if rv rn \<noteq> 0
       then eprintf ''getnameinfo():%s'' [PI (rv rn)] (call (Net (Freeaddrinfo (rptr r))) (Exit 1))
       else eprintf ''host = %s, service = %s'' [PS (rdat rn)] (k (rptr r) (rinfos r)))))"

definition echo_server_socket :: "string \<Rightarrow> string \<Rightarrow> int cprog" where
  "echo_server_socket host port =
     lookup_or_exit host port True (\<lambda>p infos.
     bind_first infos (\<lambda>soc. call (Net (Freeaddrinfo p)) (Ret soc))
       (eprintf ''Could not bind'' [] (Exit 1)))"

text \<open>\<^verbatim>\<open>event_new\<close> followed by \<^verbatim>\<open>event_add\<close>; the continuation gets its result.\<close>

definition new_event :: "ptr \<Rightarrow> int \<Rightarrow> evflag list \<Rightarrow> string \<Rightarrow> ptr \<Rightarrow> (int \<Rightarrow> 'a cprog) \<Rightarrow> 'a cprog" where
  "new_event base fd fl cb arg k =
     Sys (Ev (Event_new base fd fl cb arg)) (\<lambda>re. Sys (Ev (Event_add (rptr re))) (\<lambda>r. k (rv r)))"

abbreviation SIGINT_number :: int where "SIGINT_number \<equiv> 2"

definition required :: "(char \<times> string) list \<Rightarrow> (string \<Rightarrow> string \<Rightarrow> int cprog) \<Rightarrow> int cprog" where
  "required args k =
     (let host = opt_arg (CHR ''h'') args; port = opt_arg (CHR ''p'') args in
      (if host = None then eprintf ''no host option'' [] else id)
      ((if port = None then eprintf ''no port option'' [] else id)
      (if host = None \<or> port = None then Exit 1 else k (the host) (the port))))"

definition echo_server_main :: "(char \<times> string) list \<Rightarrow> int cprog" where
  "echo_server_main args =
     required args (\<lambda>host port.
     Sys (Ev Event_base_new) (\<lambda>rb.
     let base = rptr rb in
     new_event base SIGINT_number [EV_SIGNAL, EV_PERSIST] ''sig_int_handler'' base (\<lambda>_.
     andthen (echo_server_socket host port) (\<lambda>soc.
     if soc = -1 then eprintf ''server_socket failed'' [] (Exit 1)
     else
       Sys (Net (Listen soc)) (\<lambda>r.
       if rv r = -1 then perror ''listen'' (close_fd soc (Exit 1))
       else
         new_event base soc [EV_READ, EV_PERSIST] ''do_accept'' base (\<lambda>err.
         if err \<noteq> 0 then perror ''event_add'' (close_fd soc (Exit 1))
         else
           call (Io (Setbuf ''stdin'')) (
           call (Io (Setbuf ''stdout'')) (
           new_event base 0 [EV_READ, EV_PERSIST] ''read_stdin'' base (\<lambda>_.
           oprintf ''> '' [] (
           call (Ev (Event_dispatch base)) (
           eprintf ''END'' [] (
           call (Ev (Event_base_free base)) (Ret 0)))))))))))))"

subsection \<open>The client\<close>

text \<open>\<^verbatim>\<open>stdin_handler\<close> sends as many bytes as \<^verbatim>\<open>strlen\<close> finds in an array nothing terminates.\<close>

definition client_stdin :: "byte list \<Rightarrow> int \<Rightarrow> int \<Rightarrow> unit cprog" where
  "client_stdin buf soc fd =
     Sys (Io (Read fd 255)) (\<lambda>r.
     if rv r = -1 then perror ''read error'' (Ret ())
     else if rv r = 0 then Ret ()
     else
       (let b = overlay buf (rdat r) in
        need (strlen_c b) OutOfBounds (\<lambda>len.
        eprintf ''send : %s'' [PS (cstr b)] (
        Sys (Net (Send soc (take len b))) (\<lambda>rs.
        (if rv rs = -1 then \<lambda>k. perror ''send'' (call (Ev (Event_loopexit Null)) k) else id)
        (oprintf ''> '' [] (Ret ())))))))"

primrec recv_callback :: "nat \<Rightarrow> ptr \<Rightarrow> unit cprog" where
  "recv_callback 0 bev = Spin"
| "recv_callback (Suc fuel) bev =
     Sys (Bev (Evbuffer_readln bev)) (\<lambda>r.
     if rptr r = Null then Ret ()
     else
       eprintf ''rcv: %*s'' [PI (int (length (rdat r))), PS (cstr (rdat r))] (
       call (Proc (Free (rptr r))) (recv_callback fuel bev)))"

primrec connect_first :: "addrinfo list \<Rightarrow> (int \<Rightarrow> int cprog) \<Rightarrow> int cprog \<Rightarrow> int cprog" where
  "connect_first [] k bad = bad"
| "connect_first (rp # rps) k bad =
     Sys (Net (Socket (ai_family rp) (ai_socktype rp) (ai_protocol rp))) (\<lambda>rs.
     let soc = rv rs in
     if soc = -1 then connect_first rps k bad
     else
       Sys (Net (Connect soc (ai_addr rp))) (\<lambda>r.
       if rv r \<noteq> -1 then k soc else close_fd soc (connect_first rps k bad)))"

definition echo_client_socket :: "string \<Rightarrow> string \<Rightarrow> int cprog" where
  "echo_client_socket host port =
     lookup_or_exit host port False (\<lambda>p infos.
     connect_first infos (\<lambda>soc. call (Net (Freeaddrinfo p)) (Ret soc))
       (eprintf ''Could not connect'' [] (Exit 1)))"

definition echo_client_main :: "(char \<times> string) list \<Rightarrow> int cprog" where
  "echo_client_main args =
     required args (\<lambda>host port.
     Sys (Ev Event_base_new) (\<lambda>rb.
     let base = rptr rb in
     new_event base SIGINT_number [EV_SIGNAL, EV_PERSIST] ''sig_int_handler'' base (\<lambda>_.
     andthen (echo_client_socket host port) (\<lambda>soc.
     if soc = -1 then eprintf ''client_socket failed'' [] (Exit 1)
     else
       call (Net (Set_nonblocking soc)) (
       Sys (Bev (Bufferevent_socket_new base soc)) (\<lambda>rb.
       call (Bev (Bufferevent_setcb (rptr rb) ''recv_callback'' [] [] Null)) (
       call (Bev (Bufferevent_enable (rptr rb) [EV_READ])) (
       call (Io (Setbuf ''stdin'')) (
       call (Io (Setbuf ''stdout'')) (
       new_event base 0 [EV_READ, EV_PERSIST] ''stdin_handler'' (Local ''ud'') (\<lambda>err.
       if err \<noteq> 0 then perror ''event_add'' (close_fd soc (Exit 1))
       else
         oprintf ''> '' [] (
         call (Ev (Event_dispatch base)) (
         eprintf ''END'' [] (
         call (Ev (Event_base_free base)) (Exit 0)))))))))))))))"

subsection \<open>The evbuffers\<close>

text \<open>
  What libevent documents about the input and the output of \<open>bev\<close>: \<^verbatim>\<open>evbuffer_readln\<close>
  takes out the first line with its LF and gives a copy without it, and NULL when there is no
  whole line; \<^verbatim>\<open>evbuffer_remove\<close> takes out what is there up to the size asked for.
\<close>

fun evbuf_env :: "ptr \<Rightarrow> byte list \<times> byte list \<Rightarrow> call \<Rightarrow> resp \<Rightarrow> bool" where
  "evbuf_env bev (inp, outp) (Bev (Evbuffer_readln b)) r =
     (b = bev \<longrightarrow> (if LF \<in> set inp then rptr r \<noteq> Null \<and> rdat r = takeWhile (\<lambda>c. c \<noteq> LF) inp else rptr r = Null))"
| "evbuf_env bev (inp, outp) (Bev (Evbuffer_get_length b)) r = (b = bev \<longrightarrow> rv r = int (length inp))"
| "evbuf_env bev (inp, outp) (Bev (Evbuffer_remove b n)) r =
     (b = bev \<longrightarrow> rdat r = take n inp \<and> rv r = int (length (take n inp)))"
| "evbuf_env bev h c r = True"

fun evbuf_st :: "ptr \<Rightarrow> byte list \<times> byte list \<Rightarrow> call \<Rightarrow> resp \<Rightarrow> byte list \<times> byte list" where
  "evbuf_st bev (inp, outp) (Bev (Evbuffer_readln b)) r =
     (if b = bev \<and> rptr r \<noteq> Null then (drop (Suc (length (rdat r))) inp, outp) else (inp, outp))"
| "evbuf_st bev (inp, outp) (Bev (Evbuffer_remove b n)) r =
     (if b = bev then (drop (length (rdat r)) inp, outp) else (inp, outp))"
| "evbuf_st bev (inp, outp) (Bev (Evbuffer_add b xs)) r = (if b = bev then (inp, outp @ xs) else (inp, outp))"
| "evbuf_st bev h c r = h"

definition evbuf :: "ptr \<Rightarrow> (byte list \<times> byte list, call, resp) monitor" where
  "evbuf bev = \<lparr>m_ok = \<lambda>_ _. True, m_env = evbuf_env bev, m_st = evbuf_st bev\<rparr>"

lemma evbuf_simps [simp]:
  "m_ok (evbuf bev) = (\<lambda>_ _. True)" "m_env (evbuf bev) = evbuf_env bev" "m_st (evbuf bev) = evbuf_st bev"
  by (simp_all add: evbuf_def)

text \<open>Whole lines of a buffer, each with its LF, and what is behind the last of them.\<close>

definition whole :: "byte list \<Rightarrow> byte list" where
  "whole inp = concat (map (\<lambda>l. l @ [LF]) (fst (chop [] inp)))"

definition partial_line :: "byte list \<Rightarrow> byte list" where
  "partial_line inp = snd (chop [] inp)"

lemma whole_step:
  assumes "LF \<in> set inp"
  defines "l \<equiv> takeWhile (\<lambda>c. c \<noteq> LF) inp"
  shows "whole inp = l @ LF # whole (drop (Suc (length l)) inp)"
    and "partial_line inp = partial_line (drop (Suc (length l)) inp)"
    and "length (drop (Suc (length l)) inp) < length inp"
proof -
  obtain ys where inp: "inp = l @ LF # ys" and l: "LF \<notin> set l"
    using split_list_first [OF assms(1)] unfolding l_def by (auto simp: takeWhile_append)
  have d: "drop (Suc (length l)) inp = ys" unfolding inp by simp
  have c: "chop [] inp = (l # fst (chop [] ys), snd (chop [] ys))"
    unfolding inp using chop_plain [OF l, of "[]"] by (simp add: chop_append case_prod_beta)
  show "whole inp = l @ LF # whole (drop (Suc (length l)) inp)" unfolding d by (simp add: whole_def c)
  show "partial_line inp = partial_line (drop (Suc (length l)) inp)" unfolding d by (simp add: partial_line_def c)
  show "length (drop (Suc (length l)) inp) < length inp" unfolding d by (simp add: inp)
qed

lemma whole_none: "LF \<notin> set inp \<Longrightarrow> whole inp = [] \<and> partial_line inp = inp"
  by (simp add: whole_def partial_line_def chop_plain)

lemma whole_partial: "whole inp @ partial_line inp = inp" and no_LF_partial: "LF \<notin> set (partial_line inp)"
proof -
  have "concat (map (\<lambda>l. l @ [LF]) (fst (chop cur inp))) @ snd (chop cur inp) = cur @ inp" for cur
    by (induction cur inp rule: chop.induct) (auto simp: case_prod_beta)
  from this [of "[]"] show "whole inp @ partial_line inp = inp" by (simp add: whole_def partial_line_def)
  show "LF \<notin> set (partial_line inp)" unfolding partial_line_def by (rule chop_rest) simp
qed

subsection \<open>What the server echoes\<close>

lemma echo_lines_safe:
  "length inp < fuel \<Longrightarrow> safe (evbuf bev) k (partial_line inp, outp @ whole inp) Q \<Longrightarrow>
   safe (evbuf bev) (echo_lines fuel bev k) (inp, outp) Q"
proof (induction fuel arbitrary: inp outp)
  case (Suc fuel)
  show ?case
  proof (cases "LF \<in> set inp")
    case True
    note w = whole_step [OF True]
    let ?l = "takeWhile (\<lambda>c. c \<noteq> LF) inp"
    have "safe (evbuf bev) (echo_lines fuel bev k) (drop (Suc (length ?l)) inp, outp @ ?l @ [LF]) Q"
      by (rule Suc.IH) (use Suc.prems w in auto)
    then show ?thesis using True by simp
  next
    case False
    then show ?thesis using Suc.prems(2) whole_none [OF False] by simp
  qed
qed simp

lemma echo_rest_safe:
  "length inp < fuel \<Longrightarrow> safe (evbuf bev) k ([], outp @ inp) Q \<Longrightarrow>
   safe (evbuf bev) (echo_rest fuel bev k) (inp, outp) Q"
proof (induction fuel arbitrary: inp outp)
  case (Suc fuel)
  show ?case
  proof (cases "inp = []")
    case True
    then show ?thesis using Suc.prems(2) by simp
  next
    case False
    then have "length (drop 1024 inp) < fuel" using Suc.prems(1) by (cases inp) auto
    then have "safe (evbuf bev) (echo_rest fuel bev k) (drop 1024 inp, outp @ take 1024 inp) Q"
      by (rule Suc.IH) (use Suc.prems(2) in auto)
    then show ?thesis using False by (cases "length inp \<le> 1024") (simp_all add: min_def)
  qed
qed simp

lemma read_callback_safe:
  assumes "length inp < fuel"
  shows "safe (evbuf bev) (read_callback fuel bev) (inp, outp) (\<lambda>out h. out = Value () \<and>
     h = (if length (partial_line inp) < MAX_LINE_echo then (partial_line inp, outp @ whole inp)
          else ([], outp @ inp @ [LF])))"
proof -
  have "length (partial_line inp) \<le> length inp" using whole_partial [of inp] by (metis length_append le_add2)
  with assms have le: "length (partial_line inp) < fuel" by simp
  have all: "(outp @ whole inp) @ partial_line inp = outp @ inp" using whole_partial [of inp] by simp
  show ?thesis
    unfolding read_callback_def
    by (rule echo_lines_safe [OF assms]) (use le all in \<open>auto intro!: echo_rest_safe\<close>)
qed

text \<open>
  C17: the line echo server gives back every whole line it has received, unchanged and in
  order, and keeps the line that is not complete; a line of \<^verbatim>\<open>MAX_LINE\<close> bytes without its end
  goes back as well, with an LF the peer did not send.  One round for each byte is enough.
\<close>

theorem line_echo_exact:
  assumes "length inp < fuel" and "exec (read_callback fuel bev) out t" and "honest (evbuf bev) (inp, outp) t"
  shows "out = Value () \<and> end_state (evbuf bev) (inp, outp) t =
     (if length (partial_line inp) < MAX_LINE_echo then (partial_line inp, outp @ whole inp)
      else ([], outp @ inp @ [LF]))"
  using safe_exec(2) [OF assms(2) read_callback_safe [OF assms(1)] assms(3)] .

lemma line_echo_exact_witness:
  "end_state (evbuf (Heap 2)) ([97, LF, 98], []) (snd (run (read_callback 4 (Heap 2))
     [resp0\<lparr>rptr := Heap 1, rdat := [97]\<rparr>, resp0, resp0, resp0, resp0, resp0, rint 1])) = ([98], [97, LF])"
proof -
  let ?p = "read_callback 4 (Heap 2)" and ?rs = "[resp0\<lparr>rptr := Heap 1, rdat := [97]\<rparr>, resp0, resp0, resp0, resp0, resp0, rint 1]"
  obtain out t where r: "run ?p ?rs = (out, t)" by fastforce
  have p: "?p = read_callback (Suc (Suc (Suc (Suc 0)))) (Heap 2)" by (simp add: eval_nat_numeral)
  have "fst (run ?p ?rs) = Value ()" "honest (evbuf (Heap 2)) ([97, LF, 98], []) (snd (run ?p ?rs))"
    unfolding p by (simp_all add: read_callback_def resp0_def MAX_LINE_echo_def)
  with r have x: "exec ?p out t" "honest (evbuf (Heap 2)) ([97, LF, 98], []) t" by (auto intro!: run_exec)
  have w: "length [97, LF, 98] < (4 :: nat)" "partial_line [97, LF, 98] = [98]" "whole [97, LF, 98] = [97, LF]"
    by (simp_all add: partial_line_def whole_def)
  from line_echo_exact [OF w(1) x] show ?thesis unfolding r snd_conv w by (simp add: MAX_LINE_echo_def)
qed

subsection \<open>Resources and the client\<close>

text \<open>
  The callbacks give back every line libevent allocated, a lost connection its bufferevent; a
  new connection's descriptor belongs to the bufferevent.
\<close>

lemma fresh_line:
  assumes "tidy K H" and "p \<noteq> Null" and "\<forall>x. p \<noteq> Local x" and "RMem p \<notin> H"
  shows "RReg p \<notin> H" and "H - settings p = H"
proof -
  obtain n where p: "p = Heap n" using assms(2,3) by (cases p) auto
  show "RReg p \<notin> H" using tidyD(3) [OF assms(1), of n] assms(4) p by auto
  show "H - settings p = H" using tidy_settings_fresh [OF assms(1)] assms(4) p by auto
qed

lemma echo_lines_keeps:
  "tidy K H \<Longrightarrow> keeps k H Q \<Longrightarrow> Q Running H \<Longrightarrow> keeps (echo_lines fuel bev k) H Q"
  by (induction fuel) (auto simp: fresh_line)

lemma echo_rest_keeps:
  "keeps k H Q \<Longrightarrow> Q Running H \<Longrightarrow> Q (Undefined OutOfBounds) H \<Longrightarrow> keeps (echo_rest fuel bev k) H Q"
  by (induction fuel) auto

lemma read_callback_keeps: "tidy K H \<Longrightarrow> keeps (read_callback fuel bev) H (\<lambda>_ H'. H' = H)"
  unfolding read_callback_def by (erule echo_lines_keeps) (auto intro: echo_rest_keeps)

lemma do_accept_echo_keeps:
  assumes "RFd soc \<in> H"
  shows "keeps_if allocating (do_accept_echo soc base) H (\<lambda>out H'. out = Value () \<and>
     (H' = H \<or> (\<exists>b. RBev b \<notin> H \<and> H' = insert (RBev b) H)))"
  using assms by (auto simp: do_accept_echo_def allocating_def Let_def insert_Diff_if)

lemma error_callback_keeps:
  "RBev bev \<in> H \<Longrightarrow> keeps (error_callback bev err) H (\<lambda>out H'. out = Value () \<and> H' = H - {RBev bev})"
  by (simp add: error_callback_def Let_def)

text \<open>
  The server's socket, when it has one: the first address that could be bound; the list is
  freed exactly then.
\<close>

lemma bind_first_keeps:
  assumes k: "\<And>s G. RFd s \<in> G \<Longrightarrow> H \<subseteq> G \<Longrightarrow> keeps (k s) G Q" and bad: "\<And>G. H \<subseteq> G \<Longrightarrow> keeps bad G Q"
  shows "H \<subseteq> G \<Longrightarrow> keeps (bind_first infos k bad) G Q"
proof (induction infos arbitrary: G)
  case (Cons rp rps)
  have "keeps (bind_first rps k bad) (insert (RFd s) G) Q" "keeps (k s) (insert (RFd s) G) Q" for s
  proof -
    have "H \<subseteq> insert (RFd s) G" using Cons.prems by blast
    then show "keeps (bind_first rps k bad) (insert (RFd s) G) Q" "keeps (k s) (insert (RFd s) G) Q"
      by (auto intro: Cons.IH k)
  qed
  with Cons show ?case by (auto simp: Let_def insert_Diff_if)
qed (simp add: bad)

lemma echo_server_socket_keeps:
  "keeps (echo_server_socket host port) {} (\<lambda>out H. out = Exited 1 \<or> (\<exists>s. out = Value s \<and> RFd s \<in> H))"
  by (auto simp: echo_server_socket_def lookup_or_exit_def first_info_def
      intro!: bind_first_keeps [where H = "{RInfo p}" for p])

text \<open>
  The client sends what its array held behind the bytes it read, up to the first NUL, and
  reads on behind the array when there is none.
\<close>

lemma client_sends_leftover:
  assumes "exec (client_stdin buf soc 0) out ((Io (Read 0 255), rbytes xs) # t)" and "xs \<noteq> []" and "0 \<notin> set xs"
  shows "if terminated (drop (length xs) buf)
     then Net (Send soc (xs @ cstr (drop (length xs) buf))) \<in> fst ` set t
     else out = Undefined OutOfBounds \<and> t = []"
proof -
  have o: "overlay buf xs = xs @ drop (length xs) buf" by (simp add: overlay_def)
  have t: "terminated (overlay buf xs) \<longleftrightarrow> terminated (drop (length xs) buf)"
    using assms(3) by (simp add: o) (simp add: terminated_def)
  have c: "cstr (overlay buf xs) = xs @ cstr (drop (length xs) buf)" using assms(3) by (simp add: o cstr_append)
  have "take (length (cstr (overlay buf xs))) (overlay buf xs) = cstr (overlay buf xs)"
    by (simp only: cstr_def takeWhile_eq_take [symmetric])
  with c have tk: "take (length xs + length (cstr (drop (length xs) buf))) (overlay buf xs) =
      xs @ cstr (drop (length xs) buf)" by simp
  from assms(1,2) show ?thesis
    by (cases "terminated (overlay buf xs)") (auto simp: client_stdin_def strlen_c_eq t c tk resp0_def)
qed

end
