(* ===== verification/Datagrams.thy ===== *)
theory Datagrams
  imports Line_Echo Echo_Server
begin

text \<open>
  The datagram programs: \<^verbatim>\<open>src/network/receiver/receiver.c\<close>, which answers each datagram as the
  echo service answers a line, and \<^verbatim>\<open>src/network/sender/sender.c\<close>, which sends lines and shows
  what comes back.  Their handlers are also in files of their own, with the same text.
\<close>

subsection \<open>The receiver\<close>

definition udp_recv_handler :: "byte list \<Rightarrow> int \<Rightarrow> evflag list \<Rightarrow> ptr \<Rightarrow> unit cprog" where
  "udp_recv_handler buf soc event ev =
     (if EV_READ \<notin> set event then Ret () else
      Sys (Net (Recvfrom soc 512)) (\<lambda>r.
      if rv r = -1
      then perror ''recvfrom'' (call (Ev (Event_del ev)) (call (Proc (Free ev)) (close_fd soc (Ret ()))))
      else if rv r = 0
      then eprintf ''recv:EOF'' [] (call (Ev (Event_del ev)) (close_fd soc (Ret ())))
      else
        Sys (Net (Getnameinfo (raddr r))) (\<lambda>rn.
        eprintf ''recvfrom:%s:%s:len=%d'' [PS (rdat rn), PI (rv r)] (
        need (chomp (overlay buf (rdat r)) (nat (rv r))) OutOfBounds (\<lambda>buf.
        eprintf ''[client]%s'' [PS (cstr buf)] (
        if streq buf (bytes ''shutdown'')
        then eprintf ''shutdown tcpserver'' [] (call (Ev (Event_del ev)) (close_fd soc (
               call (Ev (Event_loopexit Null)) (Ret ()))))
        else
          need (acknowledge buf) OutOfBounds (\<lambda>reply.
          Sys (Net (Sendto soc reply (raddr r))) (\<lambda>r.
          if rv r = -1 then perror ''sendto'' (call (Ev (Event_del ev)) (close_fd soc (Ret ())))
          else Ret ()))))))))"

definition udp_stdin :: "byte list \<Rightarrow> int \<Rightarrow> unit cprog" where
  "udp_stdin buf fd =
     read_line buf fd () (\<lambda>b.
     eprintf (''[receiver] read '' @ [CHR 0x27] @ ''%s'' @ [CHR 0x27]) [PS (cstr b)] (exit_or_prompt b))"

definition udp_receiver_main :: "(char \<times> string) list \<Rightarrow> int cprog" where
  "udp_receiver_main args =
     required args (\<lambda>host port.
     call (Ev Event_init) (
     call (Ev (Signal_set (Local ''sig'') SIGINT ''sig_int_handler'' Null)) (
     call (Ev (Signal_add (Local ''sig''))) (
     andthen (receiver_socket host port (opt_arg (CHR ''m'') args)) (\<lambda>soc.
     if soc = -1 then eprintf ''receiver_socket failed'' [] (Exit 1)
     else
       call (Ev (Event_set (Local ''ev'') soc [EV_READ, EV_PERSIST] ''recv_handler'' (Local ''ev''))) (
       Sys (Ev (Event_add (Local ''ev''))) (\<lambda>r.
       if rv r \<noteq> 0 then perror ''event_add'' (close_fd soc (Exit 1))
       else
         call (Io (Setbuf ''stdin'')) (
         call (Io (Setbuf ''stdout'')) (
         call (Ev (Event_set (Local ''io_ev'') 0 [EV_READ, EV_PERSIST] ''read_stdin'' (Local ''io_ev''))) (
         call (Ev (Event_add (Local ''io_ev''))) (
         oprintf ''> '' [] (
         call (Ev (Event_dispatch Null)) (
         eprintf ''END'' [] (Ret 0))))))))))))))"

text \<open>What was sent to whom in a trace.\<close>

fun answers :: "trace \<Rightarrow> (int \<times> byte list \<times> byte list) list" where
  "answers [] = []"
| "answers ((Net (Sendto fd bs to), r) # t) = (fd, bs, to) # answers t"
| "answers (_ # t) = answers t"

text \<open>
  One datagram: 512 bytes overrun the array; any other is answered to its sender as the echo
  service would, and \<^verbatim>\<open>shutdown\<close> closes the socket and ends the loop.
\<close>

lemma udp_recv_handler_replies:
  assumes "length buf = 512" and "posix_ok (Net (Recvfrom soc 512)) r" and "0 < rv r"
    and "exec (udp_recv_handler buf soc [EV_READ] ev) out ((Net (Recvfrom soc 512), r) # t)"
  shows "if rv r = 512 then out = Undefined OutOfBounds \<and> answers t = []
     else out = Value () \<and>
       answers t = (case echo_reply (rdat r) of None \<Rightarrow> [] | Some bs \<Rightarrow> [(soc, bs, raddr r)]) \<and>
       (Ev (Event_loopexit Null) \<in> fst ` set t \<longleftrightarrow> echo_reply (rdat r) = None)"
proof -
  from assms(2,3) have n: "nat (rv r) = length (rdat r)" and le: "length (rdat r) \<le> 512" by auto
  show ?thesis
  proof (cases "rv r = 512")
    case True
    with n assms show ?thesis by (auto simp: udp_recv_handler_def exec_chomp_full)
  next
    case False
    with n le assms(1) have lt: "length (rdat r) < length buf" by linarith
    obtain b where b: "chomp (overlay buf (rdat r)) (length (rdat r)) = Some b" "length b = length buf"
      "terminated b" "cstr b = line_of (rdat r)" by (rule chomp_overlay [OF lt])
    from assms(3,4) False show ?thesis
      by (auto simp: udp_recv_handler_def n b acknowledge_eq assms(1) streq_def echo_reply_def split: if_splits)
  qed
qed

text \<open>
  With the event on the stack of \<^verbatim>\<open>main\<close>, a failing \<^verbatim>\<open>recvfrom\<close> frees memory that was never
  allocated; nothing else does.
\<close>

lemma udp_failed_receive:
  assumes "rv r = -1" and "RMem (Local x) \<notin> H"
    and "exec (udp_recv_handler buf soc [EV_READ] (Local x)) out ((Net (Recvfrom soc 512), r) # t)"
  shows "\<not> disciplined H ((Net (Recvfrom soc 512), r) # t)"
  using assms by (auto simp: udp_recv_handler_def)

subsection \<open>The sender\<close>

text \<open>The handler of answers: it closes the socket and leaves its event pending.\<close>

definition sender_recv_handler :: "byte list \<Rightarrow> int \<Rightarrow> evflag list \<Rightarrow> unit cprog" where
  "sender_recv_handler buf soc event =
     (if EV_READ \<notin> set event then Ret () else
      Sys (Net (Recv soc 512)) (\<lambda>r.
      if rv r = -1 then perror ''recv'' (close_fd soc (Ret ()))
      else if rv r = 0 then eprintf ''recv:EOF'' [] (close_fd soc (Ret ()))
      else
        need (chomp (overlay buf (rdat r)) (nat (rv r))) OutOfBounds (\<lambda>buf.
        eprintf ''[received]%s'' [PS (cstr buf)] (Ret ()))))"

definition sender_stdin :: "int \<Rightarrow> addrinfo \<Rightarrow> int \<Rightarrow> evflag list \<Rightarrow> unit cprog" where
  "sender_stdin soc info fd event =
     (if EV_READ \<notin> set event then Ret () else
      Sys (Io (Read fd 255)) (\<lambda>r.
      if rv r = -1 then perror ''read error'' (Ret ())
      else if rv r = 0 then Ret ()
      else
        Sys (Net (Sendto soc (rdat r) (ai_addr info))) (\<lambda>rs.
        (if rv rs = -1 then \<lambda>k. perror ''sendto'' (call (Ev (Event_loopexit Null)) k) else id)
        (oprintf ''> '' [] (Ret ())))))"

definition get_addr_info :: "string \<Rightarrow> string \<Rightarrow> (ptr \<Rightarrow> addrinfo list \<Rightarrow> int cprog) \<Rightarrow> int cprog \<Rightarrow> int cprog" where
  "get_addr_info host port k bad =
     Sys (Net (Getaddrinfo (Some host) port AF_INET SOCK_DGRAM False)) (\<lambda>r.
     if rv r \<noteq> 0 then eprintf ''getaddrinfo():%s'' [PI (rv r)] bad else k (rptr r) (rinfos r))"

definition print_name_info :: "addrinfo \<Rightarrow> int cprog \<Rightarrow> int cprog" where
  "print_name_info info k =
     Sys (Net (Getnameinfo (ai_addr info))) (\<lambda>r.
     if rv r \<noteq> 0 then eprintf ''getnameinfo():%s'' [PI (rv r)] (Exit 1)
     else eprintf ''host=%s, service=%s'' [PS (rdat r)] k)"

text \<open>One multicast option: on failure the list is freed and the socket closed.\<close>

definition sender_opt :: "int \<Rightarrow> ptr \<Rightarrow> sockopt \<Rightarrow> byte \<Rightarrow> int cprog \<Rightarrow> int cprog" where
  "sender_opt soc p opt v k =
     Sys (Net (Setsockopt soc opt (OChar v))) (\<lambda>r.
     if rv r = -1 then perror ''setsockopt'' (call (Net (Freeaddrinfo p)) (close_fd soc (Ret (-1)))) else k)"

definition sender_main :: "(char \<times> string) list \<Rightarrow> int cprog" where
  "sender_main args =
     required args (\<lambda>host port.
     Sys (Ev Event_base_new) (\<lambda>rb.
     let base = rptr rb in
     new_event base SIGINT_number [EV_SIGNAL, EV_PERSIST] ''sig_int_handler'' base (\<lambda>_.
     get_addr_info host port (\<lambda>p infos.
       if infos = [] then Fault NullPointer
       else let info = hd infos in
       print_name_info info (
       Sys (Net (Socket (ai_family info) (ai_socktype info) (ai_protocol info))) (\<lambda>rs.
       let soc = rv rs in
       if soc = -1 then perror ''socket'' (call (Net (Freeaddrinfo p)) (Ret (-1)))
       else
         sender_opt soc p IP_MULTICAST_TTL 64 (
         sender_opt soc p IP_MULTICAST_LOOP 1 (
         call (Io (Setbuf ''stdin'')) (
         call (Io (Setbuf ''stdout'')) (
         new_event base soc [EV_READ, EV_PERSIST] ''recv_handler'' (Local ''data'') (\<lambda>err.
         if err \<noteq> 0 then perror ''event_add'' (close_fd soc (call (Ev (Event_base_free base)) (Exit 1)))
         else
           new_event base 0 [EV_READ, EV_PERSIST] ''stdin_handler'' (Local ''data'') (\<lambda>err.
           if err \<noteq> 0 then perror ''event_add'' (close_fd soc (call (Ev (Event_base_free base)) (Exit 1)))
           else
             oprintf ''> '' [] (
             call (Ev (Event_dispatch base)) (
             eprintf ''END'' [] (
             call (Ev (Event_base_free base)) (
             call (Net (Freeaddrinfo p)) (Ret 0))))))))))))))
       (Exit 1))))"

text \<open>
  A lost socket leaves its event pending on a closed descriptor, so the ledger is no longer
  tidy: a persistent event whose descriptor another socket may get.
\<close>

lemma sender_lost_socket:
  assumes "pending H e soc fl cb a" and "exec (sender_recv_handler buf soc [EV_READ]) out ((Net (Recv soc 512), r) # t)"
    and "rv r \<in> {-1, 0}"
  shows "\<not> tidy K (held H ((Net (Recv soc 512), r) # t))"
proof
  assume t: "tidy K (held H ((Net (Recv soc 512), r) # t))"
  from assms(2,3) have h: "held H ((Net (Recv soc 512), r) # t) = H - {RFd soc}"
    by (auto simp: sender_recv_handler_def split: if_splits)
  from assms(1) have "pending (H - {RFd soc}) e soc fl cb a" by (simp add: pending_def)
  from tidyD(4) [OF t [unfolded h] this] show False by simp
qed

text \<open>What the sender writes to its peer is what was typed, byte for byte.\<close>

lemma sender_sends_input:
  assumes "exec (sender_stdin soc info fd [EV_READ]) out ((Io (Read fd 255), r) # t)" and "0 < rv r"
  shows "out = Value () \<and> answers t = [(soc, rdat r, ai_addr info)]"
  using assms by (auto simp: sender_stdin_def split: if_splits)

end
