(* ===== verification/Line_Sender.thy ===== *)
theory Line_Sender
  imports Datagrams
begin

text \<open>
  The line sender \<^verbatim>\<open>src/line/sendline/sendline.c\<close>, the other end of the line receiver: what is
  typed goes out as datagrams, and what comes in is run as a command whose output is sent back.
\<close>

subsection \<open>Running what was received\<close>

text \<open>
  The loop over the output: \<open>line\<close> is the array of 1024 bytes, \<open>pos\<close> the bytes in it.  The end
  of the output, -1, is stored as a byte like any other before it is looked at.
\<close>

primrec relay_output ::
  "nat \<Rightarrow> ptr \<Rightarrow> byte list \<Rightarrow> nat \<Rightarrow> int \<Rightarrow> addrinfo \<Rightarrow> unit cprog"
where
  "relay_output 0 fp line pos soc info = Spin"
| "relay_output (Suc fuel) fp line pos soc info =
     Sys (Io (Fgetc fp)) (\<lambda>r.
     let c = rv r in
     store line pos (word_of_int c) (\<lambda>line.
     let pos = pos + 1;
         go_on = (\<lambda>pos. if c = -1 then Ret () else relay_output fuel fp line pos soc info) in
     if 1024 \<le> pos \<or> c = -1
     then Sys (Net (Sendto soc (take pos line) (ai_addr info))) (\<lambda>_. go_on 0)
     else go_on pos))"

definition sendline_recv_handler ::
  "nat \<Rightarrow> byte list \<Rightarrow> byte list \<Rightarrow> int \<Rightarrow> evflag list \<Rightarrow> addrinfo \<Rightarrow> unit cprog"
where
  "sendline_recv_handler fuel buf line soc event info =
     (if EV_READ \<notin> set event then Ret () else
      Sys (Net (Recv soc 512)) (\<lambda>r.
      if rv r = -1 then perror ''recv'' (close_fd soc (Ret ()))
      else if rv r = 0 then eprintf ''recv:EOF'' [] (close_fd soc (Ret ()))
      else
        need (chomp (overlay buf (rdat r)) (nat (rv r))) OutOfBounds (\<lambda>buf.
        Sys (Io (Popen (cstr buf))) (\<lambda>rp.
        if rptr rp = Null then perror ''popen'' (Ret ())
        else relay_output fuel (rptr rp) line 0 soc info))))"

subsection \<open>Lines from the terminal\<close>

definition STATE_WAIT_RESPONSE :: nat where "STATE_WAIT_RESPONSE = 1"

primrec dump_bytes :: "byte list \<Rightarrow> 'a cprog \<Rightarrow> 'a cprog" where
  "dump_bytes [] k = k"
| "dump_bytes (c # cs) k = eprintf ''%02X, '' [PI (sint c)] (dump_bytes cs k)"

text \<open>The handler returns the new state; its array is cleared before the read.\<close>

definition sendline_stdin :: "int \<Rightarrow> addrinfo \<Rightarrow> int \<Rightarrow> evflag list \<Rightarrow> nat \<Rightarrow> nat cprog" where
  "sendline_stdin soc info fd event st =
     (if EV_READ \<notin> set event then Ret st else
      Sys (Io (Read fd 255)) (\<lambda>r.
      if rv r = -1 then perror ''read error'' (Ret st)
      else if rv r = 0 then eprintf ''DEBUG: pressed Ctrl+D'' [] (Ret st)
      else
        (let buf = overlay (replicate 256 0) (rdat r) in
         need (strlen_c buf) OutOfBounds (\<lambda>len.
         eprintf (''DEBUG: send '' @ [CHR 0x27] @ ''%.*s'' @ [CHR 0x27]) [PI (int len - 1), PS (cstr buf)] (
         eprintf ''DEBUG: buf = { '' [] (
         dump_bytes (cstr buf) (
         eprintf ''}'' [] (
         Sys (Net (Sendto soc (rdat r) (ai_addr info))) (\<lambda>rs.
         (if rv rs = -1 then \<lambda>k. perror ''sendto'' (call (Ev (Event_loopexit Null)) k) else id)
         (if cstr buf = bytes ''startcmd'' @ [LF]
          then eprintf ''DEBUG: change state to STATE_WAIT_RESPONSE'' [] (
               oprintf ''> '' [] (Ret STATE_WAIT_RESPONSE))
          else oprintf ''> '' [] (Ret st)))))))))))"

text \<open>\<^verbatim>\<open>main\<close> is the one of the sender, line for line, but for clearing its structure.\<close>

definition sendline_main :: "(char \<times> string) list \<Rightarrow> int cprog" where
  "sendline_main = sender_main"

subsection \<open>What comes back\<close>

text \<open>
  The pipe of a command that writes \<open>bs\<close>: each \<^verbatim>\<open>fgetc\<close> gives the next byte and -1 behind the
  last; beside it the datagrams sent from the socket.
\<close>

fun pipe_env :: "ptr \<Rightarrow> byte list \<times> byte list list \<Rightarrow> call \<Rightarrow> resp \<Rightarrow> bool" where
  "pipe_env fp (bs, ds) (Io (Fgetc p)) r =
     (p = fp \<longrightarrow> rv r = (case bs of [] \<Rightarrow> -1 | b # _ \<Rightarrow> uint b))"
| "pipe_env fp (bs, ds) c r = True"

fun pipe_st :: "ptr \<Rightarrow> byte list \<times> byte list list \<Rightarrow> call \<Rightarrow> resp \<Rightarrow> byte list \<times> byte list list" where
  "pipe_st fp (bs, ds) (Io (Fgetc p)) r = (if p = fp then (tl bs, ds) else (bs, ds))"
| "pipe_st fp (bs, ds) (Net (Sendto s xs a)) r = (bs, ds @ [xs])"
| "pipe_st fp (bs, ds) c r = (bs, ds)"

definition pipe_of :: "ptr \<Rightarrow> (byte list \<times> byte list list, call, resp) monitor" where
  "pipe_of fp = \<lparr>m_ok = \<lambda>_ _. True, m_env = pipe_env fp, m_st = pipe_st fp\<rparr>"

lemma pipe_of_simps [simp]:
  "m_ok (pipe_of fp) = (\<lambda>_ _. True)" "m_env (pipe_of fp) = pipe_env fp" "m_st (pipe_of fp) = pipe_st fp"
  by (simp_all add: pipe_of_def)

text \<open>Cut into pieces of \<open>n\<close> bytes, the last of them what is left over.\<close>

function pieces :: "nat \<Rightarrow> byte list \<Rightarrow> byte list list" where
  "pieces n xs = (if n = 0 \<or> length xs \<le> n then [xs] else take n xs # pieces n (drop n xs))"
  by pat_completeness auto
termination by (relation "measure (\<lambda>(n, xs). length xs)") auto

declare pieces.simps [simp del]

lemma concat_pieces: "concat (pieces n xs) = xs"
  by (induction n xs rule: pieces.induct) (subst pieces.simps, auto)

lemma pieces_short: "length xs \<le> n \<Longrightarrow> pieces n xs = [xs]"
  by (simp add: pieces.simps)

lemma pieces_full: "length xs = n \<Longrightarrow> 0 < n \<Longrightarrow> ys \<noteq> [] \<Longrightarrow> pieces n (xs @ ys) = xs # pieces n ys"
  by (subst pieces.simps) simp

lemma take_Suc_update: "pos < length b \<Longrightarrow> take (Suc pos) (b[pos := v]) = take pos b @ [v]"
  by (simp add: take_Suc_conv_app_nth)

lemma relay_output_safe:
  assumes "length line = 1024" and "pos < 1024" and "length bs < fuel"
  shows "safe (pipe_of fp) (relay_output fuel fp line pos soc info) (bs, ds) (\<lambda>out h. out = Value () \<and>
     h = ([], ds @ pieces 1024 (take pos line @ bs @ [-1])))"
  using assms
proof (induction fuel arbitrary: line pos bs ds)
  case (Suc fuel)
  let ?line = "\<lambda>v. line[pos := v]"
  show ?case
  proof (cases bs)
    case Nil
    have "pieces 1024 (take pos line @ [-1]) = [take (Suc pos) (?line (-1))]"
      using Suc.prems by (simp add: take_Suc_update pieces_short)
    then show ?thesis using Suc.prems Nil by (simp add: Let_def)
  next
    case (Cons x xs)
    have ne: "uint x \<noteq> -1" using uint_nonnegative [of x] by linarith
    have t: "take (Suc pos) (?line x) = take pos line @ [x]" using Suc.prems by (simp add: take_Suc_update)
    show ?thesis
    proof (cases "pos = 1023")
      case True
      have "pieces 1024 (take pos line @ bs @ [-1]) = take 1024 (?line x) # pieces 1024 (xs @ [-1])"
        using pieces_full [of "take pos line @ [x]" 1024 "xs @ [-1]"] Suc.prems t True Cons by simp
      then show ?thesis
        using Suc.prems Suc.IH [of "?line x" 0 xs "ds @ [take 1024 (?line x)]"] ne True Cons by (simp add: Let_def)
    next
      case False
      then show ?thesis
        using Suc.prems Suc.IH [of "?line x" "Suc pos" xs ds] ne t Cons by (simp add: Let_def)
    qed
  qed
qed simp

lemma byte_255: "(-1 :: byte) = 255"
  by simp

lemma relay_output_no_pclose:
  "exec (relay_output fuel fp line pos soc info) out t \<Longrightarrow> list_all (\<lambda>x. fst x \<noteq> Io (Pclose p)) t"
  by (induction fuel arbitrary: line pos t) (auto simp: Let_def store_def split: if_splits)

lemma sendline_run:
  assumes "length buf = 512" and "length line = 1024"
    and "posix_ok (Net (Recv soc 512)) r" and "0 < rv r" and "rv r < 512"
    and "exec (sendline_recv_handler fuel buf line soc [EV_READ] info) out
           ((Net (Recv soc 512), r) # (c, rp) # t)"
    and "rptr rp \<noteq> Null" and "honest (pipe_of (rptr rp)) (output, []) t" and "length output < fuel"
  shows "c = Io (Popen (line_of (rdat r))) \<and> out = Value () \<and>
     snd (end_state (pipe_of (rptr rp)) (output, []) t) = pieces 1024 (output @ [255]) \<and>
     (\<forall>p. Io (Pclose p) \<notin> fst ` set t)"
proof -
  from assms(3,4,5) have n: "nat (rv r) = length (rdat r)" and lt: "length (rdat r) < length buf"
    using assms(1) by auto
  obtain b where b: "chomp (overlay buf (rdat r)) (length (rdat r)) = Some b" "cstr b = line_of (rdat r)"
    by (rule chomp_overlay [OF lt])
  from assms(4,6,7) have c: "c = Io (Popen (line_of (rdat r)))"
    and e: "exec (relay_output fuel (rptr rp) line 0 soc info) out t"
    by (auto simp: sendline_recv_handler_def n b)
  have "Io (Pclose p) \<notin> fst ` set t" for p
    using relay_output_no_pclose [OF e, of p] by (auto simp: list_all_iff)
  with c safe_exec(2) [OF e relay_output_safe [OF assms(2) _ assms(9)] assms(8)] show ?thesis
    by (auto simp: byte_255)
qed

text \<open>
  C18: a datagram received is run as a command up to its first line end, and the whole output
  comes back, in order, in pieces of 1024 bytes, with one byte \<^verbatim>\<open>0xFF\<close> behind it that the
  command did not write.  Nothing is stored outside the array, and the loop ends with the
  output.  The pipe is never closed.
\<close>

theorem sendline_relays:
  assumes "length buf = 512" and "length line = 1024"
    and "posix_ok (Net (Recv soc 512)) r" and "0 < rv r" and "rv r < 512"
    and "exec (sendline_recv_handler fuel buf line soc [EV_READ] info) out
           ((Net (Recv soc 512), r) # (c, rp) # t)"
    and "rptr rp \<noteq> Null" and "honest (pipe_of (rptr rp)) (output, []) t" and "length output < fuel"
  shows "c = Io (Popen (line_of (rdat r))) \<and> out = Value () \<and>
     snd (end_state (pipe_of (rptr rp)) (output, []) t) = pieces 1024 (output @ [255]) \<and>
     (\<forall>p. Io (Pclose p) \<notin> fst ` set t)"
  by (rule sendline_run [OF assms])

text \<open>A run for any name of a command and any short output.\<close>

lemma relay_runs:
  "length line = 1024 \<Longrightarrow> pos + length bs < 1024 \<Longrightarrow> length bs < fuel \<Longrightarrow>
   \<exists>t. exec (relay_output fuel fp line pos soc info) (Value ()) t \<and> honest (pipe_of fp) (bs, ds) t"
proof (induction fuel arbitrary: line pos bs ds)
  case (Suc fuel)
  show ?case
  proof (cases bs)
    case Nil
    let ?t = "[(Io (Fgetc fp), rint (-1)), (Net (Sendto soc (take (Suc pos) (line[pos := -1])) (ai_addr info)), resp0)]"
    show ?thesis using Suc.prems Nil by (intro exI [of _ ?t]) (simp add: resp0_def)
  next
    case (Cons x xs)
    obtain t where "exec (relay_output fuel fp (line[pos := x]) (Suc pos) soc info) (Value ()) t"
      "honest (pipe_of fp) (xs, ds) t"
      using Suc.IH [of "line[pos := x]" "Suc pos" xs ds] Suc.prems Cons by auto
    moreover have "uint x \<noteq> -1" using uint_nonnegative [of x] by linarith
    ultimately show ?thesis
      using Suc.prems Cons
      by (intro exI [of _ "(Io (Fgetc fp), rint (uint x)) # t"]) (simp add: resp0_def)
  qed
qed simp

lemma sendline_runs:
  assumes "length bs < 512" and "length bs < fuel"
  obtains t where "exec (sendline_recv_handler fuel (replicate 512 0) (replicate 1024 0) soc [EV_READ] info) (Value ())
      ((Net (Recv soc 512), rbytes (bytes ''pwd'')) # (Io (Popen (bytes ''pwd'')), rpointer (Heap 7)) # t)"
    and "honest (pipe_of (rptr (rpointer (Heap 7)))) (bs, []) t"
proof -
  let ?buf = "replicate 512 0 :: byte list"
  obtain t where t: "exec (relay_output fuel (Heap 7) (replicate 1024 0) 0 soc info) (Value ()) t"
    "honest (pipe_of (Heap 7)) (bs, []) t"
    using relay_runs [of "replicate 1024 0" 0 bs fuel "Heap 7" soc info "[]"] assms by auto
  have l: "length (bytes ''pwd'') < length ?buf" by (simp add: bytes_def)
  obtain b where b: "chomp (overlay ?buf (bytes ''pwd'')) (length (bytes ''pwd'')) = Some b"
    "cstr b = line_of (bytes ''pwd'')" by (rule chomp_overlay [OF l])
  have line: "line_of (bytes ''pwd'') = bytes ''pwd''" by code_simp
  have "chomp (overlay ?buf [112, 119, 100]) 3 = Some b" "cstr b = [112, 119, 100]"
    using b line by (simp_all add: bytes_def numeral_3_eq_3)
  with t show thesis
    by (intro that [of t]) (simp_all add: sendline_recv_handler_def resp0_def bytes_def)
qed

lemma sendline_relays_witness:
  "\<exists>t. exec (sendline_recv_handler 2 (replicate 512 0) (replicate 1024 0) 3 [EV_READ]
        \<lparr>ai_family = AF_INET, ai_socktype = SOCK_DGRAM, ai_protocol = 0, ai_addr = []\<rparr>) (Value ())
      ((Net (Recv 3 512), rbytes (bytes ''pwd'')) # (Io (Popen (bytes ''pwd'')), rpointer (Heap 7)) # t) \<and>
     snd (end_state (pipe_of (Heap 7)) ([47], []) t) = [[47, 255]]"
proof -
  let ?info = "\<lparr>ai_family = AF_INET, ai_socktype = SOCK_DGRAM, ai_protocol = 0, ai_addr = []\<rparr>"
  let ?r = "rbytes (bytes ''pwd'')" and ?buf = "replicate 512 0" and ?line = "replicate 1024 0 :: byte list"
  have h: "length ?buf = 512" "length ?line = 1024" "posix_ok (Net (Recv 3 512)) ?r" "0 < rv ?r" "rv ?r < 512"
    "rptr (rpointer (Heap 7)) \<noteq> Null" "length [47 :: byte] < 2" "length [47 :: byte] < 512"
    by (simp_all add: resp0_def bytes_def)
  obtain t where e: "exec (sendline_recv_handler 2 ?buf ?line 3 [EV_READ] ?info) (Value ())
      ((Net (Recv 3 512), ?r) # (Io (Popen (bytes ''pwd'')), rpointer (Heap 7)) # t)"
    and p: "honest (pipe_of (rptr (rpointer (Heap 7)))) ([47], []) t"
    by (rule sendline_runs [OF h(8,7)])
  have "rptr (rpointer (Heap 7)) = Heap 7" by (simp add: resp0_def)
  with sendline_relays [OF h(1-5) e h(6) p h(7)] e show ?thesis
    by (intro exI [of _ t]) (simp add: pieces_short)
qed

end
