(* ===== verification/Socket_Client.thy ===== *)
theory Socket_Client
  imports Datagrams
begin

text \<open>
  The client of the socket example and of the daemon, \<^verbatim>\<open>src/socket/client/client.c\<close> and
  \<^verbatim>\<open>recv_handler.c\<close> (the files of \<^verbatim>\<open>src/daemon/client\<close> are the same): lines from the terminal go
  to the server, lines from the server are shown.
\<close>

definition client_recv_handler :: "byte list \<Rightarrow> int \<Rightarrow> evflag list \<Rightarrow> unit cprog" where
  "client_recv_handler buf soc event =
     (if EV_READ \<notin> set event then Ret () else
      Sys (Net (Recv soc 512)) (\<lambda>r.
      if rv r = -1 then perror ''recv'' (close_fd soc (Ret ()))
      else if rv r = 0 then eprintf ''recv:EOF'' [] (close_fd soc (Ret ()))
      else
        need (chomp (overlay buf (rdat r)) (nat (rv r))) OutOfBounds (\<lambda>buf.
        eprintf ''[server]%s'' [PS (cstr buf)] (Ret ()))))"

definition client_read_stdin :: "byte list \<Rightarrow> int \<Rightarrow> int \<Rightarrow> unit cprog" where
  "client_read_stdin buf soc fd =
     read_line buf fd () (\<lambda>b.
     need (strlen_c b) OutOfBounds (\<lambda>len.
     Sys (Net (Send soc (take len b))) (\<lambda>r.
     (if rv r = -1 then \<lambda>k. perror ''send'' (call (Ev (Event_loopexit Null)) k) else id)
     (exit_or_prompt b))))"

definition socket_client_main :: "(char \<times> string) list \<Rightarrow> int cprog" where
  "socket_client_main args =
     required args (\<lambda>host port.
     call (Ev Event_init) (
     call (Ev (Signal_set (Local ''sig'') SIGINT ''sig_int_handler'' Null)) (
     call (Ev (Signal_add (Local ''sig''))) (
     andthen (client_socket host port) (\<lambda>soc.
     if soc = -1 then eprintf ''client_socket failed'' [] (Exit 1)
     else
       call (Ev (Event_set (Local ''ev'') soc [EV_READ, EV_PERSIST] ''recv_handler'' (Local ''ev''))) (
       Sys (Ev (Event_add (Local ''ev''))) (\<lambda>r.
       if rv r \<noteq> 0 then perror ''event_add'' (close_fd soc (Exit 1))
       else
         call (Io (Setbuf ''stdin'')) (
         call (Io (Setbuf ''stdout'')) (
         call (Ev (Event_set (Local ''ev_io'') 0 [EV_READ, EV_PERSIST] ''read_stdin'' Null)) (
         Sys (Ev (Event_add (Local ''ev_io''))) (\<lambda>r.
         if rv r \<noteq> 0 then perror ''event_add'' (close_fd soc (Exit 1))
         else
           oprintf ''> '' [] (
           call (Ev (Event_dispatch Null)) (
           eprintf ''END'' [] (Ret 0))))))))))))))"

subsection \<open>A line on its way\<close>

text \<open>A typed line is sent without its line end.\<close>

lemma typed_line_sent:
  assumes "length buf = 256" and "0 \<notin> set xs" and "length xs < 255"
    and "exec (client_read_stdin buf soc fd) out ((Io (Read fd 255), rbytes (xs @ [LF])) # (c, r) # t)"
  shows "c = Net (Send soc xs) \<and> out = Value ()"
proof -
  let ?b = "(overlay buf (xs @ [LF]))[length xs := 0]"
  have o: "overlay buf (xs @ [LF]) = xs @ LF # drop (Suc (length xs)) buf" by (simp add: overlay_def)
  have b: "?b = xs @ 0 # drop (Suc (length xs)) buf" unfolding o by simp
  have n: "strlen_c ?b = Some (length xs)" "take (length xs) ?b = xs"
    unfolding b using assms(2) by (simp_all add: strlen_c_eq)
  have l: "length xs < length (overlay buf (xs @ [LF]))" using assms(1,3) by (simp add: o)
  have nth: "overlay buf (xs @ [LF]) ! length xs = LF" by (simp add: o)
  have len: "nat (1 + int (length xs)) = Suc (length xs)" by simp
  from assms(4) show ?thesis
    using l n by (auto simp: client_read_stdin_def read_line_def resp0_def nth len exit_or_prompt_def Let_def split: if_splits)
qed

text \<open>
  The answer of the echo service to a line that fits, \<open>:OK\<close> and a line end behind it, is shown
  without the line end.
\<close>

lemma echo_answer_shown:
  assumes "length buf = 512" and "line_of xs = xs" and "length xs + 5 < 512"
    and "exec (client_recv_handler buf soc [EV_READ]) out ((Net (Recv soc 512), rbytes (acknowledged xs 512)) # t)"
  shows "out = Value () \<and> map fst t = [Io (Fprintf Stderr ''[server]%s'' [PS (xs @ bytes '':OK'')])]"
proof -
  have a: "acknowledged xs 512 = xs @ bytes '':OK'' @ [CR, LF]"
    using assms(3) by (simp add: acknowledged_def ok_suffix_def bytes_def)
  have l: "length (acknowledged xs 512) < length buf" using assms(1,3) by (simp add: a bytes_def)
  have plain: "\<forall>x \<in> set xs. x \<noteq> 0 \<and> x \<noteq> CR \<and> x \<noteq> LF"
    using assms(2) set_takeWhileD [of _ "\<lambda>x. x \<noteq> 0 \<and> x \<noteq> CR \<and> x \<noteq> LF" xs] unfolding line_of_def by metis
  have line: "line_of (acknowledged xs 512) = xs @ bytes '':OK''"
    unfolding a line_of_def using plain by (subst takeWhile_append2) (auto simp: bytes_def)
  obtain b where b: "chomp (overlay buf (acknowledged xs 512)) (length (acknowledged xs 512)) = Some b"
    "cstr b = line_of (acknowledged xs 512)" by (rule chomp_overlay [OF l])
  have ne: "acknowledged xs 512 \<noteq> []" by (simp add: a)
  from assms(4) show ?thesis
    using b ne by (auto simp: client_recv_handler_def resp0_def line)
qed

end
