(* ===== verification/Shared_Memory.thy ===== *)
theory Shared_Memory
  imports Line_Echo
begin

text \<open>
  The two programs that share 1024 bytes of memory, \<^verbatim>\<open>src/shared_memory/writer/writer.c\<close> and
  \<^verbatim>\<open>src/shared_memory/reader/reader.c\<close>: the writer stores the line typed last, the reader shows
  it when asked.  The memory is a list of bytes the handlers get and the writer gives back.
\<close>

text \<open>\<^verbatim>\<open>sprintf(mem, "%s", s)\<close>.\<close>

definition sprintf_s :: "byte list \<Rightarrow> byte list \<Rightarrow> byte list option" where
  "sprintf_s mem s = (if length s < length mem then Some (overlay mem (s @ [0])) else None)"

definition quoted :: "string \<Rightarrow> string" where
  "quoted s = s @ [CHR 0x27] @ ''%s'' @ [CHR 0x27]"

definition writer_stdin :: "byte list \<Rightarrow> int \<Rightarrow> byte list \<Rightarrow> byte list cprog" where
  "writer_stdin buf fd mem =
     read_line buf fd mem (\<lambda>b.
     eprintf (quoted ''[writer] input '') [PS (cstr b)] (
     if streq b (bytes ''exit'') then call (Ev (Event_loopexit Null)) (Ret mem)
     else need (sprintf_s mem (cstr b)) OutOfBounds (\<lambda>mem. oprintf ''> '' [] (Ret mem))))"

definition read_shm :: "byte list \<Rightarrow> int \<Rightarrow> unit cprog" where
  "read_shm buf fd =
     eprintf ''read_shm called'' [] (
     read_line buf fd () (\<lambda>b. eprintf (quoted ''[shm] input '') [PS (cstr b)] (Ret ())))"

definition reader_stdin :: "byte list \<Rightarrow> int \<Rightarrow> byte list \<Rightarrow> unit cprog" where
  "reader_stdin buf fd mem =
     read_line buf fd () (\<lambda>b.
     eprintf (quoted ''[reader] input '') [PS (cstr b)] (
     if streq b (bytes ''exit'') then call (Ev (Event_loopexit Null)) (Ret ())
     else if streq b (bytes ''read'')
     then need (strlen_c mem) OutOfBounds (\<lambda>_.
          oprintf ''%s'' [PS (cstr mem)] (oprintf ''> '' [] (Ret ())))
     else oprintf ''> '' [] (Ret ())))"

definition shm_start :: "int cprog \<Rightarrow> int cprog" where
  "shm_start k =
     call (Ev Event_init) (
     call (Ev (Signal_set (Local ''sig'') SIGINT ''sig_int_handler'' Null)) (
     call (Ev (Signal_add (Local ''sig''))) (
     call (Io (Setbuf ''stdin'')) (
     call (Io (Setbuf ''stdout'')) k))))"

definition watch_stdin :: "int cprog \<Rightarrow> int cprog" where
  "watch_stdin k =
     call (Ev (Event_set (Local ''io_ev'') 0 [EV_READ, EV_PERSIST] ''read_stdin'' (Local ''ud''))) (
     call (Ev (Event_add (Local ''io_ev''))) (
     oprintf ''> '' [] (
     call (Ev (Event_dispatch Null)) (
     eprintf ''END'' [] k))))"

definition writer_main :: "int cprog" where
  "writer_main =
     shm_start (
     Sys (Io (Shm_open ''test'' True)) (\<lambda>rs.
     let fd = rv rs in
     if fd = -1 then eprintf ''shm_open failed'' [] (Exit 1)
     else
       call (Io (Ftruncate fd 1024)) (
       Sys (Io (Fstat fd)) (\<lambda>st.
       call (Io (Mmap fd (nat (rv st)) True)) (
       watch_stdin (close_fd fd (call (Io (Shm_unlink ''test'')) (Exit 0))))))))"

definition reader_main :: "int cprog" where
  "reader_main =
     shm_start (
     Sys (Io (Shm_open ''test'' False)) (\<lambda>rs.
     let fd = rv rs in
     if fd = -1 then eprintf ''shm_open failed'' [] (Exit 1)
     else
       Sys (Io (Mmap fd 1024 False)) (\<lambda>rm.
       eprintf ''buf is %p'' [] (
       eprintf ''INFO : event_set'' [] (
       call (Ev (Event_set (Local ''shm_ev'') fd [EV_READ, EV_PERSIST] ''read_shm'' (Local ''ud''))) (
       eprintf ''INFO : event_add'' [] (
       call (Ev (Event_add (Local ''shm_ev''))) (
       watch_stdin (close_fd fd (Exit 0))))))))))"

subsection \<open>What the writer stores the reader shows\<close>

definition typed :: "byte list \<Rightarrow> byte list" where
  "typed xs = cstr (if xs \<noteq> [] \<and> last xs = LF then butlast xs else xs)"

lemma read_line_exec:
  assumes "exec (read_line buf fd x k) out ((Io (Read fd 255), rbytes xs) # t)" and "length buf = 256"
    and "xs \<noteq> []" and "length xs \<le> 255"
  obtains b where "exec (k b) out t" and "terminated b" and "cstr b = typed xs" and "length b = 256"
proof -
  let ?n = "if last xs = LF then length xs - 1 else length xs"
  let ?b = "(overlay buf xs)[?n := 0]"
  have o: "overlay buf xs = xs @ drop (length xs) buf" by (simp add: overlay_def)
  have n: "?n < length (overlay buf xs)" using assms(2,4) by (auto simp: o)
  have last: "overlay buf xs ! (length xs - 1) = last xs" using assms(3) by (simp add: o nth_append last_conv_nth)
  have e: "exec (k ?b) out t"
    using assms(1,3) n by (auto simp: read_line_def resp0_def Let_def last [simplified])
  have "take ?n (overlay buf xs) = (if last xs = LF then butlast xs else xs)"
    using assms(3) by (simp add: o butlast_conv_take)
  moreover have "?b = take ?n (overlay buf xs) @ 0 # drop (Suc ?n) (overlay buf xs)"
    by (rule upd_conv_take_nth_drop [OF n])
  ultimately have c: "cstr ?b = typed xs" using assms(3) by (auto simp: typed_def cstr_append cstr_id)
  have "length ?b = 256" using assms(2,4) by simp
  from that [OF e terminated_update [OF n] c this] show thesis .
qed

text \<open>
  Every line that is typed fits, and the memory then holds it: the reader shows exactly the
  writer's last line.
\<close>

lemma writer_stores:
  assumes "exec (writer_stdin buf fd mem) out ((Io (Read fd 255), rbytes xs) # t)" and "length buf = 256"
    and "xs \<noteq> []" and "length xs \<le> 255" and "256 \<le> length mem" and "typed xs \<noteq> bytes ''exit''"
  obtains mem' where "out = Value mem'" and "length mem' = length mem" and "terminated mem'" and "cstr mem' = typed xs"
proof -
  obtain b where e: "exec (eprintf (quoted ''[writer] input '') [PS (cstr b)] (
      if streq b (bytes ''exit'') then call (Ev (Event_loopexit Null)) (Ret mem)
      else need (sprintf_s mem (cstr b)) OutOfBounds (\<lambda>mem. oprintf ''> '' [] (Ret mem)))) out t"
    and b: "terminated b" "cstr b = typed xs" "length b = 256"
    by (rule read_line_exec [OF assms(1) [unfolded writer_stdin_def] assms(2-4)])
  have l: "length (typed xs) < length mem" using length_cstr_less [OF b(1)] b assms(5) by simp
  let ?m = "overlay mem (typed xs @ [0])"
  have "cstr ?m = typed xs" unfolding overlay_def using b(2) by (metis append.assoc append_Cons append_Nil cstr_no_nul cstr_terminated_append)
  moreover have "terminated ?m" by (simp add: overlay_def)
  moreover have "out = Value ?m" using e l assms(6) b by (auto simp: streq_def sprintf_s_def)
  ultimately show thesis using that [of ?m] l by simp
qed

lemma reader_shows:
  assumes "exec (reader_stdin buf fd mem) out ((Io (Read fd 255), rbytes (bytes ''read'' @ [LF])) # t)"
    and "length buf = 256" and "terminated mem"
  shows "out = Value () \<and> Io (Fprintf Stdout ''%s'' [PS (cstr mem)]) \<in> fst ` set t"
proof -
  have x: "bytes ''read'' @ [LF] \<noteq> []" "length (bytes ''read'' @ [LF]) \<le> 255" "typed (bytes ''read'' @ [LF]) = bytes ''read''"
    "bytes ''read'' \<noteq> bytes ''exit''"
    by (simp_all add: bytes_def typed_def)
  obtain b where "exec (eprintf (quoted ''[reader] input '') [PS (cstr b)] (
      if streq b (bytes ''exit'') then call (Ev (Event_loopexit Null)) (Ret ())
      else if streq b (bytes ''read'')
      then need (strlen_c mem) OutOfBounds (\<lambda>_.
           oprintf ''%s'' [PS (cstr mem)] (oprintf ''> '' [] (Ret ())))
      else oprintf ''> '' [] (Ret ()))) out t" "terminated b" "cstr b = bytes ''read''"
    using x(3) by (metis read_line_exec [OF assms(1) [unfolded reader_stdin_def] assms(2) x(1,2)])
  then show ?thesis using assms(3) x(4) by (auto simp: streq_def strlen_c_eq)
qed

end
