(* ===== verification/Serial.thy ===== *)
theory Serial
  imports Sys_Calls
begin

unbundle bit_operations_syntax

text \<open>
  The serial terminal \<^verbatim>\<open>src/serial/serial.c\<close> with \<^verbatim>\<open>baudrate.c\<close> (\<^verbatim>\<open>src/myterm/main.c\<close> is an earlier
  form of it): what is typed goes to the port, what comes from the port to the screen.  The
  flags of \<^verbatim>\<open>termios\<close> have their values of Linux.
\<close>

subsection \<open>Terminal settings\<close>

record termios =
  c_iflag :: "32 word"
  c_oflag :: "32 word"
  c_cflag :: "32 word"
  c_lflag :: "32 word"
  c_vmin :: byte
  c_vtime :: byte
  c_speed :: "32 word"

definition ICANON :: "32 word" where "ICANON = 0x2"
definition ECHO :: "32 word" where "ECHO = 0x8"
definition ECHOE :: "32 word" where "ECHOE = 0x10"
definition IGNBRK :: "32 word" where "IGNBRK = 0x1"
definition IXON :: "32 word" where "IXON = 0x400"
definition IXANY :: "32 word" where "IXANY = 0x800"
definition IXOFF :: "32 word" where "IXOFF = 0x1000"
definition CSIZE :: "32 word" where "CSIZE = 0x30"
definition CS8 :: "32 word" where "CS8 = 0x30"
definition CSTOPB :: "32 word" where "CSTOPB = 0x40"
definition CREAD :: "32 word" where "CREAD = 0x80"
definition PARENB :: "32 word" where "PARENB = 0x100"
definition PARODD :: "32 word" where "PARODD = 0x200"
definition CLOCAL :: "32 word" where "CLOCAL = 0x800"
definition CRTSCTS :: "32 word" where "CRTSCTS = 0x80000000"

lemmas flag_defs = ICANON_def ECHO_def ECHOE_def IGNBRK_def IXON_def IXANY_def IXOFF_def CSIZE_def CS8_def
  CSTOPB_def CREAD_def PARENB_def PARODD_def CLOCAL_def CRTSCTS_def

text \<open>What \<^verbatim>\<open>set_stdin_canonical\<close>, \<^verbatim>\<open>set_port_attributes\<close> and \<^verbatim>\<open>set_blocking\<close> make of the settings.\<close>

definition canonical_tty :: "bool \<Rightarrow> termios \<Rightarrow> termios" where
  "canonical_tty enabled tty =
     (let tty = (if enabled
        then tty\<lparr>c_lflag := (c_lflag tty OR ICANON) OR (ECHO OR ECHOE)\<rparr>
        else tty\<lparr>c_lflag := (c_lflag tty AND NOT ICANON) AND NOT (ECHO OR ECHOE)\<rparr>) in
      tty\<lparr>c_vmin := 0, c_vtime := 5\<rparr>)"

definition port_tty :: "32 word \<Rightarrow> 32 word \<Rightarrow> termios \<Rightarrow> termios" where
  "port_tty speed parity tty =
     (let tty = tty\<lparr>c_speed := speed\<rparr>;
          tty = tty\<lparr>c_cflag := (c_cflag tty AND NOT CSIZE) OR CS8\<rparr>;
          tty = tty\<lparr>c_iflag := c_iflag tty AND NOT IGNBRK, c_lflag := 0, c_oflag := 0, c_vmin := 0, c_vtime := 5\<rparr>;
          tty = tty\<lparr>c_iflag := c_iflag tty AND NOT (IXON OR IXOFF OR IXANY)\<rparr>;
          tty = tty\<lparr>c_cflag := c_cflag tty OR (CLOCAL OR CREAD)\<rparr>;
          tty = tty\<lparr>c_cflag := c_cflag tty AND NOT (PARENB OR PARODD)\<rparr>;
          tty = tty\<lparr>c_cflag := c_cflag tty OR parity\<rparr>;
          tty = tty\<lparr>c_cflag := c_cflag tty AND NOT CSTOPB\<rparr> in
      tty\<lparr>c_cflag := c_cflag tty AND NOT CRTSCTS\<rparr>)"

definition blocking_tty :: "bool \<Rightarrow> termios \<Rightarrow> termios" where
  "blocking_tty should_block tty = tty\<lparr>c_vmin := (if should_block then 1 else 0), c_vtime := 5\<rparr>"

subsection \<open>Calls\<close>

record tresp = resp +
  t_tty :: termios
  t_errno :: int

datatype tcall =
    Plain call
  | Tcgetattr int
  | Tcsetattr int bool termios   \<comment> \<open>whether input is flushed\<close>
  | Setlocale

type_synonym 'a tprog = "(tcall, tresp, 'a) prog"
type_synonym ttrace = "(tcall \<times> tresp) list"

abbreviation plain :: "call \<Rightarrow> 'a tprog \<Rightarrow> 'a tprog" where
  "plain c p \<equiv> call (Plain c) p"
abbreviation message :: "string \<Rightarrow> parg list \<Rightarrow> 'a tprog \<Rightarrow> 'a tprog" where
  "message f as p \<equiv> plain (Io (Fprintf Stderr f as)) p"

definition change_tty :: "int \<Rightarrow> (termios \<Rightarrow> termios) \<Rightarrow> int tprog" where
  "change_tty fd f =
     Sys (Tcgetattr fd) (\<lambda>r.
     if rv r \<noteq> 0 then message ''tcgetattr failed'' [] (Ret (-1))
     else
       Sys (Tcsetattr fd False (f (t_tty r))) (\<lambda>r.
       if rv r \<noteq> 0 then message ''error %d from tcsetattr'' [PI (t_errno r)] (Ret (-1)) else Ret 0))"

definition set_stdin_canonical :: "bool \<Rightarrow> int tprog" where
  "set_stdin_canonical enabled = change_tty 0 (canonical_tty enabled)"

definition set_port_attributes :: "int \<Rightarrow> 32 word \<Rightarrow> 32 word \<Rightarrow> int tprog" where
  "set_port_attributes fd speed parity = change_tty fd (port_tty speed parity)"

definition set_blocking :: "int \<Rightarrow> bool \<Rightarrow> unit tprog" where
  "set_blocking fd should_block =
     Sys (Tcgetattr fd) (\<lambda>r.
     if rv r \<noteq> 0 then message ''error %d from tggetattr'' [PI (t_errno r)] (Ret ())
     else
       Sys (Tcsetattr fd False (blocking_tty should_block (t_tty r))) (\<lambda>r.
       if rv r \<noteq> 0 then message ''error %d setting term attributes'' [PI (t_errno r)] (Ret ()) else Ret ()))"

subsection \<open>Handlers\<close>

record serialdata =
  fd_port :: int
  canonical_mode :: bool
  b_echo :: bool
  debug :: bool

definition serial_sig_int :: "serialdata \<Rightarrow> unit tprog" where
  "serial_sig_int d =
     (if canonical_mode d
      then plain (Io (Fprintf Stdout [CHR 0x0A] [])) (plain (Ev (Event_loopexit Null)) (Ret ()))
      else
        (if debug d then plain (Io (Fprintf Stdout ''(write ctrl+c, 0x03)'' [])) else id)
        (plain (Io (Write (fd_port d) [3])) (Ret ())))"

abbreviation ESC :: byte where "ESC \<equiv> 0x1B"
abbreviation EOT :: byte where "EOT \<equiv> 0x04"
abbreviation DEL :: byte where "DEL \<equiv> 0x7F"

text \<open>
  The two loops of \<^verbatim>\<open>stdin_handler\<close>.  The mode is looked at once, in front of the loop; in
  the second loop all but \<^verbatim>\<open>ESC\<close> take branches that write the byte.
\<close>

primrec canonical_loop :: "byte list \<Rightarrow> serialdata \<Rightarrow> serialdata tprog" where
  "canonical_loop [] d = Ret d"
| "canonical_loop (c # cs) d =
     (if c = ESC
      then
        (if debug d then message ''(ESC)'' [] else id)
        (plain (Io (Write (fd_port d) [c]))
        (andthen (set_stdin_canonical False) (\<lambda>_. canonical_loop cs (d\<lparr>canonical_mode := False\<rparr>))))
      else plain (Io (Write (fd_port d) [c])) (canonical_loop cs d))"

primrec raw_loop :: "byte list \<Rightarrow> serialdata \<Rightarrow> serialdata tprog" where
  "raw_loop [] d = Ret d"
| "raw_loop (c # cs) d =
     (if c = EOT
      then \<lambda>k. (if debug d then message ''(Ctrl+D)'' [] else id) (plain (Ev (Event_loopexit Null)) k)
      else id)
     (if c = ESC
      then
        (if debug d then message ''(ESC)'' [] else id)
        (plain (Io (Write (fd_port d) [c]))
        (andthen (set_stdin_canonical True) (\<lambda>_. raw_loop cs (d\<lparr>canonical_mode := True\<rparr>))))
      else plain (Io (Write (fd_port d) [c])) (raw_loop cs d))"

definition serial_stdin :: "int \<Rightarrow> serialdata \<Rightarrow> serialdata tprog" where
  "serial_stdin fd d =
     Sys (Plain (Io (Read fd 255))) (\<lambda>r.
     if rv r = -1 then plain (Io (Perror ''read error'')) (Ret d)
     else if rv r = 0
     then plain (Io (Perror ''closed'')) (plain (Ev (Event_loopexit Null)) (Ret d))
     else if canonical_mode d then canonical_loop (rdat r) d
     else raw_loop (rdat r) d)"

text \<open>\<^verbatim>\<open>isprint\<close> in the C locale.\<close>

definition isprint :: "byte \<Rightarrow> bool" where
  "isprint c \<longleftrightarrow> 0x20 \<le> c \<and> c < 0x7F"

primrec port_loop :: "int \<Rightarrow> serialdata \<Rightarrow> byte list \<Rightarrow> unit tprog" where
  "port_loop fd d [] = Ret ()"
| "port_loop fd d (c # cs) =
     (if isprint c \<or> c = LF then message ''%c'' [PS [c]]
      else if c = DEL then message [CHR 0x08, CHR '' '', CHR 0x08] []
      else if c = ESC then message [CHR 0x08, CHR '' '', CHR 0x08] []
      else if debug d then message ''(0x%02x)'' [PI (sint c)]
      else id)
     ((if b_echo d then plain (Io (Write fd [c])) else id) (port_loop fd d cs))"

definition port_handler :: "int \<Rightarrow> serialdata \<Rightarrow> unit tprog" where
  "port_handler fd d =
     Sys (Plain (Io (Read fd 255))) (\<lambda>r.
     if rv r = -1 then plain (Io (Perror ''read error'')) (Ret ())
     else if rv r = 0 then plain (Io (Perror ''closed'')) (Ret ())
     else port_loop fd d (rdat r))"

subsection \<open>Start\<close>

definition baud_table :: "(int \<times> 32 word) list" where
  "baud_table =
     [(0, 0), (50, 1), (75, 2), (110, 3), (134, 4), (150, 5), (200, 6), (300, 7), (600, 8), (1200, 9),
      (1800, 10), (2400, 11), (4800, 12), (9600, 13), (19200, 14), (38400, 15), (57600, 0x1001),
      (115200, 0x1002), (230400, 0x1003)]"

definition get_baudrate_flag :: "int \<Rightarrow> 32 word" where
  "get_baudrate_flag baudrate = (case map_of baud_table baudrate of Some f \<Rightarrow> f | None \<Rightarrow> 0)"

fun atoi_digits :: "int \<Rightarrow> string \<Rightarrow> int" where
  "atoi_digits v [] = v"
| "atoi_digits v (c # cs) =
     (if 48 \<le> (of_char c :: nat) \<and> (of_char c :: nat) \<le> 57 then atoi_digits (v * 10 + (of_char c - 48)) cs else v)"

definition atoi :: "string \<Rightarrow> int" where
  "atoi s =
     (case dropWhile (\<lambda>c. c \<in> {CHR '' '', CHR 0x09, CHR 0x0A, CHR 0x0B, CHR 0x0C, CHR 0x0D}) s of
        [] \<Rightarrow> 0
      | c # cs \<Rightarrow>
          if c = CHR ''-'' then - atoi_digits 0 cs
          else if c = CHR ''+'' then atoi_digits 0 cs
          else atoi_digits 0 (c # cs))"

definition options_data :: "(char \<times> string) list \<Rightarrow> serialdata" where
  "options_data args = \<lparr>fd_port = 0, canonical_mode = False,
     b_echo = (CHR ''e'' \<in> fst ` set args), debug = (CHR ''d'' \<in> fst ` set args)\<rparr>"

text \<open>From the opening of the port on, with the settings \<open>ts\<close> to come back to.\<close>

definition serial_run :: "string \<Rightarrow> 32 word \<Rightarrow> termios \<Rightarrow> string \<Rightarrow> int tprog" where
  "serial_run port speed ts name =
     plain (Ev Event_init) (
     plain (Ev (Signal_set (Local ''sig_ev'') SIGINT ''sig_int_handler'' (Local ''userdata''))) (
     plain (Ev (Signal_add (Local ''sig_ev''))) (
     Sys (Plain (Io (Open port))) (\<lambda>ro.
     let fd = rv ro in
     if fd < 0 then message ''can not open %s'' [PS (bytes port)] (Exit 1)
     else
       plain (Ev (Event_set (Local ''ev'') fd [EV_READ, EV_PERSIST] ''port_handler'' (Local ''userdata''))) (
       Sys (Plain (Ev (Event_add (Local ''ev'')))) (\<lambda>r.
       if rv r \<noteq> 0 then plain (Io (Perror ''event_add'')) (plain (Net (Close fd)) (Exit 1))
       else
         andthen (set_port_attributes fd speed 0) (\<lambda>_.
         andthen (set_blocking fd False) (\<lambda>_.
         plain (Io (Setbuf ''stdin'')) (
         plain (Io (Setbuf ''stdout'')) (
         andthen (set_stdin_canonical False) (\<lambda>_.
         plain (Ev (Event_set (Local ''io_ev'') 0 [EV_READ, EV_PERSIST] ''stdin_handler'' (Local ''userdata''))) (
         plain (Ev (Event_add (Local ''io_ev''))) (
         plain (Ev (Event_dispatch Null)) (
         message ''END'' [] (
         Sys (Tcsetattr 0 True ts) (\<lambda>r.
         if rv r \<noteq> 0
         then message ''ERROR : %s'' [PI (t_errno r)] (plain (Io (Perror name)) (Exit (t_errno r)))
         else Ret 0))))))))))))))))"

definition serial_main :: "string \<Rightarrow> (char \<times> string) list \<Rightarrow> int tprog" where
  "serial_main name args =
     (let port = opt_arg (CHR ''p'') args;
          baudrate = (case opt_arg (CHR ''b'') args of None \<Rightarrow> -1 | Some s \<Rightarrow> atoi s);
          speed = get_baudrate_flag baudrate in
      (if port = None then message ''no port option'' [] else id)
      ((if baudrate = -1 then message ''no baudrate option'' []
        else if speed = -1 then message ''invalid baudrate, %d'' [PI baudrate] else id)
      (if port = None \<or> baudrate = -1 \<or> speed = -1 then Exit 1
       else
         call Setlocale (
         Sys (Tcgetattr 0) (\<lambda>r.
         if rv r \<noteq> 0
         then message ''ERROR : %s'' [PI (t_errno r)] (plain (Io (Perror name)) (Exit (t_errno r)))
         else serial_run (the port) speed (t_tty r) name)))))"

subsection \<open>Settings\<close>

text \<open>The changes touch the named flags only, and making them again changes nothing.\<close>

lemma canonical_tty_again: "canonical_tty b (canonical_tty b' tty) = canonical_tty b tty"
  by (cases tty) (auto simp: canonical_tty_def Let_def bit_simps intro!: bit_word_eqI)

lemma canonical_tty_flags:
  "c_lflag (canonical_tty b tty) AND (ICANON OR ECHO OR ECHOE) = (if b then ICANON OR ECHO OR ECHOE else 0)"
  "c_lflag (canonical_tty b tty) AND NOT (ICANON OR ECHO OR ECHOE) = c_lflag tty AND NOT (ICANON OR ECHO OR ECHOE)"
  by (auto simp: canonical_tty_def intro!: bit_word_eqI) (auto simp: bit_simps)

lemma port_tty_again: "port_tty speed parity (port_tty speed' parity tty) = port_tty speed parity tty"
  by (cases tty) (auto simp: port_tty_def Let_def bit_simps intro!: bit_word_eqI)

lemma port_tty_flags:
  "c_cflag (port_tty speed 0 tty) AND (PARENB OR PARODD OR CSTOPB OR CRTSCTS) = 0"
  "c_lflag (port_tty speed p tty) = 0" "c_oflag (port_tty speed p tty) = 0"
  "c_iflag (port_tty speed p tty) AND (IGNBRK OR IXON OR IXOFF OR IXANY) = 0"
  by (auto simp: port_tty_def intro!: bit_word_eqI) (auto simp: bit_simps)

subsection \<open>Bytes\<close>

text \<open>A monitor of the screen and of what is written to one descriptor.\<close>

definition on_screen :: "string \<Rightarrow> parg list \<Rightarrow> byte list" where
  "on_screen f as = (case as of [] \<Rightarrow> bytes f | PS x # _ \<Rightarrow> x | PI _ # _ \<Rightarrow> [])"

fun wire_st :: "int \<Rightarrow> byte list \<times> byte list \<Rightarrow> tcall \<Rightarrow> tresp \<Rightarrow> byte list \<times> byte list" where
  "wire_st fd (s, w) (Plain (Io (Write f bs))) r = (s, if f = fd then w @ bs else w)"
| "wire_st fd (s, w) (Plain (Io (Fprintf Stderr f as))) r = (s @ on_screen f as, w)"
| "wire_st fd h c r = h"

definition wires :: "int \<Rightarrow> (byte list \<times> byte list, tcall, tresp) monitor" where
  "wires fd = \<lparr>m_ok = \<lambda>_ _. True, m_env = \<lambda>_ _ _. True, m_st = wire_st fd\<rparr>"

lemma wires_simps [simp]:
  "m_ok (wires fd) = (\<lambda>_ _. True)" "m_env (wires fd) = (\<lambda>_ _ _. True)" "m_st (wires fd) = wire_st fd"
  by (simp_all add: wires_def)

lemma honest_free: "(\<And>h c r. m_env M h c r) \<Longrightarrow> honest M h t"
  by (induction t arbitrary: h) auto

lemma honest_wires: "honest (wires fd) h t"
  by (rule honest_free) simp

lemma change_tty_quiet:
  "safe (wires fd) (change_tty f g) h (\<lambda>out h'. (\<exists>n. out = Value n) \<and> snd h' = snd h)"
  by (cases h) (auto simp: change_tty_def)

text \<open>The change of the mode in the loops, whatever it answers.\<close>

lemma after_change:
  assumes "\<And>s'. safe (wires fd) k (s', w) Q"
  shows "safe (wires fd) (andthen (set_stdin_canonical b) (\<lambda>_. k)) (s, w) Q"
  unfolding set_stdin_canonical_def
  by (rule safe_andthen [OF change_tty_quiet]) (use assms in \<open>auto simp: split_paired_all\<close>)

lemma canonical_loop_bytes:
  "safe (wires (fd_port d)) (canonical_loop cs d) (s, w) (\<lambda>out h.
     out = Value (d\<lparr>canonical_mode := canonical_mode d \<and> ESC \<notin> set cs\<rparr>) \<and> snd h = w @ cs)"
proof (induction cs arbitrary: d s w)
  case (Cons c cs)
  from Cons.IH [of d _ "w @ [c]"] Cons.IH [of "d\<lparr>canonical_mode := False\<rparr>" _ "w @ [c]"] show ?case
    by (auto intro!: after_change)
qed simp

lemma raw_loop_bytes:
  "safe (wires (fd_port d)) (raw_loop cs d) (s, w) (\<lambda>out h.
     out = Value (d\<lparr>canonical_mode := canonical_mode d \<or> ESC \<in> set cs\<rparr>) \<and> snd h = w @ cs)"
proof (induction cs arbitrary: d s w)
  case (Cons c cs)
  from Cons.IH [of d _ "w @ [c]"] Cons.IH [of "d\<lparr>canonical_mode := True\<rparr>" _ "w @ [c]"] show ?case
    by (auto intro!: after_change)
qed simp

text \<open>
  What is typed reaches the port, byte for byte and in order, with the keys that mean something
  (also the one that ends the program); the mode is turned over once by any number of \<^verbatim>\<open>ESC\<close> in
  one read, as it is looked at before the loop.
\<close>

lemma typed_bytes_reach_port:
  assumes "exec (serial_stdin fd d) out ((Plain (Io (Read fd 255)), r) # t)" and "0 < rv r"
  shows "out = Value (d\<lparr>canonical_mode := (canonical_mode d \<noteq> (ESC \<in> set (rdat r)))\<rparr>) \<and>
     snd (end_state (wires (fd_port d)) ([], w) t) = w @ rdat r"
proof (cases "canonical_mode d")
  case True
  with assms have "exec (canonical_loop (rdat r) d) out t" by (auto simp: serial_stdin_def)
  from safe_exec(2) [OF this canonical_loop_bytes honest_wires] True show ?thesis by simp
next
  case False
  with assms have "exec (raw_loop (rdat r) d) out t" by (auto simp: serial_stdin_def)
  from safe_exec(2) [OF this raw_loop_bytes honest_wires] False show ?thesis by simp
qed

text \<open>What the bytes of the port look like on the screen, and what is echoed.\<close>

definition shown_as :: "byte \<Rightarrow> byte list" where
  "shown_as c = (if isprint c \<or> c = LF then [c] else if c = DEL \<or> c = ESC then [8, 32, 8] else [])"

lemma show_byte:
  assumes "safe (wires fd) k (s @ shown_as c, w) Q"
  shows "safe (wires fd) ((if isprint c \<or> c = LF then message ''%c'' [PS [c]]
      else if c = DEL then message [CHR 0x08, CHR '' '', CHR 0x08] []
      else if c = ESC then message [CHR 0x08, CHR '' '', CHR 0x08] []
      else if debug d then message ''(0x%02x)'' [PI (sint c)]
      else id) k) (s, w) Q"
proof -
  have rub: "on_screen [CHR 0x08, CHR '' '', CHR 0x08] [] = [8, 32, 8]" "on_screen ''%c'' [PS [c]] = [c]"
    "on_screen ''(0x%02x)'' [PI (sint c)] = []"
    by (simp_all add: on_screen_def bytes_def)
  show ?thesis using assms unfolding shown_as_def by (auto simp add: rub split: if_splits)
qed

lemma port_loop_shows:
  "safe (wires fd) (port_loop fd d cs) (s, w) (\<lambda>out h.
     out = Value () \<and> h = (s @ concat (map shown_as cs), w @ (if b_echo d then cs else [])))"
proof (induction cs arbitrary: s w)
  case (Cons c cs)
  from Cons.IH [of "s @ shown_as c" "if b_echo d then w @ [c] else w"] show ?case
    unfolding port_loop.simps by (intro show_byte) (cases "b_echo d"; simp)
qed simp

lemma port_bytes_shown:
  assumes "exec (port_handler fd d) out ((Plain (Io (Read fd 255)), r) # t)" and "0 < rv r"
  shows "out = Value () \<and> end_state (wires fd) ([], []) t =
     (concat (map shown_as (rdat r)), if b_echo d then rdat r else [])"
proof -
  from assms have "exec (port_loop fd d (rdat r)) out t" by (auto simp: port_handler_def)
  from safe_exec(2) [OF this port_loop_shows honest_wires, of "[]" "[]"] show ?thesis by simp
qed

subsection \<open>Start and end\<close>

text \<open>A baud rate the table does not have is taken for 0, so the test for an invalid one never fails.\<close>

lemma baud_rate_never_invalid: "get_baudrate_flag n \<noteq> -1"
proof -
  have "get_baudrate_flag n \<in> insert 0 (snd ` set baud_table)"
    by (force simp: get_baudrate_flag_def split: option.splits dest: map_of_SomeD)
  then show ?thesis by (auto simp: baud_table_def)
qed

text \<open>The settings of stdin: what was read first and what was set last.\<close>

fun stdin_st :: "termios option \<times> termios option \<Rightarrow> tcall \<Rightarrow> tresp \<Rightarrow> termios option \<times> termios option" where
  "stdin_st (f, l) (Tcgetattr fd) r = (if f = None \<and> fd = 0 then Some (t_tty r) else f, l)"
| "stdin_st (f, l) (Tcsetattr fd fl tty) r = (f, if fd = 0 then Some tty else l)"
| "stdin_st h c r = h"

definition stdin_tty :: "(termios option \<times> termios option, tcall, tresp) monitor" where
  "stdin_tty = \<lparr>m_ok = \<lambda>_ _. True, m_env = \<lambda>_ _ _. True, m_st = stdin_st\<rparr>"

lemma stdin_tty_simps [simp]:
  "m_ok stdin_tty = (\<lambda>_ _. True)" "m_env stdin_tty = (\<lambda>_ _ _. True)" "m_st stdin_tty = stdin_st"
  by (simp_all add: stdin_tty_def)

lemma honest_stdin_tty: "honest stdin_tty h t"
  by (rule honest_free) simp

text \<open>When the program ends with 0 the terminal has the settings it had at the start.\<close>

lemma serial_main_restores:
  assumes "exec (serial_main name args) (Value 0) t"
  shows "\<exists>ts. end_state stdin_tty (None, None) t = (Some ts, Some ts)"
proof -
  let ?Q = "\<lambda>out h. out = Value 0 \<longrightarrow> (\<exists>ts. h = (Some ts, Some ts))"
  have run: "safe stdin_tty (serial_run port speed ts name) (Some ts, l) ?Q" for port speed ts l
    unfolding serial_run_def set_port_attributes_def set_blocking_def set_stdin_canonical_def change_tty_def
    by (simp add: Let_def)
  have "safe stdin_tty (serial_main name args) (None, None) ?Q"
    unfolding serial_main_def by (simp add: Let_def run)
  from safe_exec(2) [OF assms this honest_stdin_tty] show ?thesis by simp
qed

end
