(* ===== verification/Spec2Isabelle.thy ===== *)
theory Spec2Isabelle
  imports Reverse_Server Rot13 Re2c_Scanner Picocom_Main Shortpath Digits Input_Fill Line_Sender Socket_Client
    Shared_Memory Serial
begin

text \<open>
  A verification library for the C programs of \<^verbatim>\<open>c_samples\<close>.

  The repository is a collection of small Unix programs: servers on libevent, a terminal
  program, scanners, and examples of build systems and libraries.  They share copies of the
  same helpers and otherwise do not call each other.  The library has one theory for each
  program or part of a program that has logic of its own.

  \<^bold>\<open>Foundations.\<close>  \<open>Prelude\<close>: bytes, C strings in arrays, and the functions of the C
  library that walk them.  \<open>CProg\<close>: a C function is a decision tree over the answers of its
  environment; \<open>exec\<close> is the relation between a program, its outcome and its trace of calls,
  \<open>run\<close> its executable form on a list of answers, and \<open>safe\<close> a walk over a program with a
  monitor, which \<open>safe_exec\<close> turns into a fact about every execution (the locale \<open>monitoring\<close> has
  the laws of its traces).  An outcome is a value, an exit status, a violation (an access outside an array, a use of freed
  memory), or \<open>Running\<close> where fuel is used up.  \<open>Sys_Calls\<close>: the calls of the servers, and
  the ledger of descriptors, allocations and event registrations.  \<open>Event_Loop\<close>: libevent
  calls back any pending registration, in any order (locale \<open>event_loop\<close>).  \<open>Refill\<close>:
  the contract of a refillable buffer (locale \<open>refill\<close>).

  \<^bold>\<open>Servers on sockets.\<close>  \<open>Socket_Setup\<close>: \<^verbatim>\<open>src/network/common/common.c\<close>, with its copies in
  \<^verbatim>\<open>network2\<close>, \<^verbatim>\<open>daemon\<close>, \<^verbatim>\<open>socket\<close> and \<^verbatim>\<open>shared_memory\<close>; a helper either returns a
  socket or releases all it took (locale \<open>socket_opener\<close>), but for \<^verbatim>\<open>sender_socket\<close>.
  \<open>Mystrlcat\<close>: the bounded concatenation (locale \<open>bounded_cat\<close>).  \<open>Line_Buffer\<close>: what the handlers
  do with received text before and after they look at it.  \<open>Echo_Server\<close>,
  \<open>Cmd_Server\<close>, \<open>Daemon\<close>: \<^verbatim>\<open>src/daemon/src\<close>; what the handlers answer, on which inputs they
  stay inside their arrays and release what they hold exactly once, what the daemon does to
  detach, and the whole service under every schedule of events.  \<open>Reverse_Server\<close>:
  \<^verbatim>\<open>src/libevent/server/server.c\<close>, which turns each message round in place.
  \<open>Rot13\<close>: \<^verbatim>\<open>src/libevent/rot13/main.c\<close>; the bytes sent on a connection are the image of
  those received.  \<open>Line_Echo\<close>: \<^verbatim>\<open>src/network2/server/server.c\<close> and \<^verbatim>\<open>client/client.c\<close>; what
  the server gives back for any contents of its buffer.  \<open>Datagrams\<close>: \<^verbatim>\<open>src/network/receiver\<close> and
  \<^verbatim>\<open>sender\<close>; the answers to datagrams, and what is left after a failure.  \<open>Socket_Client\<close>:
  \<^verbatim>\<open>src/socket/client\<close>, which is also the daemon's.

  \<^bold>\<open>Line programs and shared bytes.\<close>  \<open>Line_Receiver\<close>: \<^verbatim>\<open>src/line/recvline/recvline.c\<close>; the lines
  printed are those of the stream however it is cut into datagrams, and the buffer is overrun
  exactly when 1024 bytes come together.  \<open>Line_Sender\<close>: \<^verbatim>\<open>src/line/sendline/sendline.c\<close>; the
  output of the command it receives, in pieces.  The theorem at the end of this file puts the
  two together.  \<open>Shared_Memory\<close>: \<^verbatim>\<open>src/shared_memory\<close>; the reader shows what the writer stored.

  \<^bold>\<open>Scanners and text.\<close>  \<open>Re2c_Scanner\<close>: \<^verbatim>\<open>src/re2c/scanner\<close> and its example; the generated
  automaton, state by state, is the longest match of the rules, whatever the buffer boundaries
  are.  \<open>Input_Fill\<close>: \<^verbatim>\<open>src/tokenizer/scanner/input.c\<close> and its copy in \<^verbatim>\<open>any_parser\<close>, a second
  provider of \<open>refill\<close>.  \<open>Digits\<close>: \<^verbatim>\<open>is_digits\<close> of \<^verbatim>\<open>any_parser/scanner/util.c\<close> on 64-bit
  words.  \<open>Shortpath\<close>: \<^verbatim>\<open>src/shortpath/shortpath\<close>; the loop of regular expression matches is
  one pass with a stack, and for which paths the result is the same place.

  \<^bold>\<open>Terminal programs.\<close>  \<open>Serial\<close>: \<^verbatim>\<open>src/serial\<close>; both directions byte for byte, the flags it
  sets, and the settings it comes back to.  The larger one is \<^verbatim>\<open>src/myterm/picocom/picocom.c\<close>
  with \<^verbatim>\<open>fdio.c\<close>.  \<open>Picocom_Map\<close>: character mappings, hexadecimal input, line settings and
  framing, the pure functions.
  \<open>Picocom_Term\<close>: the program's state, its queue, its writes, the clean end and the fatal one.
  \<open>Picocom_Command\<close>: the command keys with the prompts and the transfer commands.
  \<open>Picocom_Loop\<close>: the select loop; the streams it copies, what can be typed, how it ends.
  \<open>Picocom_Main\<close>: options, set-up and the whole program.  The build of the \<^verbatim>\<open>Makefile\<close> is
  modelled (\<^verbatim>\<open>ENABLE_DEMUX\<close>, \<^verbatim>\<open>LINENOISE\<close> and \<^verbatim>\<open>USE_FLOCK\<close> on, the UUCP lock files off).

  \<^bold>\<open>Bounds and fuel.\<close>  Loops over data are structural or have a measure.  Loops that the
  environment can prolong have fuel: the relay of \<open>Cmd_Server\<close> (more fuel than pieces of output
  is enough), \<^verbatim>\<open>writen_ni\<close> (fuel for each byte and each interruption is enough), the
  passes of the terminal's loop (a property about all executions holds for every fuel;
  \<open>exit_drains_queue\<close> shows that one pass per queued byte is enough to end), the growing queue
  (32 doublings leave the range of \<^verbatim>\<open>int\<close>), \<^verbatim>\<open>read_cb\<close> of the reversing server (one round for
  each 256 bytes), the loops of \<open>Line_Echo\<close> and \<open>Line_Sender\<close> (one round for each byte is enough).  Machine integers are words where they wrap; sizes and results of
  calls, which stay small, are \<^verbatim>\<open>nat\<close> and \<^verbatim>\<open>int\<close>.

  \<^bold>\<open>Parameters.\<close>  The operating system, libevent, linenoise and \<^verbatim>\<open>term.c\<close> are answers to calls;
  what is assumed of them (a read returns no more than was asked for, and so on) is a
  predicate on traces that stands in the statements.  Uninitialised arrays are arguments.
  \<^verbatim>\<open>getopt_long\<close> is the list of what it returns.

  \<^bold>\<open>Not modelled.\<close>  The copies of lemon and makeheaders, which are vendored; the
  parsers and scanners generated from \<^verbatim>\<open>.y\<close>, \<^verbatim>\<open>.l\<close> and \<^verbatim>\<open>.re\<close> files, which are not in the
  repository, and the drivers around them (\<^verbatim>\<open>src/myterm/main.c\<close> among them); programs that only
  show a call of a library (threads, timers, gtk) or a build system; the line completion of the
  terminal program, which only calls linenoise; \<^verbatim>\<open>src/socket/server\<close>, an earlier version of the
  daemon, and copies of files modelled elsewhere.
\<close>

section \<open>The line sender and the line receiver\<close>

text \<open>
  C15: what a command writes on the sender's side, seen on the receiver's: each datagram
  of the sender arrives as its first 512 bytes, and the lines printed are the whole lines of
  what arrived.  An output of less than 512 bytes is shown line by line, with the additional
  byte \<^verbatim>\<open>0xFF\<close> left in the buffer; of a longer one what is behind the first 512 of every 1024
  bytes is lost.
\<close>

theorem command_output_shown:
  assumes "length arr = 512" and "length line = 1024"
    and "posix_ok (Net (Recv soc 512)) r" and "0 < rv r" and "rv r < 512"
    and "exec (sendline_recv_handler fuel arr line soc [EV_READ] info) out
           ((Net (Recv soc 512), r) # (c, rp) # t)"
    and "rptr rp \<noteq> Null" and "honest (pipe_of (rptr rp)) (output, []) t" and "length output < fuel"
    and "map (\<lambda>x. rdat (hd (snd x))) xs = map (take 512) (snd (end_state (pipe_of (rptr rp)) (output, []) t))"
    and "datagrams xs" and "deliveries s ev xs (fresh_lines s) = Some (d, t')"
  shows "printed t' = fst (chop [] (concat (map (take 512) (pieces 1024 (output @ [255]))))) \<and>
     (length output < 512 \<longrightarrow>
        printed t' = fst (chop [] output) \<and> cstr (ld_lines d) = snd (chop [] output) @ [255])"
proof -
  have sent: "snd (end_state (pipe_of (rptr rp)) (output, []) t) = pieces 1024 (output @ [255])"
    using sendline_run [OF assms(1-9)] by blast
  then have st: "stream_of xs = concat (map (take 512) (pieces 1024 (output @ [255])))"
    using assms(10) by (simp add: stream_of_def)
  from deliveries_lines [OF assms(12,11) fresh_ok(1)] have
    lines: "printed t' = fst (chop [] (stream_of xs))" "cstr (ld_lines d) = snd (chop [] (stream_of xs))"
    by (simp_all add: fresh_ok)
  have "stream_of xs = output @ [255]" if "length output < 512"
    using that st by (simp add: pieces_short)
  with lines st show ?thesis by (auto simp: chop_append)
qed

lemma command_output_shown_witness:
  "\<exists>xs d t'. deliveries 4 (Local ''ev'') xs (fresh_lines 4) = Some (d, t') \<and>
     printed t' = [[47]] \<and> cstr (ld_lines d) = [255]"
proof -
  let ?info = "\<lparr>ai_family = AF_INET, ai_socktype = SOCK_DGRAM, ai_protocol = 0, ai_addr = []\<rparr>"
  let ?r = "rbytes (bytes ''pwd'')" and ?buf = "replicate 512 0" and ?line = "replicate 1024 0 :: byte list"
  have b: "length ?buf = 512" "length ?line = 1024" "posix_ok (Net (Recv 3 512)) ?r" "0 < rv ?r" "rv ?r < 512"
    "rptr (rpointer (Heap 7)) \<noteq> Null" "length [47, LF] < (3 :: nat)"
    by (simp_all add: resp0_def bytes_def)
  obtain t where e: "exec (sendline_recv_handler 3 ?buf ?line 3 [EV_READ] ?info) (Value ())
      ((Net (Recv 3 512), ?r) # (Io (Popen (bytes ''pwd'')), rpointer (Heap 7)) # t)"
    and h: "honest (pipe_of (rptr (rpointer (Heap 7)))) ([47, LF], []) t"
    by (rule sendline_runs [of "[47, LF]" 3]) simp_all
  have sent: "snd (end_state (pipe_of (rptr (rpointer (Heap 7)))) ([47, LF], []) t) = [[47, LF, 255]]"
    using sendline_run [OF b(1-5) e b(6) h b(7)] by (simp add: pieces_short)
  let ?ev = "Local ''ev''" and ?d = "rbytes [47, LF, 255]"
  have d: "datagram ?d" by (simp add: datagram_def resp0_def)
  have l: "length (cstr (ld_lines (fresh_lines 4))) + length (rdat ?d) < 1024" by (simp add: fresh_ok resp0_def)
  obtain rs d1 t1 where 1: "run (recvline_handler ?buf 4 [EV_READ] ?ev (fresh_lines 4)) (?d # rs) = (Value d1, t1)"
    by (rule delivery_run [OF fresh_ok(1) d l, where soc = 4 and ev = ?ev and buf = ?buf])
  let ?xs = "[(?buf, ?d # rs)]"
  have dl: "deliveries 4 ?ev ?xs (fresh_lines 4) = Some (d1, t1)"
    by (simp only: deliveries.simps fst_conv snd_conv 1 prod.case outcome.case option.map append_Nil2)
  have xs: "map (\<lambda>x. rdat (hd (snd x))) ?xs = map (take 512) (snd (end_state (pipe_of (rptr (rpointer (Heap 7)))) ([47, LF], []) t))"
    "datagrams ?xs"
    using d by (simp_all only: sent) (simp_all add: resp0_def datagrams_def)
  from command_output_shown [OF b(1-5) e b(6) h b(7) xs dl, THEN conjunct2]
  have "printed t1 = [[47]] \<and> cstr (ld_lines d1) = [255]" by simp
  with dl show ?thesis by blast
qed

end
